(* ===== verification/Kp_Prelude.thy ===== *)
theory Kp_Prelude
  imports Main "HOL-Library.Word"
begin

text \<open>
  What every component of the model shares: the machine types of the C code, the ways
  in which a C operation can go wrong, the result type and its sequencing, pointers
  with the states a pointer can be in, bounds-checked memory and arrays, the
  little-endian images of integers, the signed conversions the code relies on, and the
  arithmetic of a ring of slots.
\<close>

unbundle bit_operations_syntax

named_theorems c_simps \<open>evaluation of results, pointers, arrays and memory\<close>
named_theorems image_simps \<open>lengths and fields of byte images\<close>

section \<open>Machine types and results\<close>

type_synonym byte = "8 word"
type_synonym u32 = "32 word"
type_synonym u64 = "64 word"

text \<open>
  The undefined behaviours and run-time failures that the C code can run into; a model
  function that reaches one returns it, so that safety is the absence of \<open>Inl\<close>.
\<close>

datatype cerror =
    OutOfBounds      \<comment> \<open>an access past the end of an array or a block\<close>
  | NullDeref        \<comment> \<open>a NULL pointer followed\<close>
  | UseAfterFree     \<comment> \<open>a freed pointer followed\<close>
  | DoubleFree       \<comment> \<open>a freed pointer freed again\<close>
  | UninitRead       \<comment> \<open>an uninitialised pointer used\<close>
  | BadPointer       \<comment> \<open>an error code followed as a pointer\<close>
  | AssertFailed     \<comment> \<open>a failing \<open>assert\<close>\<close>
  | DivByZero

primrec bindR :: "'e + 'a \<Rightarrow> ('a \<Rightarrow> 'e + 'b) \<Rightarrow> 'e + 'b" where
  "bindR (Inl e) f = Inl e"
| "bindR (Inr x) f = f x"

lemma bindR_eq_Inr: "bindR m f = Inr y \<longleftrightarrow> (\<exists>x. m = Inr x \<and> f x = Inr y)"
  by (cases m) auto

lemma bindR_eq_Inl: "bindR m f = Inl e \<longleftrightarrow> m = Inl e \<or> (\<exists>x. m = Inr x \<and> f x = Inl e)"
  by (cases m) auto

lemma map_sum_bindR: "map_sum id f (bindR m g) = bindR m (\<lambda>x. map_sum id f (g x))"
  by (cases m) simp_all

lemma bindR_cong [fundef_cong]:
  "m = m' \<Longrightarrow> (\<And>x. m' = Inr x \<Longrightarrow> f x = f' x) \<Longrightarrow> bindR m f = bindR m' f'"
  by (cases m') auto

section \<open>Pointers\<close>

text \<open>
  A pointer variable or field together with the object it owns: not yet assigned, NULL,
  pointing to a live object, or pointing to an object that has been freed.
\<close>

datatype 'a cptr = Uninit | Null | Live 'a | Dangling

primrec deref :: "'a cptr \<Rightarrow> cerror + 'a" where
  "deref Uninit = Inl UninitRead"
| "deref Null = Inl NullDeref"
| "deref (Live x) = Inr x"
| "deref Dangling = Inl UseAfterFree"

text \<open>The test \<open>p != NULL\<close>; it reads the pointer, not the object.\<close>

primrec nonnull :: "'a cptr \<Rightarrow> cerror + bool" where
  "nonnull Uninit = Inl UninitRead"
| "nonnull Null = Inr False"
| "nonnull (Live x) = Inr True"
| "nonnull Dangling = Inr True"

text \<open>\<open>free\<close>, \<open>kfree\<close> and \<open>vfree\<close>: all three accept NULL and do nothing with it.\<close>

primrec cfree :: "'a cptr \<Rightarrow> cerror + 'a cptr" where
  "cfree Uninit = Inl UninitRead"
| "cfree Null = Inr Null"
| "cfree (Live x) = Inr Dangling"
| "cfree Dangling = Inl DoubleFree"

lemma deref_eq_Inr [c_simps]: "deref p = Inr x \<longleftrightarrow> p = Live x"
  by (cases p) auto

section \<open>Memory and arrays\<close>

text \<open>
  \<open>mem_put off bs m\<close> writes \<open>bs\<close> at offset \<open>off\<close> of block \<open>m\<close> (\<open>memcpy\<close>,
  \<open>memset\<close> and field stores), \<open>mem_get off n m\<close> reads \<open>n\<close> elements from there.
\<close>

definition mem_put :: "nat \<Rightarrow> 'a list \<Rightarrow> 'a list \<Rightarrow> cerror + 'a list" where
  "mem_put off bs m =
     (if off + length bs \<le> length m
      then Inr (take off m @ bs @ drop (off + length bs) m) else Inl OutOfBounds)"

definition mem_get :: "nat \<Rightarrow> nat \<Rightarrow> 'a list \<Rightarrow> cerror + 'a list" where
  "mem_get off n m = (if off + n \<le> length m then Inr (take n (drop off m)) else Inl OutOfBounds)"

definition arr_get :: "'a list \<Rightarrow> nat \<Rightarrow> cerror + 'a" where
  "arr_get xs i = (if i < length xs then Inr (xs ! i) else Inl OutOfBounds)"

definition arr_set :: "'a list \<Rightarrow> nat \<Rightarrow> 'a \<Rightarrow> cerror + 'a list" where
  "arr_set xs i v = (if i < length xs then Inr (xs[i := v]) else Inl OutOfBounds)"

lemma mem_put_ok [c_simps]:
  "off + length bs \<le> length m \<Longrightarrow> mem_put off bs m = Inr (take off m @ bs @ drop (off + length bs) m)"
  by (simp add: mem_put_def)

lemma mem_get_ok [c_simps]:
  "off + n \<le> length m \<Longrightarrow> mem_get off n m = Inr (take n (drop off m))"
  by (simp add: mem_get_def)

lemma mem_put_bad [c_simps]: "length m < off + length bs \<Longrightarrow> mem_put off bs m = Inl OutOfBounds"
  by (simp add: mem_put_def)

lemma mem_get_bad [c_simps]: "length m < off + n \<Longrightarrow> mem_get off n m = Inl OutOfBounds"
  by (simp add: mem_get_def)

lemma arr_get_ok [c_simps]: "i < length xs \<Longrightarrow> arr_get xs i = Inr (xs ! i)"
  by (simp add: arr_get_def)

lemma arr_set_ok [c_simps]: "i < length xs \<Longrightarrow> arr_set xs i v = Inr (xs[i := v])"
  by (simp add: arr_set_def)

lemma mem_put_length: "mem_put off bs m = Inr m' \<Longrightarrow> length m' = length m"
  by (auto simp: mem_put_def split: if_splits)

lemma mem_get_length: "mem_get off n m = Inr bs \<Longrightarrow> length bs = n"
  by (auto simp: mem_get_def split: if_splits)

text \<open>A block read back where it was written, and elsewhere.\<close>

lemma mem_get_put_same:
  "mem_put off bs m = Inr m' \<Longrightarrow> n = length bs \<Longrightarrow> mem_get off n m' = Inr bs"
  by (auto simp: mem_put_def mem_get_def split: if_splits)

lemma mem_get_put_before:
  assumes "mem_put off bs m = Inr m'" and "i + n \<le> off"
  shows "mem_get i n m' = mem_get i n m"
proof -
  from assms have b: "off + length bs \<le> length m"
    and m': "m' = take off m @ bs @ drop (off + length bs) m"
    by (auto simp: mem_put_def split: if_splits)
  from b assms(2) have "take n (drop i m') = take n (drop i m)"
    unfolding m' by (auto simp: nth_append intro!: nth_equalityI)
  moreover from b have "length m' = length m" unfolding m' by simp
  ultimately show ?thesis by (simp add: mem_get_def)
qed

lemma mem_get_put_after:
  assumes "mem_put off bs m = Inr m'" and "off + length bs \<le> i"
  shows "mem_get i n m' = mem_get i n m"
proof -
  from assms have b: "off + length bs \<le> length m"
    and m': "m' = take off m @ bs @ drop (off + length bs) m"
    by (auto simp: mem_put_def split: if_splits)
  from b assms(2) have "drop i m' = drop i m"
    unfolding m' by (simp add: drop_append)
  moreover from b have "length m' = length m" unfolding m' by simp
  ultimately show ?thesis by (simp add: mem_get_def)
qed

text \<open>One round of a loop that fills an array from the front.\<close>

lemma fill_step:
  assumes "xs = replicate i a @ replicate (n - i) b" and "i < n"
  shows "xs[i := a] = replicate (Suc i) a @ replicate (n - Suc i) b"
proof -
  from assms(2) have "replicate (n - i) b = b # replicate (n - Suc i) b"
    by (simp add: Suc_diff_Suc flip: replicate_Suc)
  with assms(1) show ?thesis
    by (simp add: list_update_append replicate_app_Cons_same)
qed

section \<open>Little-endian images of integers\<close>

definition le32 :: "u32 \<Rightarrow> byte list" where
  "le32 w = [ucast w, ucast (drop_bit 8 w), ucast (drop_bit 16 w), ucast (drop_bit 24 w)]"

definition rd32 :: "byte list \<Rightarrow> u32" where
  "rd32 bs = ucast (bs ! 0) OR push_bit 8 (ucast (bs ! 1))
     OR push_bit 16 (ucast (bs ! 2)) OR push_bit 24 (ucast (bs ! 3))"

definition le64 :: "u64 \<Rightarrow> byte list" where
  "le64 w = le32 (ucast w) @ le32 (ucast (drop_bit 32 w))"

definition rd64 :: "byte list \<Rightarrow> u64" where
  "rd64 bs = ucast (rd32 (take 4 bs)) OR push_bit 32 (ucast (rd32 (drop 4 bs)))"

lemma bit_byte_high: "8 \<le> n \<Longrightarrow> \<not> bit (b :: byte) n"
  using bit_imp_le_length [of b n] by auto

lemma bit_u32_high: "32 \<le> n \<Longrightarrow> \<not> bit (w :: u32) n"
  using bit_imp_le_length [of w n] by auto

lemma length_le32 [simp, image_simps]: "length (le32 w) = 4"
  by (simp add: le32_def)

lemma length_le64 [simp, image_simps]: "length (le64 w) = 8"
  by (simp add: le64_def)

lemma rd32_le32 [simp, image_simps]: "rd32 (le32 w) = w"
proof (rule bit_word_eqI)
  fix n assume "n < LENGTH(32)"
  then show "bit (rd32 (le32 w)) n = bit w n"
    by (cases "n < 8"; cases "n < 16"; cases "n < 24") (auto simp: rd32_def le32_def bit_simps)
qed

lemma rd32_le32_append [simp, image_simps]: "rd32 (le32 w @ xs) = w"
proof -
  have "rd32 (le32 w @ xs) = rd32 (le32 w)" by (simp add: rd32_def le32_def)
  then show ?thesis by simp
qed

lemma rd64_le64 [simp, image_simps]: "rd64 (le64 w) = w"
  by (rule bit_word_eqI) (auto simp: rd64_def le64_def bit_simps)

lemma length4_cases: "length bs = 4 \<Longrightarrow> \<exists>a b c d. bs = [a, b, c, d]"
  by (auto simp: numeral_eq_Suc length_Suc_conv)

lemma le32_rd32: "length bs = 4 \<Longrightarrow> le32 (rd32 bs) = bs"
proof -
  assume "length bs = 4"
  then obtain a b c d where bs: "bs = [a, b, c, d]" using length4_cases by blast
  show ?thesis
    unfolding bs le32_def rd32_def
    by (intro list.rel_eq [THEN fun_cong, THEN fun_cong, THEN iffD1] list_all2_Cons [THEN iffD2] conjI)
       (auto intro!: bit_word_eqI simp: bit_simps bit_byte_high)
qed

lemma le64_rd64: "length bs = 8 \<Longrightarrow> le64 (rd64 bs) = bs"
proof -
  assume l: "length bs = 8"
  have lo: "ucast (rd64 bs) = rd32 (take 4 bs)"
    by (rule bit_word_eqI) (auto simp: rd64_def bit_simps)
  have hi: "ucast (drop_bit 32 (rd64 bs)) = rd32 (drop 4 bs)"
    by (rule bit_word_eqI) (auto simp: rd64_def bit_simps bit_u32_high)
  from l have "le32 (rd32 (take 4 bs)) @ le32 (rd32 (drop 4 bs)) = bs"
    by (simp add: le32_rd32)
  with lo hi show ?thesis by (simp add: le64_def)
qed

section \<open>Signed integers and conversions\<close>

text \<open>
  A C \<open>int\<close> is a \<open>u32\<close> read with \<open>sint\<close>. Converting it to \<open>size_t\<close> sign-extends;
  converting a \<open>size_t\<close> to \<open>int\<close> truncates.
\<close>

definition int_to_size :: "u32 \<Rightarrow> u64" where
  "int_to_size w = word_of_int (sint w)"

definition size_to_int :: "u64 \<Rightarrow> u32" where
  "size_to_int w = ucast w"

lemma sint_of_nat32: "n < 2 ^ 31 \<Longrightarrow> sint (of_nat n :: u32) = int n"
  by (simp add: signed_of_nat signed_take_bit_int_eq_self)

lemma unat_of_nat32: "n < 2 ^ 32 \<Longrightarrow> unat (of_nat n :: u32) = n"
  by (simp add: unsigned_of_nat take_bit_nat_eq_self)

lemma unat_of_nat64: "n < 2 ^ 64 \<Longrightarrow> unat (of_nat n :: u64) = n"
  by (simp add: unsigned_of_nat take_bit_nat_eq_self)

lemma int_to_size_of_nat: "n < 2 ^ 31 \<Longrightarrow> int_to_size (of_nat n) = of_nat n"
  by (simp add: int_to_size_def sint_of_nat32)

lemma unat_int_to_size: "0 \<le> sint w \<Longrightarrow> unat (int_to_size w) = nat (sint w)"
proof -
  assume p: "0 \<le> sint w"
  have "sint w < 2 ^ 31" using sint_range_size [of w] by (simp add: word_size)
  then have "uint (word_of_int (sint w) :: u64) = sint w"
    using p by (simp only: uint_word_of_int_eq) (simp add: take_bit_int_eq_self)
  then show ?thesis by (simp add: int_to_size_def unat_eq_nat_uint)
qed

lemma size_to_int_of_int: "size_to_int (word_of_int k) = word_of_int k"
  unfolding size_to_int_def by (rule bit_word_eqI) (simp add: bit_simps)

lemma int_size_roundtrip:
  assumes "- (2 ^ 31) \<le> k" and "k < 2 ^ 31"
  shows "int_to_size (word_of_int k) = word_of_int k"
proof -
  from assms have "sint (word_of_int k :: u32) = k"
    by (simp add: signed_of_int signed_take_bit_int_eq_self)
  then show ?thesis by (simp only: int_to_size_def)
qed

section \<open>Rings of slots\<close>

text \<open>
  A ring of \<open>length xs\<close> slots read from slot \<open>f\<close> on: the \<open>n\<close> slots in use, oldest
  first. This is the abstraction of both message buffers.
\<close>

definition ring_window :: "nat \<Rightarrow> nat \<Rightarrow> 'a list \<Rightarrow> 'a list" where
  "ring_window f n xs = map (\<lambda>i. xs ! ((f + i) mod length xs)) [0..<n]"

lemma length_ring_window [simp]: "length (ring_window f n xs) = n"
  by (simp add: ring_window_def)

lemma ring_window_0 [simp]: "ring_window f 0 xs = []"
  by (simp add: ring_window_def)

lemma ring_slot_distinct:
  assumes "i < n" and "n < L + i"
  shows "(f + i) mod L \<noteq> (f + n) mod (L :: nat)"
proof
  assume eq: "(f + i) mod L = (f + n) mod L"
  from assms have "f + i \<le> f + n" by simp
  with eq have "L dvd (f + n) - (f + i)" by (metis mod_eq_dvd_iff_nat)
  with assms show False by (auto dest: dvd_imp_le)
qed

lemma ring_window_put:
  assumes "n < length xs"
  shows "ring_window f (Suc n) (xs[(f + n) mod length xs := v]) = ring_window f n xs @ [v]"
proof -
  from assms have "(f + n) mod length xs < length xs"
    by (intro mod_less_divisor) linarith
  then show ?thesis
    using assms by (auto simp: ring_window_def ring_slot_distinct [THEN not_sym] intro!: map_cong)
qed

lemma ring_window_hd: "0 < n \<Longrightarrow> f < length xs \<Longrightarrow> hd (ring_window f n xs) = xs ! f"
  by (simp add: ring_window_def hd_map upt_conv_Cons)

lemma ring_window_advance:
  assumes "f < length xs"
  shows "ring_window ((f + 1) mod length xs) (n - 1) xs = tl (ring_window f n xs)"
proof (cases n)
  case 0
  then show ?thesis by (simp add: ring_window_def)
next
  case (Suc m)
  have "((f + 1) mod length xs + i) mod length xs = (f + Suc i) mod length xs" for i
    by (simp add: mod_add_left_eq)
  with Suc show ?thesis
    by (auto simp: ring_window_def map_tl [symmetric] tl_upt map_Suc_upt [symmetric]
             simp del: map_Suc_upt upt_Suc intro!: nth_equalityI)
qed

lemma ring_pos_put:
  "current = (f + n) mod L \<Longrightarrow> (current + 1) mod L = (f + Suc n) mod (L :: nat)"
  by (simp add: mod_Suc_eq)

lemma ring_pos_advance:
  assumes "current = (f + n) mod L" and "0 < n"
  shows "current = ((f + 1) mod L + (n - 1)) mod (L :: nat)"
proof -
  have "((f + 1) mod L + (n - 1)) mod L = (f + 1 + (n - 1)) mod L" by (rule mod_add_left_eq)
  with assms show ?thesis by simp
qed

end
