(* ===== verification/Paxos_Types.thy ===== *)
theory Paxos_Types
  imports Kp_Prelude
begin

text \<open>
  The data of \<open>paxos/include/paxos_types.h\<close> and \<open>common.h\<close>: the message structs, the
  message type codes with their index macros, the object representation of a
  \<open>struct paxos_accepted\<close> (the format in which messages travel between the kernel
  devices, the storage process and the database), and \<open>clearPaxosAccepted\<close> of
  \<open>paxos/paxos.c\<close>.
\<close>

section \<open>Structs\<close>

text \<open>
  Padding bytes are fields of the model, because \<open>memcpy\<close> of a whole struct copies
  them too. Pointers inside a struct are addresses (64 bits).
\<close>

record paxos_value =
  paxos_value_len :: u32
  value_pad :: u32
  paxos_value_val :: u64

record paxos_prepare =
  prepare_iid :: u32
  prepare_ballot :: u32

record paxos_promise =
  promise_aid :: u32
  promise_inst :: u32
  promise_ballot :: u32
  promise_value_ballot :: u32
  promise_value :: paxos_value

record paxos_accept =
  accept_iid :: u32
  accept_promise_iid :: u32
  accept_ballot :: u32
  accept_value :: paxos_value

record paxos_accepted =
  aid :: u32
  iid :: u32
  promise_iid :: u32
  ballot :: u32
  value_ballot :: u32
  accepted_pad :: u32
  acc_value :: paxos_value

record paxos_preempted =
  preempted_aid :: u32
  preempted_iid :: u32
  preempted_ballot :: u32

record paxos_repeat =
  repeat_from :: u32
  repeat_to :: u32

record paxos_trim =
  trim_iid :: u32

record paxos_acceptor_state =
  state_aid :: u32
  state_trim_iid :: u32

record paxos_client_value =
  client_value_value :: paxos_value

text \<open>\<open>paxos_learner_hi\<close>, \<open>paxos_learner_del\<close> and \<open>paxos_acceptor_ok\<close> are empty structs.\<close>

datatype paxos_union =
    U_prepare paxos_prepare
  | U_promise paxos_promise
  | U_accept paxos_accept
  | U_accepted paxos_accepted
  | U_preempted paxos_preempted
  | U_repeat paxos_repeat
  | U_trim paxos_trim
  | U_state paxos_acceptor_state
  | U_client_value paxos_client_value
  | U_learner_hi
  | U_learner_del
  | U_accept_ok

datatype paxos_message_type =
    PAXOS_PREPARE | PAXOS_PROMISE | PAXOS_ACCEPT | PAXOS_ACCEPTED | PAXOS_PREEMPTED
  | PAXOS_REPEAT | PAXOS_TRIM | PAXOS_ACCEPTOR_STATE | PAXOS_CLIENT_VALUE
  | PAXOS_LEARNER_HI | PAXOS_LEARNER_DEL | PAXOS_ACCEPTOR_OK | N_ELEMENTS

record paxos_message =
  message_type :: paxos_message_type
  message_u :: paxos_union

section \<open>Message type codes\<close>

text \<open>The enum starts at \<open>0xcafa\<close> and counts up in declaration order.\<close>

primrec message_code :: "paxos_message_type \<Rightarrow> int" where
  "message_code PAXOS_PREPARE = 0xcafa"
| "message_code PAXOS_PROMISE = 0xcafb"
| "message_code PAXOS_ACCEPT = 0xcafc"
| "message_code PAXOS_ACCEPTED = 0xcafd"
| "message_code PAXOS_PREEMPTED = 0xcafe"
| "message_code PAXOS_REPEAT = 0xcaff"
| "message_code PAXOS_TRIM = 0xcb00"
| "message_code PAXOS_ACCEPTOR_STATE = 0xcb01"
| "message_code PAXOS_CLIENT_VALUE = 0xcb02"
| "message_code PAXOS_LEARNER_HI = 0xcb03"
| "message_code PAXOS_LEARNER_DEL = 0xcb04"
| "message_code PAXOS_ACCEPTOR_OK = 0xcb05"
| "message_code N_ELEMENTS = 0xcb06"

definition N_PAXOS_TYPES :: int where
  "N_PAXOS_TYPES = message_code N_ELEMENTS - message_code PAXOS_PREPARE"

definition GET_PAXOS_INDEX :: "int \<Rightarrow> int" where
  "GET_PAXOS_INDEX n = n - message_code PAXOS_PREPARE"

definition GET_PAXOS :: "int \<Rightarrow> int" where
  "GET_PAXOS n = n + message_code PAXOS_PREPARE"

lemma message_code_inj: "message_code s = message_code t \<Longrightarrow> s = t"
  by (cases s; cases t) simp_all

text \<open>C compares enum values by their codes; the model's order is that one.\<close>

instantiation paxos_message_type :: linorder
begin

definition less_eq_paxos_message_type :: "paxos_message_type \<Rightarrow> paxos_message_type \<Rightarrow> bool" where
  "less_eq_paxos_message_type s t = (message_code s \<le> message_code t)"

definition less_paxos_message_type :: "paxos_message_type \<Rightarrow> paxos_message_type \<Rightarrow> bool" where
  "less_paxos_message_type s t = (message_code s < message_code t)"

instance
  by standard (auto simp: less_eq_paxos_message_type_def less_paxos_message_type_def
    intro: message_code_inj)

end

section \<open>The object representation of an accepted message\<close>

definition sizeof_paxos_accepted :: nat where
  "sizeof_paxos_accepted = 40"

definition MAX_PAXOS_VALUE_SIZE :: nat where
  "MAX_PAXOS_VALUE_SIZE = 200"

text \<open>The offset of \<open>value.paxos_value_len\<close> in the struct.\<close>

definition offset_value_len :: nat where
  "offset_value_len = 24"

lemmas size_defs [c_simps] =
  sizeof_paxos_accepted_def MAX_PAXOS_VALUE_SIZE_def offset_value_len_def

definition accepted_image :: "paxos_accepted \<Rightarrow> byte list" where
  "accepted_image a =
     le32 (aid a) @ le32 (iid a) @ le32 (promise_iid a) @ le32 (ballot a)
     @ le32 (value_ballot a) @ le32 (accepted_pad a)
     @ le32 (paxos_value_len (acc_value a)) @ le32 (value_pad (acc_value a))
     @ le64 (paxos_value_val (acc_value a))"

definition accepted_of_image :: "byte list \<Rightarrow> paxos_accepted" where
  "accepted_of_image bs =
     \<lparr>aid = rd32 bs, iid = rd32 (drop 4 bs), promise_iid = rd32 (drop 8 bs),
      ballot = rd32 (drop 12 bs), value_ballot = rd32 (drop 16 bs),
      accepted_pad = rd32 (drop 20 bs),
      acc_value = \<lparr>paxos_value_len = rd32 (drop 24 bs), value_pad = rd32 (drop 28 bs),
                   paxos_value_val = rd64 (drop 32 bs)\<rparr>\<rparr>"

text \<open>The length field of a message image, read as the C \<open>int\<close> it is.\<close>

abbreviation value_len_of :: "byte list \<Rightarrow> u32" where
  "value_len_of bs \<equiv> paxos_value_len (acc_value (accepted_of_image bs))"

lemma length_accepted_image [simp, image_simps]: "length (accepted_image a) = 40"
  by (simp add: accepted_image_def)

lemma rd64_le64_append: "rd64 (le64 w @ xs) = w"
proof -
  have "rd64 (le64 w @ xs) = rd64 (le64 w)"
    by (simp add: rd64_def le64_def)
  then show ?thesis by simp
qed

lemma accepted_of_image_append: "accepted_of_image (accepted_image a @ xs) = a"
  by (simp add: accepted_of_image_def accepted_image_def rd64_le64_append)

lemma accepted_of_image_image [simp, image_simps]: "accepted_of_image (accepted_image a) = a"
  using accepted_of_image_append [of a "[]"] by simp

lemma rd32_take: "4 \<le> n \<Longrightarrow> rd32 (take n bs) = rd32 bs"
  by (simp add: rd32_def)

lemma rd64_take: "8 \<le> n \<Longrightarrow> rd64 (take n bs) = rd64 bs"
  by (simp add: rd64_def drop_take rd32_take)

lemma accepted_of_image_take: "40 \<le> n \<Longrightarrow> accepted_of_image (take n bs) = accepted_of_image bs"
  by (simp add: accepted_of_image_def drop_take rd32_take rd64_take)

lemma le32_rd32_drop: "k + 4 \<le> length bs \<Longrightarrow> le32 (rd32 (drop k bs)) = take 4 (drop k bs)"
  using le32_rd32 [of "take 4 (drop k bs)"] by (simp add: rd32_take)

lemma le64_rd64_drop: "k + 8 \<le> length bs \<Longrightarrow> le64 (rd64 (drop k bs)) = take 8 (drop k bs)"
  using le64_rd64 [of "take 8 (drop k bs)"] by (simp add: rd64_take)

lemma take_chunk: "take n bs @ take m (drop n bs) @ xs = take (n + m) bs @ xs"
  by (simp add: take_add)

lemma accepted_image_of_image:
  assumes "40 \<le> length bs"
  shows "accepted_image (accepted_of_image bs) = take 40 bs"
proof -
  have "accepted_image (accepted_of_image bs) = take 4 bs @ take 4 (drop 4 bs)
      @ take 4 (drop 8 bs) @ take 4 (drop 12 bs) @ take 4 (drop 16 bs) @ take 4 (drop 20 bs)
      @ take 4 (drop 24 bs) @ take 4 (drop 28 bs) @ take 8 (drop 32 bs) @ []"
    using assms le32_rd32_drop [of 0 bs]
    by (simp add: accepted_image_def accepted_of_image_def le32_rd32_drop le64_rd64_drop)
  also have "\<dots> = take 40 bs" by (simp add: take_chunk take_add [symmetric])
  finally show ?thesis .
qed

text \<open>Storing the length field changes that field of the image and nothing else.\<close>

lemma accepted_of_image_put_len:
  assumes "mem_put offset_value_len (le32 w) bs = Inr bs'" and "40 \<le> length bs"
  shows "accepted_of_image bs' =
    (accepted_of_image bs)\<lparr>acc_value := (acc_value (accepted_of_image bs))\<lparr>paxos_value_len := w\<rparr>\<rparr>"
proof -
  from assms have bs': "bs' = take 24 bs @ le32 w @ drop 28 bs"
    by (simp add: c_simps)
  have "rd32 (drop k bs') = rd32 (drop k bs)" if "k + 4 \<le> 24" for k
    using that assms(2) unfolding bs' by (auto simp: rd32_def nth_append)
  moreover have "rd32 (drop 28 bs') = rd32 (drop 28 bs)" "rd64 (drop 32 bs') = rd64 (drop 32 bs)"
    "rd32 (drop 24 bs') = w"
    using assms(2) unfolding bs' by simp_all
  moreover have "rd32 bs' = rd32 bs"
    using assms(2) unfolding bs' by (simp add: rd32_def nth_append)
  ultimately show ?thesis by (simp add: accepted_of_image_def)
qed

section \<open>Clearing a response\<close>

text \<open>
  A \<open>struct paxos_accepted\<close> on the heap with the block its value pointer owns, as
  \<open>kdevchar_init\<close> builds them for the responses.
\<close>

record accepted_obj =
  obj_acc :: paxos_accepted
  obj_val :: "byte list cptr"

definition clearPaxosAccepted :: "accepted_obj \<Rightarrow> cerror + accepted_obj" where
  "clearPaxosAccepted r =
     (let a = (obj_acc r)\<lparr>iid := 0, promise_iid := 0, ballot := 0,
                acc_value := (acc_value (obj_acc r))\<lparr>paxos_value_len := 0\<rparr>\<rparr>
      in bindR (deref (obj_val r)) (\<lambda>b.
         bindR (mem_put 0 (replicate MAX_PAXOS_VALUE_SIZE 0) b) (\<lambda>b'.
         Inr (r\<lparr>obj_acc := a, obj_val := Live b'\<rparr>))))"

text \<open>A response object as it is after initialisation: its block holds a maximal value.\<close>

definition response_ok :: "accepted_obj \<Rightarrow> bool" where
  "response_ok r \<longleftrightarrow> (\<exists>b. obj_val r = Live b \<and> length b = MAX_PAXOS_VALUE_SIZE)"

lemma clear_ok:
  assumes "response_ok r"
  shows "clearPaxosAccepted r = Inr (r\<lparr>obj_acc := (obj_acc r)\<lparr>iid := 0, promise_iid := 0, ballot := 0,
            acc_value := (acc_value (obj_acc r))\<lparr>paxos_value_len := 0\<rparr>\<rparr>,
          obj_val := Live (replicate MAX_PAXOS_VALUE_SIZE 0)\<rparr>)"
  using assms by (auto simp: clearPaxosAccepted_def response_ok_def c_simps)

text \<open>The 40-byte object representation of a \<open>struct paxos_accepted\<close> loses nothing
  in either direction: reading the image of a struct, with any bytes behind it, gives the
  struct back with every field and pointer, and re-imaging what was read from at least 40
  bytes gives exactly those 40 bytes.\<close>

lemma accepted_image_roundtrip:
  "accepted_of_image (accepted_image a @ xs) = a
   \<and> (40 \<le> length bs \<longrightarrow> accepted_image (accepted_of_image bs) = take 40 bs)"
  by (simp add: accepted_of_image_append accepted_image_of_image)

end
