(* ===== verification/Kernel_Env.thy ===== *)
theory Kernel_Env
  imports Kp_Prelude
begin

text \<open>
  The kernel as the module sees it: the outcomes of the allocation functions and of
  \<open>kthread_run\<close>, which are an input of the model, and a log of the device-registration
  calls the module makes, with the arguments it passes. The functions themselves are the
  kernel's and not part of the repository.
\<close>

section \<open>Outcomes of allocations\<close>

text \<open>The calls that register and unregister a character device, with their arguments.\<close>

datatype kcall =
    Register_chrdev "char list"
  | Class_create "char list"
  | Device_create u64 int "char list"
  | Unregister_chrdev int "char list cptr"
  | Class_destroy u64
  | Class_unregister u64
  | Device_destroy u64 int

text \<open>
  \<open>vmalloc\<close>, \<open>kmalloc\<close> and \<open>kthread_run\<close> may fail. The environment lists the outcomes of
  the coming calls; when the list is used up, calls succeed.
\<close>

record kenv =
  allocs :: "bool list"
  threads :: "bool list"
  calls :: "kcall list"

definition next_alloc :: "kenv \<Rightarrow> bool \<times> kenv" where
  "next_alloc e = (case allocs e of [] \<Rightarrow> (True, e) | b # bs \<Rightarrow> (b, e\<lparr>allocs := bs\<rparr>))"

definition next_thread :: "kenv \<Rightarrow> bool \<times> kenv" where
  "next_thread e = (case threads e of [] \<Rightarrow> (True, e) | b # bs \<Rightarrow> (b, e\<lparr>threads := bs\<rparr>))"

definition log_call :: "kcall \<Rightarrow> kenv \<Rightarrow> kenv" where
  "log_call c e = e\<lparr>calls := calls e @ [c]\<rparr>"

lemma next_alloc_run:
  "allocs e = True # bs \<Longrightarrow> next_alloc e = (True, e\<lparr>allocs := bs\<rparr>)"
  "allocs e = False # bs \<Longrightarrow> next_alloc e = (False, e\<lparr>allocs := bs\<rparr>)"
  "allocs e = [] \<Longrightarrow> next_alloc e = (True, e)"
  by (simp_all add: next_alloc_def)

lemma next_alloc_true:
  "\<forall>b \<in> set (take (Suc 0) (allocs e)). b \<Longrightarrow>
   next_alloc e = (True, e\<lparr>allocs := drop (Suc 0) (allocs e)\<rparr>)"
  by (cases "allocs e") (auto simp: next_alloc_def)

lemma all_take_Suc:
  "(\<forall>b \<in> set (take (Suc k) xs). b) \<longleftrightarrow> (\<forall>b \<in> set (take (Suc 0) xs). b) \<and> (\<forall>b \<in> set (take k (drop (Suc 0) xs)). b)"
  by (cases xs) auto

text \<open>An environment in which every call succeeds, and where no call was made yet.\<close>

definition good_env :: kenv where
  "good_env = \<lparr>allocs = [], threads = [], calls = []\<rparr>"

text \<open>Allocations that are all granted; the state in which the first \<open>k\<close> calls succeed.\<close>

definition alloc_all :: "kenv \<Rightarrow> bool" where
  "alloc_all e \<longleftrightarrow> (\<forall>b \<in> set (allocs e). b)"

lemma next_alloc_all:
  "alloc_all e \<Longrightarrow> next_alloc e = (True, e\<lparr>allocs := tl (allocs e)\<rparr>) \<and> alloc_all (e\<lparr>allocs := tl (allocs e)\<rparr>)"
  by (cases "allocs e") (auto simp: alloc_all_def next_alloc_def)

lemma calls_log [simp]: "calls (log_call c e) = calls e @ [c]"
  by (simp add: log_call_def)

lemma threads_log [simp]: "threads (log_call c e) = threads e"
  by (simp add: log_call_def)

lemma alloc_all_log [simp]: "alloc_all (log_call c e) = alloc_all e"
  by (simp add: alloc_all_def log_call_def)

lemma alloc_all_good [simp]: "alloc_all good_env"
  by (simp add: alloc_all_def good_env_def)

end
