(* ===== verification/Workers_Pool.thy ===== *)
theory Workers_Pool
  imports Kernel_Env "HOL-Library.Multiset"
begin

text \<open>
  \<open>kpaxos/workers_pool.c\<close>: a pool of kernel worker threads, each with a queue of works.
  The pool is built from three kinds of allocation whose outcomes are an input of the
  model (\<open>kenv\<close>), handed out in the order the code asks for them; its queues are
  filled round robin by \<open>add_work\<close>. Freed and uninitialised memory is tracked, so the
  error paths of \<open>create_pool\<close> are modelled as they run.
\<close>

section \<open>Data\<close>

text \<open>
  A work names the callback it waits on by its slot in the device's callback array, and
  the instance it was queued for. Its function is always \<open>wait_response\<close>.
\<close>

datatype work_func = Wait_response

record persistence_work =
  work_func :: work_func
  param :: "nat cptr"
  work_iid :: u32

record kthread_worker =
  work_list :: "persistence_work list"

text \<open>What \<open>kthread_run\<close> returns: a task, or an error code in pointer form.\<close>

datatype task = Task | ErrTask

text \<open>\<open>mainThread\<close> is never assigned.\<close>

record workers_pool =
  worker :: "kthread_worker cptr list cptr"
  workerThread :: "task cptr list cptr"
  mainThread :: "task cptr"
  current_worker :: nat
  num_workers :: nat

section \<open>Freeing a pool\<close>

definition kthread_stop :: "task cptr \<Rightarrow> cerror + unit" where
  "kthread_stop t = bindR (deref t) (\<lambda>k. case k of Task \<Rightarrow> Inr () | ErrTask \<Rightarrow> Inl BadPointer)"

text \<open>The loops of the two functions below, from index \<open>i\<close> on with \<open>k\<close> rounds left.\<close>

primrec stop_loop :: "nat \<Rightarrow> nat \<Rightarrow> task cptr list \<Rightarrow> cerror + unit" where
  "stop_loop 0 i ts = Inr ()"
| "stop_loop (Suc k) i ts =
     bindR (arr_get ts i) (\<lambda>t. bindR (nonnull t) (\<lambda>b.
       if b then bindR (kthread_stop t) (\<lambda>_. stop_loop k (Suc i) ts)
       else stop_loop k (Suc i) ts))"

primrec free_loop :: "nat \<Rightarrow> nat \<Rightarrow> 'a cptr list \<Rightarrow> cerror + 'a cptr list" where
  "free_loop 0 i ws = Inr ws"
| "free_loop (Suc k) i ws =
     bindR (arr_get ws i) (\<lambda>w. bindR (nonnull w) (\<lambda>b.
       if b then bindR (cfree w) (\<lambda>w'. bindR (arr_set ws i w') (free_loop k (Suc i)))
       else free_loop k (Suc i) ws))"

definition free_workers_threads :: "workers_pool \<Rightarrow> cerror + workers_pool" where
  "free_workers_threads pool =
     bindR (nonnull (workerThread pool)) (\<lambda>b.
       if b then
         bindR (deref (workerThread pool)) (\<lambda>ts.
         bindR (stop_loop (num_workers pool) 0 ts) (\<lambda>_.
         bindR (cfree (workerThread pool)) (\<lambda>f. Inr (pool\<lparr>workerThread := f\<rparr>))))
       else Inr pool)"

definition free_workers :: "workers_pool \<Rightarrow> cerror + workers_pool" where
  "free_workers pool =
     bindR (nonnull (worker pool)) (\<lambda>b.
       if b then
         bindR (deref (worker pool)) (\<lambda>ws.
         bindR (free_loop (num_workers pool) 0 ws) (\<lambda>_.
         bindR (cfree (worker pool)) (\<lambda>f. Inr (pool\<lparr>worker := f\<rparr>))))
       else Inr pool)"

definition free_pool :: "workers_pool cptr \<Rightarrow> cerror + workers_pool cptr" where
  "free_pool p =
     bindR (nonnull p) (\<lambda>b.
       if b then
         bindR (deref p) (\<lambda>pool.
         bindR (free_workers_threads pool) (\<lambda>pool1.
         bindR (free_workers pool1) (\<lambda>pool2. cfree (Live pool2))))
       else Inr p)"

text \<open>\<open>___pool_error_exit\<close>, which prints a message, frees the pool and returns NULL.\<close>

definition pool_error_exit :: "workers_pool cptr \<Rightarrow> cerror + workers_pool cptr" where
  "pool_error_exit p = bindR (free_pool p) (\<lambda>_. Inr Null)"

section \<open>Building a pool\<close>

primrec init_workers_loop ::
  "nat \<Rightarrow> nat \<Rightarrow> kthread_worker cptr list \<Rightarrow> kenv \<Rightarrow> int \<times> kthread_worker cptr list \<times> kenv" where
  "init_workers_loop 0 i ws e = (0, ws, e)"
| "init_workers_loop (Suc k) i ws e =
     (let (ok, e1) = next_alloc e
      in if \<not> ok then (2, ws[i := Null], e1)
         else init_workers_loop k (Suc i) (ws[i := Live \<lparr>work_list = []\<rparr>]) e1)"

definition init_workers :: "workers_pool \<Rightarrow> kenv \<Rightarrow> int \<times> workers_pool \<times> kenv" where
  "init_workers pool e =
     (let (ok, e1) = next_alloc e
      in if \<not> ok then (1, pool\<lparr>worker := Null\<rparr>, e1)
         else let (err, ws, e2) =
                init_workers_loop (num_workers pool) 0 (replicate (num_workers pool) Uninit) e1
              in (err, pool\<lparr>worker := Live ws\<rparr>, e2))"

primrec init_threads_loop ::
  "nat \<Rightarrow> nat \<Rightarrow> task cptr list \<Rightarrow> kenv \<Rightarrow> bool \<times> task cptr list \<times> kenv" where
  "init_threads_loop 0 i ts e = (True, ts, e)"
| "init_threads_loop (Suc k) i ts e =
     (let (ok, e1) = next_thread e
      in if \<not> ok then (False, ts[i := Live ErrTask], e1)
         else init_threads_loop k (Suc i) (ts[i := Live Task]) e1)"

text \<open>
  On a failure this function frees the pool itself and returns a non-zero code; the
  pointer its caller holds is the third component of the result.
\<close>

definition init_workers_threads ::
  "workers_pool \<Rightarrow> kenv \<Rightarrow> cerror + int \<times> workers_pool cptr \<times> kenv" where
  "init_workers_threads pool e =
     (let (ok, e1) = next_alloc e
      in if \<not> ok then
           bindR (free_pool (Live (pool\<lparr>workerThread := Null\<rparr>))) (\<lambda>p. Inr (1, p, e1))
         else
           let (started, ts, e2) =
             init_threads_loop (num_workers pool) 0 (replicate (num_workers pool) Uninit) e1;
             pool1 = pool\<lparr>workerThread := Live ts\<rparr>
           in if \<not> started then bindR (free_pool (Live pool1)) (\<lambda>p. Inr (2, p, e2))
              else Inr (0, Live pool1, e2))"

definition create_pool :: "nat \<Rightarrow> kenv \<Rightarrow> cerror + workers_pool cptr \<times> kenv" where
  "create_pool n e =
     (let (ok, e1) = next_alloc e
      in if \<not> ok then bindR (pool_error_exit Null) (\<lambda>p. Inr (p, e1))
         else
           let (err, pool, e2) = init_workers
             \<lparr>worker = Uninit, workerThread = Uninit, mainThread = Uninit, current_worker = 0, num_workers = n\<rparr> e1
           in if err \<noteq> 0 then bindR (pool_error_exit (Live pool)) (\<lambda>p. Inr (p, e2))
              else bindR (init_workers_threads pool e2) (\<lambda>(err', p, e3).
                     if err' \<noteq> 0 then bindR (pool_error_exit p) (\<lambda>q. Inr (q, e3))
                     else Inr (p, e3)))"

section \<open>Queueing works\<close>

text \<open>
  \<open>createPersistenceWork\<close>: the allocated work has its function set and its other fields
  not yet; \<open>junk\<close> is what the fresh memory holds at \<open>iid\<close>.
\<close>

definition createPersistenceWork :: "work_func \<Rightarrow> u32 \<Rightarrow> kenv \<Rightarrow> persistence_work option \<times> kenv" where
  "createPersistenceWork f junk e =
     (let (ok, e1) = next_alloc e
      in (if ok then Some \<lparr>work_func = f, param = Uninit, work_iid = junk\<rparr> else None, e1))"

definition add_work :: "workers_pool cptr \<Rightarrow> persistence_work \<Rightarrow> cerror + workers_pool cptr" where
  "add_work p w =
     bindR (nonnull p) (\<lambda>b.
       if \<not> b then Inr p
       else bindR (deref p) (\<lambda>pool.
            bindR (deref (worker pool)) (\<lambda>ws.
            bindR (arr_get ws (current_worker pool)) (\<lambda>k.
            bindR (nonnull k) (\<lambda>kb.
              if \<not> kb then Inr p
              else bindR (deref k) (\<lambda>wk.
                   bindR (arr_set ws (current_worker pool)
                            (Live (wk\<lparr>work_list := work_list wk @ [w]\<rparr>))) (\<lambda>ws'.
                   if num_workers pool = 0 then Inl DivByZero
                   else Inr (Live (pool\<lparr>worker := Live ws',
                      current_worker := (current_worker pool + 1) mod num_workers pool\<rparr>)))))))))"

text \<open>
  \<open>kthread_worker_fn\<close>, the loop the threads run, takes the works of its worker in the
  order they were queued.
\<close>

definition take_work :: "nat \<Rightarrow> workers_pool \<Rightarrow> (persistence_work \<times> workers_pool) option" where
  "take_work i pool =
     (case worker pool of
        Live ws \<Rightarrow>
          (if i < length ws then
             (case ws ! i of
                Live wk \<Rightarrow> (case work_list wk of
                    [] \<Rightarrow> None
                  | w # q \<Rightarrow> Some (w, pool\<lparr>worker := Live (ws[i := Live (wk\<lparr>work_list := q\<rparr>)])\<rparr>))
              | _ \<Rightarrow> None)
           else None)
      | _ \<Rightarrow> None)"

primrec add_works :: "workers_pool cptr \<Rightarrow> persistence_work list \<Rightarrow> cerror + workers_pool cptr" where
  "add_works p [] = Inr p"
| "add_works p (w # ws) = bindR (add_work p w) (\<lambda>p'. add_works p' ws)"

section \<open>Well-formed pools\<close>

definition fresh_pool :: "nat \<Rightarrow> workers_pool" where
  "fresh_pool n =
     \<lparr>worker = Live (replicate n (Live \<lparr>work_list = []\<rparr>)),
      workerThread = Live (replicate n (Live Task)), mainThread = Uninit, current_worker = 0, num_workers = n\<rparr>"

definition pool_of_queues :: "nat \<Rightarrow> persistence_work list list \<Rightarrow> workers_pool" where
  "pool_of_queues c qs =
     \<lparr>worker = Live (map (\<lambda>q. Live \<lparr>work_list = q\<rparr>) qs),
      workerThread = Live (replicate (length qs) (Live Task)),
      mainThread = Uninit, current_worker = c, num_workers = length qs\<rparr>"

text \<open>
  A pool in operation: every worker and thread exists, and the next worker is in range.
\<close>

definition pool_ok :: "workers_pool cptr \<Rightarrow> bool" where
  "pool_ok p \<longleftrightarrow> (\<exists>c qs. p = Live (pool_of_queues c qs) \<and> c < length qs)"

definition queues_of :: "workers_pool \<Rightarrow> persistence_work list list" where
  "queues_of pool = (case worker pool of
      Live ws \<Rightarrow> map (\<lambda>k. case k of Live wk \<Rightarrow> work_list wk | _ \<Rightarrow> []) ws | _ \<Rightarrow> [])"

definition pending_works :: "workers_pool cptr \<Rightarrow> persistence_work multiset" where
  "pending_works p = (case p of Live pool \<Rightarrow> (\<Sum>q\<leftarrow>queues_of pool. mset q) | _ \<Rightarrow> {#})"

lemma queues_of_pool [c_simps]: "queues_of (pool_of_queues c qs) = qs"
  by (simp add: queues_of_def pool_of_queues_def comp_def)

lemma fresh_pool_queues: "fresh_pool n = pool_of_queues 0 (replicate n [])"
  by (simp add: fresh_pool_def pool_of_queues_def)

lemma add_work_queues [c_simps]:
  assumes "c < length qs"
  shows "add_work (Live (pool_of_queues c qs)) w =
    Inr (Live (pool_of_queues ((c + 1) mod length qs) (qs[c := qs ! c @ [w]])))"
proof -
  from assms have "length qs \<noteq> 0" by linarith
  with assms show ?thesis
    by (simp add: add_work_def pool_of_queues_def c_simps map_update)
qed

lemma sum_list_mset_update:
  "c < length qs \<Longrightarrow> (\<Sum>q\<leftarrow>qs[c := qs ! c @ [w]]. mset q) = add_mset w (\<Sum>q\<leftarrow>qs. mset q)"
proof (induction qs arbitrary: c)
  case (Cons q qs)
  then show ?case by (cases c) auto
qed simp

lemma take_work_queues:
  "i < length qs \<Longrightarrow> qs ! i = w # q \<Longrightarrow>
   take_work i (pool_of_queues c qs) = Some (w, pool_of_queues c (qs[i := q]))"
  by (simp add: take_work_def pool_of_queues_def map_update)

section \<open>The interface the devices use\<close>

text \<open>
  What \<open>read_test_write\<close> relies on: a pool in operation accepts a work, stays in
  operation, and holds the work besides those it held.
\<close>

locale work_sink =
  fixes put :: "'p \<Rightarrow> 'w \<Rightarrow> cerror + 'p"
    and sink_ok :: "'p \<Rightarrow> bool"
    and held :: "'p \<Rightarrow> 'w multiset"
  assumes put_ok: "sink_ok p \<Longrightarrow> \<exists>p'. put p w = Inr p' \<and> sink_ok p' \<and> held p' = add_mset w (held p)"
begin

primrec put_all :: "'p \<Rightarrow> 'w list \<Rightarrow> cerror + 'p" where
  "put_all p [] = Inr p"
| "put_all p (w # ws) = bindR (put p w) (\<lambda>p'. put_all p' ws)"

lemma put_all_held:
  "sink_ok p \<Longrightarrow> \<exists>p'. put_all p ws = Inr p' \<and> sink_ok p' \<and> held p' = mset ws + held p"
proof (induction ws arbitrary: p)
  case (Cons w ws)
  from put_ok [OF Cons.prems, of w] obtain p1
    where "put p w = Inr p1" "sink_ok p1" "held p1 = add_mset w (held p)" by blast
  with Cons.IH [of p1] show ?case by auto
qed simp

end

text \<open>
  The other side of the queues: a worker takes a work that is held. Runs of the two
  interleave the handler that queues with the threads that take.
\<close>

datatype 'w pool_op = Queue 'w | Run nat

primrec pool_run ::
  "('p \<Rightarrow> 'w \<Rightarrow> cerror + 'p) \<Rightarrow> (nat \<Rightarrow> 'p \<Rightarrow> ('w \<times> 'p) option) \<Rightarrow> 'w pool_op list \<Rightarrow> 'p
   \<Rightarrow> cerror + 'w list \<times> 'w list \<times> 'p" where
  "pool_run put fetch [] p = Inr ([], [], p)"
| "pool_run put fetch (x # xs) p =
     (case x of
        Queue w \<Rightarrow> bindR (put p w) (\<lambda>p1.
          bindR (pool_run put fetch xs p1) (\<lambda>(qs, ts, p2). Inr (w # qs, ts, p2)))
      | Run i \<Rightarrow> (case fetch i p of
          None \<Rightarrow> pool_run put fetch xs p
        | Some (w, p1) \<Rightarrow> bindR (pool_run put fetch xs p1) (\<lambda>(qs, ts, p2). Inr (qs, w # ts, p2))))"

locale work_queue = work_sink put sink_ok held
  for put :: "'p \<Rightarrow> 'w \<Rightarrow> cerror + 'p" and sink_ok :: "'p \<Rightarrow> bool" and held :: "'p \<Rightarrow> 'w multiset" +
  fixes fetch :: "nat \<Rightarrow> 'p \<Rightarrow> ('w \<times> 'p) option"
  assumes fetch_ok: "sink_ok p \<Longrightarrow> fetch i p = Some (w, p') \<Longrightarrow> sink_ok p' \<and> held p = add_mset w (held p')"
begin

lemma run_conserves:
  assumes "sink_ok p"
  shows "\<exists>qs ts p'. pool_run put fetch xs p = Inr (qs, ts, p') \<and> sink_ok p'
    \<and> held p + mset qs = mset ts + held p'"
  using assms
proof (induction xs arbitrary: p)
  case (Cons x xs)
  show ?case
  proof (cases x)
    case (Queue w)
    from put_ok [OF Cons.prems, of w] obtain p1
      where p1: "put p w = Inr p1" "sink_ok p1" "held p1 = add_mset w (held p)" by blast
    with Cons.IH [OF p1(2)] Queue show ?thesis by fastforce
  next
    case (Run i)
    show ?thesis
    proof (cases "fetch i p")
      case None
      with Run Cons.IH [OF Cons.prems] show ?thesis by simp
    next
      case (Some r)
      obtain w p1 where r: "r = (w, p1)" by (cases r)
      with fetch_ok [OF Cons.prems] Some have p1: "sink_ok p1" "held p = add_mset w (held p1)" by blast+
      with Cons.IH [OF p1(1)] Run Some r show ?thesis by fastforce
    qed
  qed
qed simp

end

text \<open>Taking from a pool that is held by a pointer.\<close>

definition take_from :: "nat \<Rightarrow> workers_pool cptr \<Rightarrow> (persistence_work \<times> workers_pool cptr) option" where
  "take_from i p = (case p of
      Live pool \<Rightarrow> map_option (\<lambda>(w, pool'). (w, Live pool')) (take_work i pool) | _ \<Rightarrow> None)"

lemma sum_list_mset_take:
  "i < length qs \<Longrightarrow> qs ! i = w # q \<Longrightarrow> (\<Sum>q\<leftarrow>qs. mset q) = add_mset w (\<Sum>q\<leftarrow>qs[i := q]. mset q)"
proof (induction qs arbitrary: i)
  case (Cons r qs)
  then show ?case by (cases i) auto
qed simp

lemma take_from_queues:
  assumes "take_from i (Live (pool_of_queues c qs)) = Some (w, p')"
  obtains q where "i < length qs" and "qs ! i = w # q" and "p' = Live (pool_of_queues c (qs[i := q]))"
proof -
  from assms have i: "i < length qs" "qs ! i \<noteq> []"
    by (auto simp: take_from_def take_work_def pool_of_queues_def split: if_splits list.splits)
  then obtain v q where v: "qs ! i = v # q" by (cases "qs ! i") auto
  from assms i v that show ?thesis by (simp add: take_from_def take_work_queues)
qed

interpretation pool_sink: work_sink add_work pool_ok pending_works
proof unfold_locales
  fix p w assume "pool_ok p"
  then obtain c qs where p: "p = Live (pool_of_queues c qs)" and c: "c < length qs"
    unfolding pool_ok_def by blast
  let ?p' = "Live (pool_of_queues ((c + 1) mod length qs) (qs[c := qs ! c @ [w]]))"
  from c have "(c + 1) mod length qs < length qs" by (intro mod_less_divisor) linarith
  then have "pool_ok ?p'" unfolding pool_ok_def by force
  with c show "\<exists>p'. add_work p w = Inr p' \<and> pool_ok p' \<and> pending_works p' = add_mset w (pending_works p)"
    by (simp add: p add_work_queues pending_works_def queues_of_pool sum_list_mset_update)
qed

interpretation pool_queue: work_queue add_work pool_ok pending_works take_from
proof unfold_locales
  fix p i w p' assume "pool_ok p" and t: "take_from i p = Some (w, p')"
  then obtain c qs where p: "p = Live (pool_of_queues c qs)" and c: "c < length qs"
    unfolding pool_ok_def by blast
  from t [unfolded p] obtain q where q: "i < length qs" "qs ! i = w # q"
    "p' = Live (pool_of_queues c (qs[i := q]))" by (rule take_from_queues)
  with c have "pool_ok p'" unfolding pool_ok_def by force
  with q show "pool_ok p' \<and> pending_works p = add_mset w (pending_works p')"
    by (simp add: p pending_works_def queues_of_pool sum_list_mset_take)
qed

lemma sum_list_empty_mset: "(\<Sum>q\<leftarrow>qs. mset q) = {#} \<longleftrightarrow> (\<forall>q \<in> set qs. q = [])"
  by (induction qs) auto

text \<open>While works are queued, some worker can take one.\<close>

lemma work_available:
  assumes "pool_ok p" and "pending_works p \<noteq> {#}"
  shows "\<exists>i w q. take_from i p = Some (w, q)"
proof -
  from assms(1) obtain c qs where p: "p = Live (pool_of_queues c qs)" unfolding pool_ok_def by blast
  with assms(2) have "(\<Sum>q\<leftarrow>qs. mset q) \<noteq> {#}" by (simp add: pending_works_def queues_of_pool)
  then obtain q where "q \<in> set qs" "q \<noteq> []" by (auto simp: sum_list_empty_mset)
  then obtain i where "i < length qs" "qs ! i \<noteq> []" by (auto simp: in_set_conv_nth)
  moreover from this(2) obtain w q' where "qs ! i = w # q'" by (cases "qs ! i") simp_all
  ultimately have "take_from i p = Some (w, Live (pool_of_queues c (qs[i := q'])))"
    by (simp add: p take_from_def take_work_queues)
  then show ?thesis by blast
qed

lemma add_works_sink: "add_works p ws = pool_sink.put_all p ws"
  by (induction ws arbitrary: p) (auto intro: bindR_cong)

section \<open>Building: success and failure\<close>

lemma init_workers_loop_ok:
  assumes "\<forall>b \<in> set (take k (allocs e)). b" and "i + k = n"
    and "ws = replicate i (Live \<lparr>work_list = []\<rparr>) @ replicate (n - i) Uninit"
  shows "init_workers_loop k i ws e =
    (0, replicate n (Live \<lparr>work_list = []\<rparr>), e\<lparr>allocs := drop k (allocs e)\<rparr>)"
  using assms
proof (induction k arbitrary: i ws e)
  case (Suc k)
  from Suc.prems have n: "next_alloc e = (True, e\<lparr>allocs := drop 1 (allocs e)\<rparr>)"
    by (cases "allocs e") (auto simp: next_alloc_def)
  show ?case
    using Suc.prems fill_step [OF Suc.prems(3)]
    by (subst init_workers_loop.simps, simp add: n, subst Suc.IH)
       (cases "allocs e"; auto)+
qed simp

lemma init_threads_loop_ok:
  assumes "\<forall>b \<in> set (take k (threads e)). b" and "i + k = n"
    and "ts = replicate i (Live Task) @ replicate (n - i) Uninit"
  shows "init_threads_loop k i ts e =
    (True, replicate n (Live Task), e\<lparr>threads := drop k (threads e)\<rparr>)"
  using assms
proof (induction k arbitrary: i ts e)
  case (Suc k)
  from Suc.prems have n: "next_thread e = (True, e\<lparr>threads := drop 1 (threads e)\<rparr>)"
    by (cases "threads e") (auto simp: next_thread_def)
  show ?case
    using Suc.prems fill_step [OF Suc.prems(3)]
    by (subst init_threads_loop.simps, simp add: n, subst Suc.IH)
       (cases "threads e"; auto)+
qed simp

lemma init_workers_loop_fails:
  "\<exists>b \<in> set (take k (allocs e)). \<not> b \<Longrightarrow> fst (init_workers_loop k i ws e) = 2"
proof (induction k arbitrary: i ws e)
  case (Suc k)
  then obtain b bs where a: "allocs e = b # bs" by (cases "allocs e") auto
  show ?case
  proof (cases b)
    case True
    with a Suc.prems have "\<exists>b \<in> set (take k (allocs (e\<lparr>allocs := bs\<rparr>))). \<not> b" by auto
    then have "fst (init_workers_loop k (Suc i) (ws[i := Live \<lparr>work_list = []\<rparr>]) (e\<lparr>allocs := bs\<rparr>)) = 2"
      by (rule Suc.IH)
    with a True show ?thesis by (simp add: next_alloc_run)
  next
    case False
    with a show ?thesis by (simp add: next_alloc_run)
  qed
qed simp

lemma stop_loop_bad:
  assumes "j < length ts" and "ts ! j = Live ErrTask" and "\<forall>l. i \<le> l \<and> l < j \<longrightarrow> ts ! l = Live Task"
    and "i \<le> j" and "j < i + k"
  shows "stop_loop k i ts = Inl BadPointer"
  using assms
proof (induction k arbitrary: i)
  case (Suc k)
  then show ?case by (cases "i = j") (auto simp: c_simps kthread_stop_def)
qed simp

lemma stop_loop_ok:
  "i + k \<le> length ts \<Longrightarrow> \<forall>l < length ts. ts ! l = Live Task \<Longrightarrow> stop_loop k i ts = Inr ()"
  by (induction k arbitrary: i) (auto simp: c_simps kthread_stop_def)

lemma free_loop_ok:
  "i + k \<le> length ws \<Longrightarrow> \<forall>l < length ws. i \<le> l \<longrightarrow> (\<exists>w. ws ! l = Live w) \<Longrightarrow>
   \<exists>ws'. free_loop k i ws = Inr ws'"
proof (induction k arbitrary: i ws)
  case (Suc k)
  then obtain w where w: "ws ! i = Live w" by fastforce
  have "\<exists>ws'. free_loop k (Suc i) (ws[i := Dangling]) = Inr ws'"
    using Suc.prems by (intro Suc.IH) auto
  with w Suc.prems(1) show ?case by (simp add: c_simps)
qed simp

lemma init_threads_loop_fails:
  assumes "\<exists>b \<in> set (take k (threads e)). \<not> b" and "i + k \<le> length ts"
    and "\<forall>l < i. ts ! l = Live Task"
  shows "\<exists>ts' e'. init_threads_loop k i ts e = (False, ts', e') \<and> length ts' = length ts
    \<and> (\<exists>j < i + k. ts' ! j = Live ErrTask \<and> (\<forall>l < j. ts' ! l = Live Task))"
  using assms
proof (induction k arbitrary: i ts e)
  case (Suc k)
  then obtain b bs where a: "threads e = b # bs" by (cases "threads e") auto
  show ?case
  proof (cases b)
    case True
    with a have n: "next_thread e = (True, e\<lparr>threads := bs\<rparr>)" by (simp add: next_thread_def)
    from a True Suc.prems have "\<exists>ts' e'. init_threads_loop k (Suc i) (ts[i := Live Task]) (e\<lparr>threads := bs\<rparr>)
        = (False, ts', e') \<and> length ts' = length (ts[i := Live Task])
      \<and> (\<exists>j < Suc i + k. ts' ! j = Live ErrTask \<and> (\<forall>l < j. ts' ! l = Live Task))"
      by (intro Suc.IH) (auto simp: less_Suc_eq)
    with n show ?thesis by auto
  next
    case False
    with a have n: "next_thread e = (False, e\<lparr>threads := bs\<rparr>)" by (simp add: next_thread_def)
    from Suc.prems have "ts[i := Live ErrTask] ! i = Live ErrTask
        \<and> (\<forall>l < i. ts[i := Live ErrTask] ! l = Live Task)" by simp
    with n show ?thesis by (force intro: exI [of _ i])
  qed
qed simp

lemma init_workers_thread_field:
  "workerThread (fst (snd (init_workers pool e))) = workerThread pool"
  by (simp add: init_workers_def split: prod.splits)

lemma pool_error_exit_uninit:
  "workerThread pool = Uninit \<Longrightarrow> pool_error_exit (Live pool) = Inl UninitRead"
  by (simp add: pool_error_exit_def free_pool_def free_workers_threads_def)

lemma pool_error_exit_dangling: "pool_error_exit Dangling = Inl UseAfterFree"
  by (simp add: pool_error_exit_def free_pool_def)

lemma init_workers_fails:
  assumes "\<exists>b \<in> set (take (Suc (num_workers pool)) (allocs e)). \<not> b"
  shows "fst (init_workers pool e) \<noteq> 0"
proof -
  from assms obtain b bs where a: "allocs e = b # bs" by (cases "allocs e") auto
  show ?thesis
  proof (cases b)
    case True
    with assms a have "\<exists>b \<in> set (take (num_workers pool) (allocs (e\<lparr>allocs := bs\<rparr>))). \<not> b" by auto
    from init_workers_loop_fails [OF this] a True show ?thesis
      by (simp add: init_workers_def next_alloc_run case_prod_beta Let_def)
  next
    case False
    with a show ?thesis by (simp add: init_workers_def next_alloc_run)
  qed
qed

lemma init_workers_ok:
  assumes "\<forall>b \<in> set (take (Suc (num_workers pool)) (allocs e)). b"
  shows "init_workers pool e =
    (0, pool\<lparr>worker := Live (replicate (num_workers pool) (Live \<lparr>work_list = []\<rparr>))\<rparr>,
     e\<lparr>allocs := drop (Suc (num_workers pool)) (allocs e)\<rparr>)"
proof -
  let ?n = "num_workers pool" and ?e1 = "e\<lparr>allocs := drop (Suc 0) (allocs e)\<rparr>"
  note split = iffD1 [OF all_take_Suc assms]
  from split have f: "\<forall>b \<in> set (take (Suc 0) (allocs e)). b" by (rule conjunct1)
  have "allocs ?e1 = drop (Suc 0) (allocs e)" by simp
  with split have r: "\<forall>b \<in> set (take ?n (allocs ?e1)). b" by metis
  from f have "next_alloc e = (True, ?e1)" by (rule next_alloc_true)
  moreover from r have "init_workers_loop ?n 0 (replicate ?n Uninit) ?e1 =
      (0, replicate ?n (Live \<lparr>work_list = []\<rparr>), ?e1\<lparr>allocs := drop ?n (allocs ?e1)\<rparr>)"
    by (rule init_workers_loop_ok) simp_all
  ultimately show ?thesis by (simp add: init_workers_def)
qed

lemma free_pool_threads_freed:
  "workerThread pool = Null \<Longrightarrow> worker pool = Live (replicate (num_workers pool) (Live k)) \<Longrightarrow>
   free_pool (Live pool) = Inr Dangling"
  using free_loop_ok [of 0 "num_workers pool" "replicate (num_workers pool) (Live k)"]
  by (auto simp: free_pool_def free_workers_threads_def free_workers_def)

lemma free_pool_bad_thread:
  assumes "workerThread pool = Live ts" and "ts ! j = Live ErrTask" and "\<forall>l < j. ts ! l = Live Task"
    and "j < num_workers pool" and "length ts = num_workers pool"
  shows "free_pool (Live pool) = Inl BadPointer"
  using assms stop_loop_bad [of j ts 0 "num_workers pool"]
  by (simp add: free_pool_def free_workers_threads_def)

lemma free_pool_queues:
  assumes "c < length qs" shows "free_pool (Live (pool_of_queues c qs)) = Inr Dangling"
proof -
  let ?ws = "map (\<lambda>q. Live \<lparr>work_list = q\<rparr>) qs"
  have "\<exists>ws'. free_loop (length qs) 0 ?ws = Inr ws'" by (rule free_loop_ok) auto
  moreover have "stop_loop (length qs) 0 (replicate (length qs) (Live Task)) = Inr ()"
    by (rule stop_loop_ok) auto
  ultimately show ?thesis
    by (auto simp: free_pool_def free_workers_threads_def free_workers_def pool_of_queues_def)
qed

lemma take_drop_Suc_0: "take 1 (drop k xs) = (if k < length xs then [xs ! k] else [])"
  by (simp add: take_Suc_conv_app_nth Cons_nth_drop_Suc [symmetric])

lemma init_threads_fails_bad:
  assumes "\<exists>b \<in> set (take (num_workers pool) (threads e)). \<not> b" and "fst (next_alloc e)"
  shows "init_workers_threads pool e = Inl BadPointer"
proof -
  let ?e1 = "snd (next_alloc e)"
  from assms(1) have "\<exists>b \<in> set (take (num_workers pool) (threads ?e1)). \<not> b"
    by (simp add: next_alloc_def split: list.splits)
  from init_threads_loop_fails [OF this, of 0 "replicate (num_workers pool) Uninit"]
  obtain ts' e' j where l: "init_threads_loop (num_workers pool) 0 (replicate (num_workers pool) Uninit) ?e1
      = (False, ts', e')" and "length ts' = num_workers pool" and "j < num_workers pool"
    and "ts' ! j = Live ErrTask" "\<forall>l < j. ts' ! l = Live Task" by auto
  then have "free_pool (Live (pool\<lparr>workerThread := Live ts'\<rparr>)) = Inl BadPointer"
    by (intro free_pool_bad_thread) auto
  with l assms(2) show ?thesis by (simp add: init_workers_threads_def case_prod_beta Let_def)
qed

section \<open>Properties\<close>

definition all_ok :: "nat \<Rightarrow> bool list \<Rightarrow> bool" where
  "all_ok k bs \<longleftrightarrow> (\<forall>b \<in> set (take k bs). b)"

lemma create_pool_fine:
  assumes "all_ok 1 (allocs e)" and "all_ok (Suc n) (drop 1 (allocs e))" and "all_ok 1 (drop (n + 2) (allocs e))"
    and "all_ok n (threads e)"
  shows "create_pool n e = Inr (Live (fresh_pool n), e\<lparr>allocs := drop (n + 3) (allocs e), threads := drop n (threads e)\<rparr>)"
proof -
  let ?pool = "\<lparr>worker = Uninit, workerThread = Uninit, mainThread = Uninit, current_worker = 0, num_workers = n\<rparr>"
  let ?pool' = "?pool\<lparr>worker := Live (replicate n (Live \<lparr>work_list = []\<rparr>))\<rparr>"
  let ?e1 = "e\<lparr>allocs := drop 1 (allocs e)\<rparr>" and ?e2 = "e\<lparr>allocs := drop (n + 2) (allocs e)\<rparr>"
  have a: "next_alloc e = (True, ?e1)" using assms(1) by (simp add: all_ok_def next_alloc_true)
  have i: "init_workers ?pool ?e1 = (0, ?pool', ?e2)"
    using assms(2) by (subst init_workers_ok) (auto simp: all_ok_def)
  have b: "next_alloc ?e2 = (True, ?e2\<lparr>allocs := drop 1 (allocs ?e2)\<rparr>)"
    using assms(3) by (simp add: all_ok_def next_alloc_true)
  have "init_threads_loop n 0 (replicate n Uninit) (?e2\<lparr>allocs := drop 1 (allocs ?e2)\<rparr>) =
      (True, replicate n (Live Task), ?e2\<lparr>allocs := drop 1 (allocs ?e2), threads := drop n (threads e)\<rparr>)"
    using assms(4) by (subst init_threads_loop_ok [where n = n]) (simp_all add: all_ok_def)
  with a i b show ?thesis
    by (simp add: create_pool_def init_workers_threads_def fresh_pool_def numeral_3_eq_3)
qed

text \<open>The same when every allocation is granted and every thread starts.\<close>

definition thread_all :: "kenv \<Rightarrow> bool" where
  "thread_all e \<longleftrightarrow> (\<forall>b \<in> set (threads e). b)"

lemma create_pool_all:
  assumes "alloc_all e" and "thread_all e"
  shows "\<exists>e'. create_pool n e = Inr (Live (fresh_pool n), e') \<and> alloc_all e' \<and> thread_all e' \<and> calls e' = calls e"
proof -
  have d: "all_ok k (drop m (allocs e))" "all_ok k (drop m (threads e))" for k m
    using assms by (auto simp: all_ok_def alloc_all_def thread_all_def dest: in_set_takeD in_set_dropD)
  from d(1) [of _ 0] d(2) [of _ 0] have "all_ok k (allocs e)" "all_ok k (threads e)" for k by simp_all
  from create_pool_fine [OF this(1) d(1) d(1) this(2)] assms show ?thesis by (auto simp: alloc_all_def thread_all_def dest: in_set_dropD)
qed

text \<open>The allocation of the pool, of its workers and of the array of its threads, as \<open>create_pool\<close> uses them.\<close>

lemma create_pool_workers:
  assumes "all_ok 1 (allocs e)" and "\<not> all_ok (Suc n) (drop 1 (allocs e))"
  shows "create_pool n e = Inl UninitRead"
proof -
  let ?pool = "\<lparr>worker = Uninit, workerThread = Uninit, mainThread = Uninit, current_worker = 0, num_workers = n\<rparr>"
  let ?e1 = "e\<lparr>allocs := drop 1 (allocs e)\<rparr>"
  have a: "next_alloc e = (True, ?e1)" using assms(1) by (simp add: all_ok_def next_alloc_true)
  have "fst (init_workers ?pool ?e1) \<noteq> 0" using assms(2) by (intro init_workers_fails) (auto simp: all_ok_def)
  with a show ?thesis
    by (simp add: create_pool_def case_prod_beta Let_def init_workers_thread_field pool_error_exit_uninit)
qed

lemma create_pool_begins:
  assumes "all_ok 1 (allocs e)" and "all_ok (Suc n) (drop 1 (allocs e))"
  shows "next_alloc e = (True, e\<lparr>allocs := drop 1 (allocs e)\<rparr>)"
    and "init_workers \<lparr>worker = Uninit, workerThread = Uninit, mainThread = Uninit, current_worker = 0, num_workers = n\<rparr>
        (e\<lparr>allocs := drop 1 (allocs e)\<rparr>) =
      (0, \<lparr>worker = Live (replicate n (Live \<lparr>work_list = []\<rparr>)), workerThread = Uninit, mainThread = Uninit, current_worker = 0,
        num_workers = n\<rparr>, e\<lparr>allocs := drop (n + 2) (allocs e)\<rparr>)"
proof -
  show "next_alloc e = (True, e\<lparr>allocs := drop 1 (allocs e)\<rparr>)"
    using assms(1) by (simp add: all_ok_def next_alloc_true)
  show "init_workers \<lparr>worker = Uninit, workerThread = Uninit, mainThread = Uninit, current_worker = 0, num_workers = n\<rparr>
        (e\<lparr>allocs := drop 1 (allocs e)\<rparr>) =
      (0, \<lparr>worker = Live (replicate n (Live \<lparr>work_list = []\<rparr>)), workerThread = Uninit, mainThread = Uninit, current_worker = 0,
        num_workers = n\<rparr>, e\<lparr>allocs := drop (n + 2) (allocs e)\<rparr>)"
    using assms(2) by (subst init_workers_ok) (auto simp: all_ok_def)
qed

lemma create_pool_array:
  assumes "all_ok 1 (allocs e)" and "all_ok (Suc n) (drop 1 (allocs e))" and "\<not> all_ok 1 (drop (n + 2) (allocs e))"
  shows "create_pool n e = Inl UseAfterFree"
proof -
  let ?pool = "\<lparr>worker = Live (replicate n (Live \<lparr>work_list = []\<rparr>)), workerThread = Uninit, mainThread = Uninit, current_worker = 0,
    num_workers = n\<rparr>"
  have "\<not> fst (next_alloc (e\<lparr>allocs := drop (n + 2) (allocs e)\<rparr>))"
    using assms(3) by (cases "drop (n + 2) (allocs e)") (auto simp: all_ok_def next_alloc_def)
  moreover have "free_pool (Live (?pool\<lparr>workerThread := Null\<rparr>)) = Inr Dangling"
    by (rule free_pool_threads_freed [where k = "\<lparr>work_list = []\<rparr>"]) simp_all
  ultimately show ?thesis using create_pool_begins [OF assms(1,2)]
    by (simp add: create_pool_def case_prod_beta Let_def init_workers_threads_def pool_error_exit_dangling)
qed

lemma create_pool_thread:
  assumes "all_ok 1 (allocs e)" and "all_ok (Suc n) (drop 1 (allocs e))" and "all_ok 1 (drop (n + 2) (allocs e))"
    and "\<not> all_ok n (threads e)"
  shows "create_pool n e = Inl BadPointer"
proof -
  have "fst (next_alloc (e\<lparr>allocs := drop (n + 2) (allocs e)\<rparr>))"
    using assms(3) by (simp add: all_ok_def next_alloc_true)
  then have "init_workers_threads \<lparr>worker = Live (replicate n (Live \<lparr>work_list = []\<rparr>)), workerThread = Uninit,
      mainThread = Uninit, current_worker = 0, num_workers = n\<rparr> (e\<lparr>allocs := drop (n + 2) (allocs e)\<rparr>) = Inl BadPointer"
    using assms(4) by (intro init_threads_fails_bad) (auto simp: all_ok_def)
  with create_pool_begins [OF assms(1,2)] show ?thesis by (simp add: create_pool_def)
qed

lemma create_pool_null:
  assumes "\<not> all_ok 1 (allocs e)"
  shows "map_sum id fst (create_pool n e) = Inr Null"
proof -
  from assms obtain bs where "allocs e = False # bs" by (cases "allocs e") (auto simp: all_ok_def)
  then show ?thesis by (simp add: create_pool_def next_alloc_run pool_error_exit_def free_pool_def)
qed

text \<open>C21. \<open>create_pool\<close>, on every outcome of the kernel's allocations: it returns NULL when
  the very first allocation fails, the pool with \<open>n\<close> workers, \<open>n\<close> running threads and empty
  queues when everything succeeds, and runs into undefined behaviour in every other case:
  the error path reads the uninitialised thread array when the worker array or a worker
  cannot be allocated, frees the pool twice when the thread array cannot be allocated, and
  stops an error code when a thread cannot be started.\<close>

theorem create_pool_outcome:
  "map_sum id fst (create_pool n e) =
    (if \<not> all_ok 1 (allocs e) then Inr Null
     else if \<not> all_ok (Suc n) (drop 1 (allocs e)) then Inl UninitRead
     else if \<not> all_ok 1 (drop (n + 2) (allocs e)) then Inl UseAfterFree
     else if \<not> all_ok n (threads e) then Inl BadPointer
     else Inr (Live (fresh_pool n)))"
  using create_pool_null [of e n] create_pool_workers [of e n] create_pool_array [of e n]
    create_pool_thread [of e n] create_pool_fine [of e n] by simp

definition round_robin :: "nat \<Rightarrow> persistence_work list \<Rightarrow> persistence_work list list" where
  "round_robin n ws =
     map (\<lambda>i. map ((!) ws) (filter (\<lambda>j. j mod n = i) [0..<length ws])) [0..<n]"

lemma length_round_robin [simp]: "length (round_robin n ws) = n"
  by (simp add: round_robin_def)

lemma round_robin_snoc:
  assumes "0 < n" and "c = length ws mod n"
  shows "round_robin n (ws @ [w]) = (round_robin n ws)[c := round_robin n ws ! c @ [w]]"
proof (rule nth_equalityI)
  fix i assume "i < length (round_robin n (ws @ [w]))"
  then have i: "i < n" by (simp add: round_robin_def)
  have "map ((!) (ws @ [w])) (filter (\<lambda>j. j mod n = i) [0..<length ws])
      = map ((!) ws) (filter (\<lambda>j. j mod n = i) [0..<length ws])"
    by (auto simp: nth_append)
  with i assms show "round_robin n (ws @ [w]) ! i = (round_robin n ws)[c := round_robin n ws ! c @ [w]] ! i"
    by (auto simp: round_robin_def nth_list_update)
qed (simp add: round_robin_def)

lemma add_works_snoc: "add_works p (ws @ [w]) = bindR (add_works p ws) (\<lambda>p'. add_work p' w)"
proof (induction ws arbitrary: p)
  case Nil
  show ?case by (cases "add_work p w") auto
next
  case (Cons v ws)
  then show ?case by (cases "add_work p v") auto
qed

text \<open>Round robin: after any list of works is queued on a fresh pool of \<open>n > 0\<close> workers,
  nothing is lost and worker \<open>i\<close> holds exactly the works whose position in the list is
  \<open>i\<close> modulo \<open>n\<close>, in the order they were queued.\<close>

lemma add_works_round_robin:
  assumes "0 < n"
  shows "add_works (Live (fresh_pool n)) ws =
    Inr (Live (pool_of_queues (length ws mod n) (round_robin n ws)))"
proof (induction ws rule: rev_induct)
  case Nil
  show ?case by (simp add: fresh_pool_queues round_robin_def map_replicate_const)
next
  case (snoc w ws)
  have "length ws mod n < length (round_robin n ws)" using assms by (simp add: round_robin_def)
  then show ?case
    using assms by (simp add: add_works_snoc snoc.IH add_work_queues round_robin_snoc mod_Suc_eq)
qed

definition work_on :: "nat \<Rightarrow> u32 \<Rightarrow> persistence_work" where
  "work_on slot i = \<lparr>work_func = Wait_response, param = Live slot, work_iid = i\<rparr>"

text \<open>C15. No work is lost, run twice or invented: any interleaving of the handlers that queue
  works and of worker threads that take them, from a pool in operation, runs without a bad
  access, keeps the pool in operation, and the works held before together with those queued
  are exactly those taken together with those still held.\<close>

theorem pool_conserves_works:
  assumes "pool_ok p"
  shows "\<exists>qs ts p'. pool_run add_work take_from xs p = Inr (qs, ts, p') \<and> pool_ok p'
    \<and> pending_works p + mset qs = mset ts + pending_works p'"
  using assms by (rule pool_queue.run_conserves)

lemma fresh_pool_ok: "0 < n \<Longrightarrow> pool_ok (Live (fresh_pool n))"
  unfolding pool_ok_def by (force simp: fresh_pool_queues)

lemma fresh_pool_pending: "pending_works (Live (fresh_pool n)) = {#}"
  unfolding pending_works_def fresh_pool_queues by (induction n) (simp_all add: queues_of_pool)

theorem pool_conserves_works_witness:
  "\<exists>qs ts p'. pool_run add_work take_from [Queue (work_on 0 7), Run 0, Run 3, Queue (work_on 1 8)]
      (Live (fresh_pool 10)) = Inr (qs, ts, p') \<and> mset qs = mset ts + pending_works p'"
proof -
  have "pool_ok (Live (fresh_pool 10))" by (simp add: fresh_pool_ok)
  from pool_conserves_works [OF this, of "[Queue (work_on 0 7), Run 0, Run 3, Queue (work_on 1 8)]"]
  show ?thesis unfolding fresh_pool_pending add_0 by blast
qed

text \<open>\<open>free_pool\<close> on a pool in operation stops every thread and frees every worker
  without touching freed or uninitialised memory, whatever works are still queued.\<close>

lemma free_pool_in_operation:
  assumes "pool_ok p" shows "free_pool p = Inr Dangling"
  using assms by (auto simp: pool_ok_def free_pool_queues)

end
