(* ===== verification/Kernel_Device.thy ===== *)
theory Kernel_Device
  imports Paxos_Types Workers_Pool
begin

text \<open>
  \<open>kpaxos/kernel_device.c\<close> and the state of a device (\<open>kernel_device.h\<close>, \<open>paxos.h\<close>):
  the names a device registers under, its registration with the kernel and the error
  paths of that, the allocation of the message ring and of the callbacks, and the
  release of all of it.
\<close>

section \<open>State\<close>

text \<open>
  A callback: the response object it owns, the slot it was last used for, and the flags
  read by the waiting worker. \<open>response_wait\<close> counts the wake-ups posted to its queue.
\<close>

record kernel_device_callback =
  response_wait :: nat
  response :: "accepted_obj cptr"
  buffer_id :: nat
  is_done :: u32
  cb_iid :: u32

text \<open>The table of handlers a device is registered with.\<close>

datatype file_operations =
    Write_test_fops | Read_test_fops | Write_persistence_fops | Read_persistence_fops

text \<open>
  \<open>access_wait\<close> counts the wake-ups posted to the device's queue; the mutex is its locked
  state. Every pointer of the two arrays owns its object; a callback is referred to by
  its index in \<open>callback_buf\<close>, whose pointers never change after initialisation.
\<close>

record paxos_kernel_device =
  char_mutex :: bool
  charClass :: u64
  charDevice :: u64
  access_wait :: nat
  de_name :: "char list cptr"
  clas_name :: "char list cptr"
  majorNumber :: int
  working :: int
  current_buf :: nat
  first_buf :: nat
  msg_buf :: "byte list cptr list cptr"
  callback_buf :: "kernel_device_callback cptr list cptr"
  used_buf :: u32
  pool :: "workers_pool cptr"
  fops :: "file_operations option"

definition BUFFER_SIZE :: nat where
  "BUFFER_SIZE = 1000"

text \<open>The devices are static variables, hence zero at module load.\<close>

definition zero_device :: paxos_kernel_device where
  "zero_device =
     \<lparr>char_mutex = False, charClass = 0, charDevice = 0, access_wait = 0,
      de_name = Null, clas_name = Null, majorNumber = 0, working = 0,
      current_buf = 0, first_buf = 0, msg_buf = Null, callback_buf = Null,
      used_buf = 0, pool = Null, fops = None\<rparr>"

section \<open>Names\<close>

definition NUL :: char where
  "NUL = CHR 0x00"

text \<open>The \<open>char\<close> that \<open>id + '0'\<close> is.\<close>

definition id_char :: "nat \<Rightarrow> char" where
  "id_char devid = char_of (devid + 48)"

text \<open>The names the code means to build: the path below \<open>/dev\<close> and the class name.\<close>

definition dev_path :: "char list \<Rightarrow> nat \<Rightarrow> char list" where
  "dev_path name devid = ''paxos/'' @ name @ [id_char devid]"

definition dev_class :: "char list \<Rightarrow> nat \<Rightarrow> char list" where
  "dev_class name devid = name @ [id_char devid]"

text \<open>\<open>strcat\<close> on a block: it writes at the first NUL of the destination.\<close>

definition strcat :: "char list \<Rightarrow> char list \<Rightarrow> cerror + char list" where
  "strcat dest s =
     (if NUL \<in> set dest then mem_put (length (takeWhile (\<lambda>c. c \<noteq> NUL) dest)) (s @ [NUL]) dest
      else Inl OutOfBounds)"

text \<open>The string that a block holds for C: up to its first NUL.\<close>

definition c_string :: "char list \<Rightarrow> char list" where
  "c_string m = takeWhile (\<lambda>c. c \<noteq> NUL) m"

text \<open>\<open>kmalloc\<close> of \<open>n\<close> bytes, whose contents are whatever the memory held (\<open>junk\<close>).\<close>

definition pmalloc :: "(nat \<Rightarrow> 'a) \<Rightarrow> nat \<Rightarrow> kenv \<Rightarrow> 'a list cptr \<times> kenv" where
  "pmalloc junk n e =
     (let (ok, e1) = next_alloc e in (if ok then Live (map junk [0..<n]) else Null, e1))"

definition allocate_name ::
  "(nat \<Rightarrow> char) \<Rightarrow> char list \<Rightarrow> nat \<Rightarrow> kenv \<Rightarrow> cerror + char list cptr \<times> kenv" where
  "allocate_name junk name devid e =
     (let len = length name + 1; (dest, e1) = pmalloc junk (len + 1) e
      in bindR (deref dest) (\<lambda>m0.
         bindR (mem_put 0 (name @ [NUL]) m0) (\<lambda>m1.
         bindR (mem_put (len - 1) [id_char devid] m1) (\<lambda>m2.
         bindR (mem_put len [NUL] m2) (\<lambda>m3. Inr (Live m3, e1))))))"

definition allocate_name_folder ::
  "(nat \<Rightarrow> char) \<Rightarrow> char list \<Rightarrow> nat \<Rightarrow> kenv \<Rightarrow> cerror + char list cptr \<times> kenv" where
  "allocate_name_folder junk name devid e =
     (let folder = ''paxos''; f_len = length folder; len = length name;
          (dest, e1) = pmalloc junk (f_len + len + 3) e
      in bindR (deref dest) (\<lambda>m0.
         bindR (mem_put 0 folder m0) (\<lambda>m1.
         bindR (mem_put f_len [CHR ''/''] m1) (\<lambda>m2.
         bindR (mem_put (f_len + 1) [NUL] m2) (\<lambda>m3.
         bindR (strcat m3 name) (\<lambda>m4.
         bindR (mem_put (f_len + len + 1) [id_char devid] m4) (\<lambda>m5.
         bindR (mem_put (f_len + len + 2) [NUL] m5) (\<lambda>m6. Inr (Live m6, e1)))))))))"

lemma pmalloc_ok:
  "alloc_all e \<Longrightarrow> pmalloc junk n e = (Live (map junk [0..<n]), e\<lparr>allocs := tl (allocs e)\<rparr>)"
  by (simp add: pmalloc_def next_alloc_all)

text \<open>Both names are written within the block they are given, and fill it exactly.\<close>

lemma allocate_name_result:
  assumes "alloc_all e"
  shows "allocate_name junk name devid e =
    Inr (Live (dev_class name devid @ [NUL]), e\<lparr>allocs := tl (allocs e)\<rparr>)"
  using assms by (simp add: allocate_name_def pmalloc_ok c_simps dev_class_def)

lemma strcat_paxos:
  "length s \<le> length xs \<Longrightarrow>
   strcat (CHR ''p'' # CHR ''a'' # CHR ''x'' # CHR ''o'' # CHR ''s'' # CHR ''/'' # NUL # xs) s
     = Inr (''paxos/'' @ s @ NUL # drop (length s) xs)"
  by (simp add: strcat_def mem_put_def NUL_def)

lemma allocate_name_folder_result:
  assumes "alloc_all e"
  shows "allocate_name_folder junk name devid e =
    Inr (Live (dev_path name devid @ [NUL]), e\<lparr>allocs := tl (allocs e)\<rparr>)"
  using assms by (simp add: allocate_name_folder_def pmalloc_ok c_simps strcat_paxos Let_def dev_path_def)

section \<open>Registration\<close>

text \<open>
  The kernel functions that register a device, as functions of their arguments: a major
  number or a negative error code, and pointers or error codes in pointer form.
\<close>

record kernel_api =
  register_chrdev :: "char list \<Rightarrow> int"
  class_create :: "char list \<Rightarrow> u64"
  device_create :: "u64 \<Rightarrow> int \<Rightarrow> char list \<Rightarrow> u64"

text \<open>\<open>IS_ERR\<close>: the last 4095 addresses are error codes.\<close>

definition IS_ERR :: "u64 \<Rightarrow> bool" where
  "IS_ERR p \<longleftrightarrow> - 4095 \<le> p"

text \<open>What freshly allocated memory holds.\<close>

record memory_junk =
  junk_char :: "nat \<Rightarrow> char"
  junk_byte :: "nat \<Rightarrow> byte"
  junk_accepted :: paxos_accepted
  junk_callback :: kernel_device_callback

definition major_number ::
  "kernel_api \<Rightarrow> memory_junk \<Rightarrow> nat \<Rightarrow> char list \<Rightarrow> paxos_kernel_device \<Rightarrow> kenv
   \<Rightarrow> cerror + int \<times> paxos_kernel_device \<times> kenv" where
  "major_number api j devid name dev e =
     bindR (allocate_name_folder (junk_char j) name devid e) (\<lambda>(p, e1).
     bindR (deref p) (\<lambda>m.
       let s = c_string m; major = register_chrdev api s;
           dev1 = dev\<lparr>de_name := p, majorNumber := major\<rparr>
       in Inr (if major < 0 then major else 0, dev1, log_call (Register_chrdev s) e1)))"

definition reg_dev_class ::
  "kernel_api \<Rightarrow> memory_junk \<Rightarrow> nat \<Rightarrow> char list \<Rightarrow> paxos_kernel_device \<Rightarrow> kenv
   \<Rightarrow> cerror + int \<times> paxos_kernel_device \<times> kenv" where
  "reg_dev_class api j devid name dev e =
     bindR (allocate_name (junk_char j) name devid e) (\<lambda>(p, e1).
     bindR (deref p) (\<lambda>m.
       let s = c_string m; cls = class_create api s;
           dev1 = dev\<lparr>clas_name := p, charClass := cls\<rparr>;
           e2 = log_call (Class_create s) e1
       in if IS_ERR cls
          then Inr (- 1, dev1, log_call (Unregister_chrdev (majorNumber dev1) (de_name dev1)) e2)
          else Inr (0, dev1, e2)))"

definition reg_char_class ::
  "kernel_api \<Rightarrow> paxos_kernel_device \<Rightarrow> kenv \<Rightarrow> cerror + int \<times> paxos_kernel_device \<times> kenv" where
  "reg_char_class api dev e =
     bindR (deref (de_name dev)) (\<lambda>m.
       let s = c_string m; cdev = device_create api (charClass dev) (majorNumber dev) s;
           dev1 = dev\<lparr>charDevice := cdev\<rparr>;
           e1 = log_call (Device_create (charClass dev) (majorNumber dev) s) e
       in if IS_ERR cdev
          then Inr (- 1, dev1, log_call (Unregister_chrdev (majorNumber dev1) (de_name dev1))
                                (log_call (Class_destroy (charClass dev1)) e1))
          else Inr (0, dev1, e1))"

section \<open>Buffers\<close>

text \<open>
  The loop of \<open>kdevchar_init\<close> over the slots, from slot \<open>i\<close> on with \<open>k\<close> rounds left: the
  message block, the callback, its response, the block of the response's value, and the
  stores through the three pointers.
\<close>

primrec init_slots ::
  "memory_junk \<Rightarrow> nat \<Rightarrow> nat \<Rightarrow> byte list cptr list \<Rightarrow> kernel_device_callback cptr list \<Rightarrow> kenv
   \<Rightarrow> cerror + byte list cptr list \<times> kernel_device_callback cptr list \<times> kenv" where
  "init_slots j 0 i ms cs e = Inr (ms, cs, e)"
| "init_slots j (Suc k) i ms cs e =
     (let (m, e1) = pmalloc (junk_byte j) (sizeof_paxos_accepted + MAX_PAXOS_VALUE_SIZE) e;
          (ok_cb, e2) = next_alloc e1
      in if \<not> ok_cb then Inl NullDeref
         else let (ok_r, e3) = next_alloc e2
              in if \<not> ok_r then Inl NullDeref
                 else let (v, e4) = pmalloc (junk_byte j) MAX_PAXOS_VALUE_SIZE e3
                      in bindR (clearPaxosAccepted \<lparr>obj_acc = junk_accepted j, obj_val = v\<rparr>) (\<lambda>r.
                         let cb = (junk_callback j)\<lparr>response_wait := 0, response := Live r, is_done := 0\<rparr>
                         in bindR (arr_set ms i m) (\<lambda>ms'.
                            bindR (arr_set cs i (Live cb)) (\<lambda>cs'.
                            init_slots j k (Suc i) ms' cs' e4))))"

definition init_buffers ::
  "memory_junk \<Rightarrow> paxos_kernel_device \<Rightarrow> kenv \<Rightarrow> cerror + paxos_kernel_device \<times> kenv" where
  "init_buffers j dev e =
     (let (ok_m, e1) = next_alloc e; (ok_c, e2) = next_alloc e1
      in if \<not> ok_m \<or> \<not> ok_c then Inl NullDeref
         else bindR (init_slots j BUFFER_SIZE 0 (replicate BUFFER_SIZE Uninit)
                       (replicate BUFFER_SIZE Uninit) e2) (\<lambda>(ms, cs, e3).
              Inr (dev\<lparr>msg_buf := Live ms, callback_buf := Live cs, current_buf := 0, first_buf := 0,
                       char_mutex := False, access_wait := 0, used_buf := 0\<rparr>, e3)))"

definition kdevchar_init ::
  "kernel_api \<Rightarrow> memory_junk \<Rightarrow> nat \<Rightarrow> char list option \<Rightarrow> paxos_kernel_device option \<Rightarrow> kenv
   \<Rightarrow> cerror + int \<times> paxos_kernel_device option \<times> kenv" where
  "kdevchar_init api j devid name kernel_device e =
     (case (name, kernel_device) of
        (Some nm, Some dev) \<Rightarrow>
          bindR (major_number api j devid nm (dev\<lparr>working := 1\<rparr>) e) (\<lambda>(r1, dev1, e1).
          if r1 < 0 then Inr (- 1, Some dev1, e1)
          else bindR (reg_dev_class api j devid nm dev1 e1) (\<lambda>(r2, dev2, e2).
               if r2 < 0 then Inr (- 1, Some dev2, e2)
               else bindR (reg_char_class api dev2 e2) (\<lambda>(r3, dev3, e3).
                    if r3 < 0 then Inr (- 1, Some dev3, e3)
                    else bindR (init_buffers j dev3 e3) (\<lambda>(dev4, e4). Inr (0, Some dev4, e4)))))
      | _ \<Rightarrow> Inr (0, kernel_device, e))"

section \<open>Release\<close>

text \<open>The loop of \<open>kdevchar_exit\<close> over the slots.\<close>

primrec free_slots ::
  "nat \<Rightarrow> nat \<Rightarrow> byte list cptr list \<Rightarrow> kernel_device_callback cptr list
   \<Rightarrow> cerror + byte list cptr list \<times> kernel_device_callback cptr list" where
  "free_slots 0 i ms cs = Inr (ms, cs)"
| "free_slots (Suc k) i ms cs =
     bindR (arr_get ms i) (\<lambda>m. bindR (cfree m) (\<lambda>m'. bindR (arr_set ms i m') (\<lambda>ms'.
     bindR (arr_get cs i) (\<lambda>c. bindR (deref c) (\<lambda>cb. bindR (deref (response cb)) (\<lambda>r.
     bindR (cfree (obj_val r)) (\<lambda>_. bindR (cfree (response cb)) (\<lambda>_.
     bindR (cfree c) (\<lambda>c'. bindR (arr_set cs i c') (\<lambda>cs'.
     free_slots k (Suc i) ms' cs'))))))))))"

definition free_buffers :: "paxos_kernel_device \<Rightarrow> cerror + paxos_kernel_device" where
  "free_buffers dev =
     bindR (nonnull (msg_buf dev)) (\<lambda>b1.
     bindR (if b1 then nonnull (callback_buf dev) else Inr False) (\<lambda>b2.
       if b2 then
         bindR (deref (msg_buf dev)) (\<lambda>ms. bindR (deref (callback_buf dev)) (\<lambda>cs.
         bindR (free_slots BUFFER_SIZE 0 ms cs) (\<lambda>_.
         bindR (cfree (msg_buf dev)) (\<lambda>m'. bindR (cfree (callback_buf dev)) (\<lambda>c'.
         Inr (dev\<lparr>msg_buf := m', callback_buf := c'\<rparr>))))))
       else Inr dev))"

definition kdevchar_exit :: "paxos_kernel_device \<Rightarrow> kenv \<Rightarrow> cerror + paxos_kernel_device \<times> kenv" where
  "kdevchar_exit dev e =
     (let dev1 = dev\<lparr>working := 0, used_buf := used_buf dev + 1, access_wait := access_wait dev + 1\<rparr>;
          e1 = log_call (Class_destroy (charClass dev))
                 (log_call (Class_unregister (charClass dev))
                   (log_call (Device_destroy (charClass dev) (majorNumber dev)) e))
      in bindR (free_buffers dev1) (\<lambda>dev2.
         bindR (cfree (de_name dev2)) (\<lambda>d'.
         bindR (cfree (clas_name dev2)) (\<lambda>c'.
         let dev3 = dev2\<lparr>de_name := d', clas_name := c'\<rparr>
         in Inr (dev3, log_call (Unregister_chrdev (majorNumber dev3) (de_name dev3)) e1)))))"

definition persistence_device_destroy :: "paxos_kernel_device \<Rightarrow> cerror + paxos_kernel_device" where
  "persistence_device_destroy dev = bindR (free_pool (pool dev)) (\<lambda>p. Inr (dev\<lparr>pool := p\<rparr>))"

lemma free_buffers_fields:
  "free_buffers dev = Inr dev' \<Longrightarrow>
   used_buf dev' = used_buf dev \<and> working dev' = working dev \<and> access_wait dev' = access_wait dev"
  by (auto simp: free_buffers_def bindR_eq_Inr split: if_splits)

lemma kdevchar_exit_fields:
  assumes "kdevchar_exit dev e = Inr (dev', e')"
  shows "used_buf dev' = used_buf dev + 1 \<and> working dev' = 0 \<and> access_wait dev' = access_wait dev + 1"
proof -
  from assms obtain dev2 where
    f: "free_buffers (dev\<lparr>working := 0, used_buf := used_buf dev + 1, access_wait := access_wait dev + 1\<rparr>) = Inr dev2"
    and d: "used_buf dev' = used_buf dev2" "working dev' = working dev2" "access_wait dev' = access_wait dev2"
    by (auto simp: kdevchar_exit_def bindR_eq_Inr Let_def)
  from free_buffers_fields [OF f] d show ?thesis by simp
qed

section \<open>Devices in operation\<close>

definition slot_block :: "byte list cptr \<Rightarrow> byte list" where
  "slot_block p = (case p of Live b \<Rightarrow> b | _ \<Rightarrow> [])"

text \<open>The message blocks and the callbacks of a device, in slot order.\<close>

definition slots_of :: "paxos_kernel_device \<Rightarrow> byte list list" where
  "slots_of dev = (case msg_buf dev of Live ms \<Rightarrow> map slot_block ms | _ \<Rightarrow> [])"

definition callbacks_of :: "paxos_kernel_device \<Rightarrow> kernel_device_callback list" where
  "callbacks_of dev = (case callback_buf dev of
      Live cs \<Rightarrow> map (\<lambda>c. case c of Live cb \<Rightarrow> cb | _ \<Rightarrow> undefined) cs | _ \<Rightarrow> [])"

definition callback_ok :: "kernel_device_callback \<Rightarrow> bool" where
  "callback_ok cb \<longleftrightarrow> (\<exists>r. response cb = Live r \<and> response_ok r)"

text \<open>
  The memory of a device in operation: 1000 message blocks of 240 bytes and 1000
  callbacks, each with a response that can hold a maximal value.
\<close>

definition buffers_ok :: "paxos_kernel_device \<Rightarrow> bool" where
  "buffers_ok dev \<longleftrightarrow>
     msg_buf dev = Live (map Live (slots_of dev)) \<and> length (slots_of dev) = BUFFER_SIZE
     \<and> (\<forall>s \<in> set (slots_of dev). length s = sizeof_paxos_accepted + MAX_PAXOS_VALUE_SIZE)
     \<and> callback_buf dev = Live (map Live (callbacks_of dev)) \<and> length (callbacks_of dev) = BUFFER_SIZE
     \<and> (\<forall>c \<in> set (callbacks_of dev). callback_ok c)"

lemma slots_of_Live: "msg_buf dev = Live (map Live bs) \<Longrightarrow> slots_of dev = bs"
  by (simp add: slots_of_def slot_block_def comp_def)

lemma callbacks_of_Live: "callback_buf dev = Live (map Live cbs) \<Longrightarrow> callbacks_of dev = cbs"
  by (simp add: callbacks_of_def comp_def)

lemma buffers_okI:
  "msg_buf dev = Live (map Live bs) \<Longrightarrow> length bs = BUFFER_SIZE \<Longrightarrow>
   (\<And>s. s \<in> set bs \<Longrightarrow> length s = sizeof_paxos_accepted + MAX_PAXOS_VALUE_SIZE) \<Longrightarrow>
   callback_buf dev = Live (map Live cbs) \<Longrightarrow> length cbs = BUFFER_SIZE \<Longrightarrow>
   (\<And>c. c \<in> set cbs \<Longrightarrow> callback_ok c) \<Longrightarrow> buffers_ok dev"
  by (simp add: buffers_ok_def slots_of_Live callbacks_of_Live)

lemma buffers_okD:
  assumes "buffers_ok dev"
  shows "msg_buf dev = Live (map Live (slots_of dev))" and "length (slots_of dev) = BUFFER_SIZE"
    and "i < BUFFER_SIZE \<Longrightarrow> length (slots_of dev ! i) = sizeof_paxos_accepted + MAX_PAXOS_VALUE_SIZE"
    and "callback_buf dev = Live (map Live (callbacks_of dev))"
    and "length (callbacks_of dev) = BUFFER_SIZE"
    and "i < BUFFER_SIZE \<Longrightarrow> callback_ok (callbacks_of dev ! i)"
  using assms by (simp_all add: buffers_ok_def)

section \<open>Initialisation establishes the buffers\<close>

definition fresh_block :: "memory_junk \<Rightarrow> byte list" where
  "fresh_block j = map (junk_byte j) [0..<sizeof_paxos_accepted + MAX_PAXOS_VALUE_SIZE]"

definition fresh_callback :: "memory_junk \<Rightarrow> kernel_device_callback" where
  "fresh_callback j = (junk_callback j)\<lparr>response_wait := 0,
     response := Live \<lparr>obj_acc = (junk_accepted j)\<lparr>iid := 0, promise_iid := 0, ballot := 0,
         acc_value := (acc_value (junk_accepted j))\<lparr>paxos_value_len := 0\<rparr>\<rparr>,
       obj_val = Live (replicate MAX_PAXOS_VALUE_SIZE 0)\<rparr>, is_done := 0\<rparr>"

lemma length_fresh_block [simp]: "length (fresh_block j) = sizeof_paxos_accepted + MAX_PAXOS_VALUE_SIZE"
  by (simp add: fresh_block_def)

lemma fresh_callback_ok [simp]: "callback_ok (fresh_callback j)"
  by (simp add: callback_ok_def fresh_callback_def response_ok_def)

lemma init_slot_round:
  assumes "alloc_all e" and "i < length ms" and "i < length cs"
  obtains e' where "alloc_all e'" and "calls e' = calls e" and "threads e' = threads e"
    and "init_slots j (Suc k) i ms cs e =
      init_slots j k (Suc i) (ms[i := Live (fresh_block j)]) (cs[i := Live (fresh_callback j)]) e'"
proof -
  let ?t = "\<lambda>e. e\<lparr>allocs := tl (allocs e)\<rparr>"
  have step: "next_alloc e' = (True, ?t e')" "alloc_all (?t e')" if "alloc_all e'" for e'
    using next_alloc_all [OF that] by blast+
  note s = step [OF assms(1)] step [OF step(2) [OF assms(1)]] step [OF step(2) [OF step(2) [OF assms(1)]]]
    step [OF step(2) [OF step(2) [OF step(2) [OF assms(1)]]]]
  have clear: "clearPaxosAccepted \<lparr>obj_acc = junk_accepted j,
        obj_val = Live (map (junk_byte j) [0..<MAX_PAXOS_VALUE_SIZE])\<rparr> =
      Inr (\<lparr>obj_acc = (junk_accepted j)\<lparr>iid := 0, promise_iid := 0, ballot := 0,
         acc_value := (acc_value (junk_accepted j))\<lparr>paxos_value_len := 0\<rparr>\<rparr>,
        obj_val = Live (replicate MAX_PAXOS_VALUE_SIZE 0)\<rparr>)"
    by (subst clear_ok) (auto simp: response_ok_def)
  show ?thesis
    by (rule that [of "?t (?t (?t (?t e)))"])
       (use s assms in \<open>simp_all add: pmalloc_def clear arr_set_ok fresh_block_def fresh_callback_def del: upt_Suc\<close>)
qed

lemma init_slots_ok:
  assumes "alloc_all e" and "i + k = n"
    and "ms = replicate i (Live (fresh_block j)) @ replicate (n - i) Uninit"
    and "cs = replicate i (Live (fresh_callback j)) @ replicate (n - i) Uninit"
  shows "\<exists>e'. init_slots j k i ms cs e =
      Inr (replicate n (Live (fresh_block j)), replicate n (Live (fresh_callback j)), e')
    \<and> alloc_all e' \<and> calls e' = calls e \<and> threads e' = threads e"
  using assms
proof (induction k arbitrary: i ms cs e)
  case (Suc k)
  then have i: "i < n" and l: "i < length ms" "i < length cs" by simp_all
  obtain e1 where e1: "alloc_all e1" "calls e1 = calls e" "threads e1 = threads e"
    "init_slots j (Suc k) i ms cs e =
      init_slots j k (Suc i) (ms[i := Live (fresh_block j)]) (cs[i := Live (fresh_callback j)]) e1"
    using init_slot_round [OF Suc.prems(1) l] by metis
  have "\<exists>e'. init_slots j k (Suc i) (ms[i := Live (fresh_block j)]) (cs[i := Live (fresh_callback j)]) e1 =
      Inr (replicate n (Live (fresh_block j)), replicate n (Live (fresh_callback j)), e')
    \<and> alloc_all e' \<and> calls e' = calls e1 \<and> threads e' = threads e1"
    using Suc.prems fill_step [OF Suc.prems(3) i] fill_step [OF Suc.prems(4) i] e1(1)
    by (intro Suc.IH) simp_all
  with e1(2,3) show ?case unfolding e1(4) by simp
qed simp

text \<open>What \<open>kdevchar_init\<close> leaves in a device on success.\<close>

definition ready_device ::
  "kernel_api \<Rightarrow> memory_junk \<Rightarrow> nat \<Rightarrow> char list \<Rightarrow> paxos_kernel_device \<Rightarrow> paxos_kernel_device" where
  "ready_device api j devid name dev =
     (let path = dev_path name devid; cname = dev_class name devid;
          major = register_chrdev api path; cls = class_create api cname
      in dev\<lparr>working := 1, de_name := Live (path @ [NUL]), majorNumber := major,
             clas_name := Live (cname @ [NUL]), charClass := cls,
             charDevice := device_create api cls major path,
             msg_buf := Live (map Live (replicate BUFFER_SIZE (fresh_block j))),
             callback_buf := Live (map Live (replicate BUFFER_SIZE (fresh_callback j))),
             current_buf := 0, first_buf := 0, char_mutex := False, access_wait := 0, used_buf := 0\<rparr>)"

lemma ready_device_buffers: "buffers_ok (ready_device api j devid name dev)"
  by (rule buffers_okI [of _ "replicate BUFFER_SIZE (fresh_block j)" "replicate BUFFER_SIZE (fresh_callback j)"])
     (auto simp: ready_device_def Let_def)

lemma ready_device_fields [simp]:
  "slots_of (ready_device api j devid name dev) = replicate BUFFER_SIZE (fresh_block j)"
  "callbacks_of (ready_device api j devid name dev) = replicate BUFFER_SIZE (fresh_callback j)"
  "working (ready_device api j devid name dev) = 1"
  "first_buf (ready_device api j devid name dev) = 0"
  "current_buf (ready_device api j devid name dev) = 0"
  "used_buf (ready_device api j devid name dev) = 0"
  "char_mutex (ready_device api j devid name dev) = False"
  "de_name (ready_device api j devid name dev) = Live (dev_path name devid @ [NUL])"
  "clas_name (ready_device api j devid name dev) = Live (dev_class name devid @ [NUL])"
  "pool (ready_device api j devid name dev) = pool dev"
  by (simp_all add: ready_device_def Let_def slots_of_def slot_block_def callbacks_of_def)

text \<open>A device name: no NUL in it, and an id that prints as one character.\<close>

definition name_ok :: "char list \<Rightarrow> nat \<Rightarrow> bool" where
  "name_ok name devid \<longleftrightarrow> NUL \<notin> set name \<and> devid < 10"

lemma id_char_not_NUL: "devid < 10 \<Longrightarrow> id_char devid \<noteq> NUL"
proof
  assume d: "devid < 10" and "id_char devid = NUL"
  then have "of_char (id_char devid) = (of_char NUL :: nat)" by simp
  with d show False by (simp add: id_char_def NUL_def)
qed

lemma c_string_NUL: "NUL \<notin> set s \<Longrightarrow> c_string (s @ [NUL]) = s"
  by (induction s) (auto simp: c_string_def)

lemma c_string_names:
  assumes "name_ok name devid"
  shows "c_string (dev_class name devid @ [NUL]) = dev_class name devid"
    and "c_string (dev_path name devid @ [NUL]) = dev_path name devid"
proof -
  from assms have "NUL \<notin> set (dev_class name devid)" and "NUL \<notin> set (dev_path name devid)"
    using id_char_not_NUL [of devid] by (auto simp: name_ok_def dev_class_def dev_path_def NUL_def)
  then show "c_string (dev_class name devid @ [NUL]) = dev_class name devid"
    and "c_string (dev_path name devid @ [NUL]) = dev_path name devid"
    using c_string_NUL by blast+
qed

lemma fill_next:
  assumes "xs = replicate i a @ b # ys"
  shows "i < length xs" and "xs ! i = b" and "xs[i := a] = replicate (Suc i) a @ ys"
  using assms by (simp_all add: nth_append list_update_append replicate_app_Cons_same)

lemma free_slots_ok:
  assumes "i + k = length bs" and "length cbs = length bs" and "\<forall>c \<in> set cbs. callback_ok c"
    and "ms = replicate i Dangling @ drop i (map Live bs)"
    and "cs = replicate i Dangling @ drop i (map Live cbs)"
  shows "free_slots k i ms cs = Inr (replicate (length bs) Dangling, replicate (length bs) Dangling)"
  using assms
proof (induction k arbitrary: i ms cs)
  case (Suc k)
  then have i: "i < length bs" "i < length cbs" by simp_all
  then obtain r where r: "response (cbs ! i) = Live r" "response_ok r"
    using Suc.prems(3) by (fastforce simp: callback_ok_def)
  then obtain v where v: "obj_val r = Live v" by (auto simp: response_ok_def)
  have d: "drop i (map Live bs) = Live (bs ! i) # drop (Suc i) (map Live bs)"
    "drop i (map Live cbs) = Live (cbs ! i) # drop (Suc i) (map Live cbs)"
    using i by (simp_all add: Cons_nth_drop_Suc [symmetric] drop_map)
  have "free_slots k (Suc i) (replicate (Suc i) Dangling @ drop (Suc i) (map Live bs))
      (replicate (Suc i) Dangling @ drop (Suc i) (map Live cbs)) =
      Inr (replicate (length bs) Dangling, replicate (length bs) Dangling)"
    using Suc.prems by (intro Suc.IH) simp_all
  moreover note fill_next [OF Suc.prems(4) [unfolded d]] fill_next [OF Suc.prems(5) [unfolded d]]
  ultimately show ?case using r v by (simp add: arr_get_ok arr_set_ok del: replicate.simps)
qed simp

section \<open>Properties\<close>

text \<open>A memory and a kernel, for the witnesses here and of the devices.\<close>

definition demo_junk :: memory_junk where
  "demo_junk = \<lparr>junk_char = (\<lambda>_. CHR ''?''), junk_byte = (\<lambda>_. 0),
     junk_accepted = accepted_of_image (replicate 40 0xAA),
     junk_callback = \<lparr>response_wait = 9, response = Uninit, buffer_id = 9, is_done = 9, cb_iid = 9\<rparr>\<rparr>"

definition demo_api :: kernel_api where
  "demo_api = \<lparr>register_chrdev = (\<lambda>_. 240), class_create = (\<lambda>_. 4096), device_create = (\<lambda>_ _ _. 8192)\<rparr>"

definition refusing_api :: kernel_api where
  "refusing_api = demo_api\<lparr>class_create := (\<lambda>_. - 12)\<rparr>"

lemma id_char_digits: "id_char 0 = CHR ''0''" "id_char 1 = CHR ''1''" "id_char 2 = CHR ''2''" "id_char 3 = CHR ''3''"
  by (simp_all add: id_char_def char_of_def bit_0)

lemma demo_names_ok: "name_ok ''write-test'' 0" "name_ok ''write-persistence'' 2" "name_ok ''read-persistence'' 3"
  by (simp_all add: name_ok_def NUL_def)

text \<open>A device's path in \<open>/dev\<close> and its class name: the two name builders write inside
  the blocks they allocate, fill them exactly, and the strings they leave are
  \<open>paxos/<name><id>\<close> and \<open><name><id>\<close>, whatever the allocated memory held before.\<close>

lemma device_names:
  assumes "alloc_all e" and "name_ok name devid"
  shows "(\<exists>m e1. allocate_name_folder junk name devid e = Inr (Live m, e1)
            \<and> c_string m = ''paxos/'' @ name @ [id_char devid] \<and> length m = length name + 8)
       \<and> (\<exists>m e1. allocate_name junk name devid e = Inr (Live m, e1)
            \<and> c_string m = name @ [id_char devid] \<and> length m = length name + 2)"
proof -
  have "c_string (dev_path name devid @ [NUL]) = ''paxos/'' @ name @ [id_char devid]"
    and "c_string (dev_class name devid @ [NUL]) = name @ [id_char devid]"
    using assms(2) by (simp_all add: c_string_names, simp_all add: dev_path_def dev_class_def)
  with assms(1) show ?thesis
    by (simp add: allocate_name_folder_result allocate_name_result)
       (simp add: dev_path_def dev_class_def)
qed

text \<open>
  The registration calls a device must make: up to the first one that fails, and then
  the calls that undo the ones that succeeded, in reverse.
\<close>

definition registration_calls :: "kernel_api \<Rightarrow> char list \<Rightarrow> nat \<Rightarrow> kcall list" where
  "registration_calls api name devid =
     (let path = dev_path name devid; cname = dev_class name devid;
          major = register_chrdev api path; cls = class_create api cname;
          undo = Unregister_chrdev major (Live (path @ [NUL]))
      in if major < 0 then [Register_chrdev path]
         else if IS_ERR cls then [Register_chrdev path, Class_create cname, undo]
         else if IS_ERR (device_create api cls major path)
              then [Register_chrdev path, Class_create cname, Device_create cls major path,
                    Class_destroy cls, undo]
              else [Register_chrdev path, Class_create cname, Device_create cls major path])"

definition registered :: "kernel_api \<Rightarrow> char list \<Rightarrow> nat \<Rightarrow> bool" where
  "registered api name devid \<longleftrightarrow>
     (let path = dev_path name devid; cname = dev_class name devid;
          major = register_chrdev api path; cls = class_create api cname
      in 0 \<le> major \<and> \<not> IS_ERR cls \<and> \<not> IS_ERR (device_create api cls major path))"

lemma init_buffers_ok:
  assumes "alloc_all e"
  shows "\<exists>e'. init_buffers j dev e = Inr (dev\<lparr>
        msg_buf := Live (map Live (replicate BUFFER_SIZE (fresh_block j))),
        callback_buf := Live (map Live (replicate BUFFER_SIZE (fresh_callback j))),
        current_buf := 0, first_buf := 0, char_mutex := False, access_wait := 0, used_buf := 0\<rparr>, e')
    \<and> calls e' = calls e \<and> alloc_all e' \<and> threads e' = threads e"
proof -
  let ?t = "\<lambda>e. e\<lparr>allocs := tl (allocs e)\<rparr>"
  note a = next_alloc_all [OF assms]
  note b = next_alloc_all [OF conjunct2 [OF a]]
  obtain e' where "init_slots j BUFFER_SIZE 0 (replicate BUFFER_SIZE Uninit) (replicate BUFFER_SIZE Uninit) (?t (?t e))
      = Inr (replicate BUFFER_SIZE (Live (fresh_block j)), replicate BUFFER_SIZE (Live (fresh_callback j)), e')"
    and "calls e' = calls (?t (?t e))" "alloc_all e'" "threads e' = threads (?t (?t e))"
    using init_slots_ok [OF conjunct2 [OF b], of 0 BUFFER_SIZE BUFFER_SIZE _ j] by auto
  with a b show ?thesis by (simp add: init_buffers_def)
qed

lemma kdevchar_init_result:
  assumes "alloc_all e" and "name_ok name devid"
  shows "\<exists>d e'. kdevchar_init api j devid (Some name) (Some dev) e =
      Inr (if registered api name devid then 0 else - 1, Some d, e')
    \<and> calls e' = calls e @ registration_calls api name devid
    \<and> (registered api name devid \<longrightarrow> d = ready_device api j devid name dev)
    \<and> (\<not> registered api name devid \<longrightarrow> msg_buf d = msg_buf dev \<and> used_buf d = used_buf dev)
    \<and> alloc_all e' \<and> threads e' = threads e"
proof -
  let ?path = "dev_path name devid" and ?cname = "dev_class name devid"
  let ?major = "register_chrdev api ?path" and ?cls = "class_create api ?cname"
  let ?e1 = "log_call (Register_chrdev ?path) (e\<lparr>allocs := tl (allocs e)\<rparr>)"
  let ?d1 = "dev\<lparr>working := 1, de_name := Live (?path @ [NUL]), majorNumber := ?major\<rparr>"
  let ?e2 = "log_call (Class_create ?cname) (?e1\<lparr>allocs := tl (allocs ?e1)\<rparr>)"
  let ?d2 = "?d1\<lparr>clas_name := Live (?cname @ [NUL]), charClass := ?cls\<rparr>"
  from assms(1) have a1: "alloc_all ?e1" using next_alloc_all [OF assms(1)] by simp
  then have a2: "alloc_all ?e2" using next_alloc_all [OF a1] by simp
  have m: "major_number api j devid name (dev\<lparr>working := 1\<rparr>) e = Inr (if ?major < 0 then ?major else 0, ?d1, ?e1)"
    using assms by (simp add: major_number_def allocate_name_folder_result c_string_names Let_def)
  have c: "reg_dev_class api j devid name ?d1 ?e1 =
    (if IS_ERR ?cls then Inr (- 1, ?d2, log_call (Unregister_chrdev ?major (Live (?path @ [NUL]))) ?e2)
     else Inr (0, ?d2, ?e2))"
    using assms a1 by (simp add: reg_dev_class_def allocate_name_result c_string_names Let_def)
  obtain e' where i: "init_buffers j (?d2\<lparr>charDevice := device_create api ?cls ?major ?path\<rparr>)
        (log_call (Device_create ?cls ?major ?path) ?e2) = Inr (ready_device api j devid name dev, e')"
    and e': "calls e' = calls (log_call (Device_create ?cls ?major ?path) ?e2)" "alloc_all e'"
      "threads e' = threads ?e2"
    using init_buffers_ok [of "log_call (Device_create ?cls ?major ?path) ?e2" j] a2
    by (auto simp: ready_device_def Let_def)
  show ?thesis
    using assms(2) i e' a1 a2
    by (simp add: kdevchar_init_def m c registered_def registration_calls_def Let_def reg_char_class_def
        c_string_names)
qed

text \<open>C11. \<open>kdevchar_init\<close>, when memory is available: it returns 0 exactly when the device
  number, the class and the device could be registered, and the device is then ready, with
  an empty ring of 1000 message blocks and 1000 cleared callbacks; otherwise it returns -1
  and has undone, in reverse and once each, the registrations it had made.\<close>

theorem kdevchar_init_outcome:
  assumes "alloc_all e" and "name_ok name devid"
  shows "\<exists>d e'. kdevchar_init api j devid (Some name) (Some dev) e =
      Inr (if registered api name devid then 0 else - 1, Some d, e')
    \<and> calls e' = calls e @ registration_calls api name devid
    \<and> (registered api name devid \<longrightarrow> d = ready_device api j devid name dev \<and> buffers_ok d)"
  using kdevchar_init_result [OF assms, of api j dev] ready_device_buffers [of api j devid name dev] by auto

theorem kdevchar_init_outcome_witness:
  "\<exists>d e'. kdevchar_init refusing_api demo_junk 0 (Some ''write-test'') (Some zero_device) good_env =
      Inr (- 1, Some d, e')
    \<and> calls e' = [Register_chrdev ''paxos/write-test0'', Class_create ''write-test0'',
         Unregister_chrdev 240 (Live (''paxos/write-test0'' @ [NUL]))]"
  using kdevchar_init_outcome [OF alloc_all_good demo_names_ok(1), of refusing_api demo_junk zero_device]
  by (auto simp: registered_def registration_calls_def refusing_api_def demo_api_def IS_ERR_def
      dev_path_def dev_class_def id_char_digits good_env_def Let_def)

lemma kdevchar_exit_result:
  assumes "buffers_ok dev" and "de_name dev = Live n" and "clas_name dev = Live c"
  shows "kdevchar_exit dev e =
    Inr (dev\<lparr>working := 0, used_buf := used_buf dev + 1, access_wait := access_wait dev + 1,
             msg_buf := Dangling, callback_buf := Dangling, de_name := Dangling, clas_name := Dangling\<rparr>,
         e\<lparr>calls := calls e @ [Device_destroy (charClass dev) (majorNumber dev),
            Class_unregister (charClass dev), Class_destroy (charClass dev),
            Unregister_chrdev (majorNumber dev) Dangling]\<rparr>)"
proof -
  note ok = buffers_okD [OF assms(1)]
  have "free_slots BUFFER_SIZE 0 (map Live (slots_of dev)) (map Live (callbacks_of dev)) =
      Inr (replicate BUFFER_SIZE Dangling, replicate BUFFER_SIZE Dangling)"
    using free_slots_ok [of 0 BUFFER_SIZE "slots_of dev" "callbacks_of dev"] assms(1)
    by (simp add: buffers_ok_def)
  with assms(2,3) ok(1,4) show ?thesis
    by (simp add: kdevchar_exit_def free_buffers_def log_call_def)
qed

text \<open>\<open>kdevchar_exit\<close> of a device in operation releases every message block, response,
  value, callback, array and name exactly once and touches no freed memory of its own; it
  stops the device, wakes its pollers and undoes the registration. The name it hands to
  \<open>unregister_chrdev\<close>, however, is the one it has already freed.\<close>

lemma kdevchar_exit_releases:
  assumes "buffers_ok dev" and "de_name dev = Live n" and "clas_name dev = Live c"
  shows "kdevchar_exit dev e =
    Inr (dev\<lparr>working := 0, used_buf := used_buf dev + 1, access_wait := access_wait dev + 1,
             msg_buf := Dangling, callback_buf := Dangling, de_name := Dangling, clas_name := Dangling\<rparr>,
         e\<lparr>calls := calls e @ [Device_destroy (charClass dev) (majorNumber dev),
            Class_unregister (charClass dev), Class_destroy (charClass dev),
            Unregister_chrdev (majorNumber dev) Dangling]\<rparr>)"
  using assms by (rule kdevchar_exit_result)

end
