(* ===== verification/Message_Ring.thy ===== *)
theory Message_Ring
  imports Kernel_Device
begin

text \<open>
  What the two persistence devices have in common: the ring of message blocks in
  \<open>paxos_kernel_device\<close>, the copying of bytes between kernel and user memory, and the
  contract of a bounded first-in first-out message channel that each device fulfils
  with its own operations.
\<close>

section \<open>User memory\<close>

text \<open>
  User memory is the list of mapped bytes from the buffer's address on. The kernel's
  \<open>copy_to_user\<close> and \<open>copy_from_user\<close> are parameters; they return the number of bytes
  they could not copy. What is assumed of them is their documentation: a range that is
  mapped is copied completely and 0 is returned; otherwise the result is not 0, the
  mapped range keeps its size, and \<open>copy_from_user\<close> fills the destination to its size.
\<close>

type_synonym umem = "byte list"
type_synonym to_user = "umem \<Rightarrow> nat \<Rightarrow> byte list \<Rightarrow> umem \<times> nat"
type_synonym from_user = "umem \<Rightarrow> nat \<Rightarrow> nat \<Rightarrow> byte list \<times> nat"

definition copy_to_user_ok :: "to_user \<Rightarrow> bool" where
  "copy_to_user_ok ctu \<longleftrightarrow> (\<forall>u off bs.
     (off + length bs \<le> length u \<longrightarrow> ctu u off bs = (take off u @ bs @ drop (off + length bs) u, 0))
     \<and> (length u < off + length bs \<longrightarrow> snd (ctu u off bs) \<noteq> 0 \<and> length (fst (ctu u off bs)) = length u))"

definition copy_from_user_ok :: "from_user \<Rightarrow> bool" where
  "copy_from_user_ok cfu \<longleftrightarrow> (\<forall>u off n.
     (off + n \<le> length u \<longrightarrow> cfu u off n = (take n (drop off u), 0))
     \<and> (length u < off + n \<longrightarrow> snd (cfu u off n) \<noteq> 0 \<and> length (fst (cfu u off n)) = n))"

text \<open>Functions that copy all or nothing, as instances of the two.\<close>

definition plain_to_user :: to_user where
  "plain_to_user u off bs =
     (if off + length bs \<le> length u then (take off u @ bs @ drop (off + length bs) u, 0)
      else (u, length bs + 1))"

definition plain_from_user :: from_user where
  "plain_from_user u off n =
     (if off + n \<le> length u then (take n (drop off u), 0) else (replicate n 0, n + 1))"

lemma plain_copies_ok [simp]: "copy_to_user_ok plain_to_user" "copy_from_user_ok plain_from_user"
  by (auto simp: copy_to_user_ok_def copy_from_user_ok_def plain_to_user_def plain_from_user_def)

lemma ctu_done:
  "copy_to_user_ok ctu \<Longrightarrow> off + length bs \<le> length u \<Longrightarrow>
   ctu u off bs = (take off u @ bs @ drop (off + length bs) u, 0)"
  by (simp add: copy_to_user_ok_def)

lemma ctu_fault:
  "copy_to_user_ok ctu \<Longrightarrow> length u < off + length bs \<Longrightarrow> snd (ctu u off bs) \<noteq> 0"
  by (simp add: copy_to_user_ok_def)

lemma ctu_length: "copy_to_user_ok ctu \<Longrightarrow> length (fst (ctu u off bs)) = length u"
  by (cases "off + length bs \<le> length u") (auto simp: copy_to_user_ok_def)

lemma cfu_done:
  "copy_from_user_ok cfu \<Longrightarrow> off + n \<le> length u \<Longrightarrow> cfu u off n = (take n (drop off u), 0)"
  by (simp add: copy_from_user_ok_def)

lemma cfu_fault: "copy_from_user_ok cfu \<Longrightarrow> length u < off + n \<Longrightarrow> snd (cfu u off n) \<noteq> 0"
  by (simp add: copy_from_user_ok_def)

lemma cfu_length: "copy_from_user_ok cfu \<Longrightarrow> length (fst (cfu u off n)) = n"
  by (cases "off + n \<le> length u") (auto simp: copy_from_user_ok_def)

section \<open>The counter of used slots\<close>

text \<open>\<open>atomic_read(&used_buf) >= BUFFER_SIZE\<close> and \<open>> 0\<close> compare signed integers.\<close>

definition ring_full :: "paxos_kernel_device \<Rightarrow> bool" where
  "ring_full dev \<longleftrightarrow> int BUFFER_SIZE \<le> sint (used_buf dev)"

definition ring_nonempty :: "paxos_kernel_device \<Rightarrow> bool" where
  "ring_nonempty dev \<longleftrightarrow> 0 < sint (used_buf dev)"

definition next_slot :: "nat \<Rightarrow> nat" where
  "next_slot i = (i + 1) mod BUFFER_SIZE"

text \<open>A store into the message block of slot \<open>i\<close>, and a load from it.\<close>

definition load_slot :: "paxos_kernel_device \<Rightarrow> nat \<Rightarrow> cerror + byte list" where
  "load_slot dev i = bindR (deref (msg_buf dev)) (\<lambda>ms. bindR (arr_get ms i) deref)"

definition store_slot ::
  "paxos_kernel_device \<Rightarrow> nat \<Rightarrow> byte list \<Rightarrow> cerror + paxos_kernel_device" where
  "store_slot dev i b = bindR (deref (msg_buf dev)) (\<lambda>ms. bindR (arr_set ms i (Live b)) (\<lambda>ms'.
     Inr (dev\<lparr>msg_buf := Live ms'\<rparr>)))"

definition load_callback :: "paxos_kernel_device \<Rightarrow> nat \<Rightarrow> cerror + kernel_device_callback" where
  "load_callback dev i = bindR (deref (callback_buf dev)) (\<lambda>cs. bindR (arr_get cs i) deref)"

definition store_callback ::
  "paxos_kernel_device \<Rightarrow> nat \<Rightarrow> kernel_device_callback \<Rightarrow> cerror + paxos_kernel_device" where
  "store_callback dev i c = bindR (deref (callback_buf dev)) (\<lambda>cs. bindR (arr_set cs i (Live c)) (\<lambda>cs'.
     Inr (dev\<lparr>callback_buf := Live cs'\<rparr>)))"

section \<open>Well-formed rings\<close>

definition ring_ok :: "nat \<Rightarrow> paxos_kernel_device \<Rightarrow> bool" where
  "ring_ok n dev \<longleftrightarrow> buffers_ok dev \<and> first_buf dev < BUFFER_SIZE \<and> n \<le> BUFFER_SIZE
     \<and> used_buf dev = of_nat n \<and> current_buf dev = (first_buf dev + n) mod BUFFER_SIZE"

text \<open>The blocks in use, oldest first, and the bytes of each that a reader is given.\<close>

definition queued :: "paxos_kernel_device \<Rightarrow> byte list list" where
  "queued dev = ring_window (first_buf dev) (unat (used_buf dev)) (slots_of dev)"

definition frame_len :: "byte list \<Rightarrow> nat" where
  "frame_len b = unat (of_nat sizeof_paxos_accepted + int_to_size (value_len_of b))"

definition payload :: "byte list \<Rightarrow> byte list" where
  "payload b = take (frame_len b) b"

definition frames :: "paxos_kernel_device \<Rightarrow> byte list list" where
  "frames dev = map payload (queued dev)"

text \<open>
  What the devices maintain: a well-formed ring each of whose queued messages has all
  the bytes its length field announces inside its block.
\<close>

definition channel_ok :: "paxos_kernel_device \<Rightarrow> bool" where
  "channel_ok dev \<longleftrightarrow> (\<exists>n. ring_ok n dev)
     \<and> (\<forall>b \<in> set (queued dev). frame_len b \<le> sizeof_paxos_accepted + MAX_PAXOS_VALUE_SIZE)"

lemma ring_ok_used:
  assumes "ring_ok n dev"
  shows "unat (used_buf dev) = n" "sint (used_buf dev) = int n" "length (queued dev) = n"
    "ring_full dev \<longleftrightarrow> n = BUFFER_SIZE" "ring_nonempty dev \<longleftrightarrow> 0 < n"
  using assms by (auto simp: ring_ok_def queued_def ring_full_def ring_nonempty_def
      BUFFER_SIZE_def sint_of_nat32 unat_of_nat32)

lemma ring_ok_bounds: "ring_ok n dev \<Longrightarrow> first_buf dev < BUFFER_SIZE \<and> current_buf dev < BUFFER_SIZE"
  by (auto simp: ring_ok_def BUFFER_SIZE_def)

lemma load_slot_ok:
  assumes "buffers_ok dev" and "i < BUFFER_SIZE"
  shows "load_slot dev i = Inr (slots_of dev ! i)"
    and "length (slots_of dev ! i) = sizeof_paxos_accepted + MAX_PAXOS_VALUE_SIZE"
  using buffers_okD(1-3) [OF assms(1)] assms(2) by (simp_all add: load_slot_def arr_get_def)

lemma load_callback_ok:
  assumes "buffers_ok dev" and "i < BUFFER_SIZE"
  shows "load_callback dev i = Inr (callbacks_of dev ! i)" and "callback_ok (callbacks_of dev ! i)"
  using buffers_okD(4-6) [OF assms(1)] assms(2) by (simp_all add: load_callback_def arr_get_def)

text \<open>
  Stores keep the buffers well-formed and change one slot of one array. The device is
  described by its arrays, so a chain of stores is one update of the device.
\<close>

definition with_slots :: "byte list list \<Rightarrow> paxos_kernel_device \<Rightarrow> paxos_kernel_device" where
  "with_slots bs dev = dev\<lparr>msg_buf := Live (map Live bs)\<rparr>"

definition with_callbacks :: "kernel_device_callback list \<Rightarrow> paxos_kernel_device \<Rightarrow> paxos_kernel_device" where
  "with_callbacks cs dev = dev\<lparr>callback_buf := Live (map Live cs)\<rparr>"

lemma store_slot_ok:
  assumes "buffers_ok dev" and "i < BUFFER_SIZE"
  shows "store_slot dev i b = Inr (with_slots ((slots_of dev)[i := b]) dev)"
  using buffers_okD(1,2) [OF assms(1)] assms(2)
  by (simp add: store_slot_def arr_set_def with_slots_def map_update)

lemma store_callback_ok:
  assumes "buffers_ok dev" and "i < BUFFER_SIZE"
  shows "store_callback dev i c = Inr (with_callbacks ((callbacks_of dev)[i := c]) dev)"
  using buffers_okD(4,5) [OF assms(1)] assms(2)
  by (simp add: store_callback_def arr_set_def with_callbacks_def map_update)

lemma with_slots_buffers:
  assumes "buffers_ok dev" and "length b = sizeof_paxos_accepted + MAX_PAXOS_VALUE_SIZE"
  shows "buffers_ok (with_slots ((slots_of dev)[i := b]) dev)"
proof (rule buffers_okI [of _ "(slots_of dev)[i := b]" "callbacks_of dev"])
  fix s assume "s \<in> set ((slots_of dev)[i := b])"
  then have "s \<in> insert b (set (slots_of dev))" by (rule set_update_subset_insert [THEN subsetD])
  with assms show "length s = sizeof_paxos_accepted + MAX_PAXOS_VALUE_SIZE"
    by (auto simp: buffers_ok_def)
qed (use assms(1) in \<open>simp_all add: with_slots_def buffers_ok_def\<close>)

lemma with_callbacks_buffers:
  assumes "buffers_ok dev" and "callback_ok c"
  shows "buffers_ok (with_callbacks ((callbacks_of dev)[i := c]) dev)"
proof (rule buffers_okI [of _ "slots_of dev" "(callbacks_of dev)[i := c]"])
  fix d assume "d \<in> set ((callbacks_of dev)[i := c])"
  then have "d \<in> insert c (set (callbacks_of dev))" by (rule set_update_subset_insert [THEN subsetD])
  with assms show "callback_ok d" by (auto simp: buffers_ok_def)
qed (use assms(1) in \<open>simp_all add: with_callbacks_def buffers_ok_def\<close>)

lemma with_slots_simps [simp]:
  "slots_of (with_slots bs dev) = bs" "callbacks_of (with_slots bs dev) = callbacks_of dev"
  "slots_of (with_callbacks cs dev) = slots_of dev" "callbacks_of (with_callbacks cs dev) = cs"
  "first_buf (with_slots bs dev) = first_buf dev" "first_buf (with_callbacks cs dev) = first_buf dev"
  "current_buf (with_slots bs dev) = current_buf dev" "current_buf (with_callbacks cs dev) = current_buf dev"
  "used_buf (with_slots bs dev) = used_buf dev" "used_buf (with_callbacks cs dev) = used_buf dev"
  "working (with_slots bs dev) = working dev" "working (with_callbacks cs dev) = working dev"
  "access_wait (with_slots bs dev) = access_wait dev" "access_wait (with_callbacks cs dev) = access_wait dev"
  by (simp_all add: with_slots_def with_callbacks_def slots_of_def callbacks_of_def slot_block_def comp_def)

text \<open>Counters and positions are not part of the buffers.\<close>

lemma buffers_ok_fields [simp]:
  "buffers_ok (dev\<lparr>used_buf := u\<rparr>) = buffers_ok dev"
  "buffers_ok (dev\<lparr>current_buf := c\<rparr>) = buffers_ok dev"
  "buffers_ok (dev\<lparr>first_buf := f\<rparr>) = buffers_ok dev"
  "buffers_ok (dev\<lparr>access_wait := a\<rparr>) = buffers_ok dev"
  "buffers_ok (dev\<lparr>working := w\<rparr>) = buffers_ok dev"
  "buffers_ok (dev\<lparr>char_mutex := m\<rparr>) = buffers_ok dev"
  by (simp_all add: buffers_ok_def slots_of_def callbacks_of_def)

lemma slots_of_fields [simp]:
  "slots_of (dev\<lparr>used_buf := u\<rparr>) = slots_of dev" "slots_of (dev\<lparr>current_buf := c\<rparr>) = slots_of dev"
  "slots_of (dev\<lparr>first_buf := f\<rparr>) = slots_of dev" "slots_of (dev\<lparr>access_wait := a\<rparr>) = slots_of dev"
  "slots_of (dev\<lparr>working := w\<rparr>) = slots_of dev" "slots_of (dev\<lparr>char_mutex := m\<rparr>) = slots_of dev"
  "callbacks_of (dev\<lparr>used_buf := u\<rparr>) = callbacks_of dev" "callbacks_of (dev\<lparr>current_buf := c\<rparr>) = callbacks_of dev"
  "callbacks_of (dev\<lparr>first_buf := f\<rparr>) = callbacks_of dev" "callbacks_of (dev\<lparr>access_wait := a\<rparr>) = callbacks_of dev"
  "callbacks_of (dev\<lparr>working := w\<rparr>) = callbacks_of dev" "callbacks_of (dev\<lparr>char_mutex := m\<rparr>) = callbacks_of dev"
  by (simp_all add: slots_of_def callbacks_of_def)

lemma channel_okE:
  assumes "channel_ok dev"
  obtains n where "ring_ok n dev" and "length (frames dev) = n" and "length (queued dev) = n"
    and "n \<le> BUFFER_SIZE" and "\<And>b. b \<in> set (queued dev) \<Longrightarrow> frame_len b \<le> 240"
proof -
  from assms obtain n where n: "ring_ok n dev" by (auto simp: channel_ok_def)
  then show ?thesis
    using assms ring_ok_used(3) [OF n] that [of n]
    by (simp add: channel_ok_def frames_def ring_ok_def size_defs)
qed

section \<open>Pushing and popping\<close>

lemma ring_push:
  assumes "ring_ok n dev" and "n < BUFFER_SIZE"
    and "length b = sizeof_paxos_accepted + MAX_PAXOS_VALUE_SIZE" and "callback_ok c"
    and "dev' = (with_callbacks ((callbacks_of dev)[current_buf dev := c])
                  (with_slots ((slots_of dev)[current_buf dev := b]) (dev\<lparr>used_buf := used_buf dev + 1\<rparr>)))
                \<lparr>current_buf := next_slot (current_buf dev), access_wait := a\<rparr>"
  shows "ring_ok (Suc n) dev'" and "queued dev' = queued dev @ [b]"
proof -
  let ?d0 = "dev\<lparr>used_buf := used_buf dev + 1\<rparr>"
  have b: "buffers_ok dev" and cur: "current_buf dev = (first_buf dev + n) mod BUFFER_SIZE"
    and used: "used_buf dev = of_nat n" using assms(1) by (simp_all add: ring_ok_def)
  have len: "length (slots_of dev) = BUFFER_SIZE" using b by (rule buffers_okD)
  have "buffers_ok (with_slots ((slots_of ?d0)[current_buf dev := b]) ?d0)"
    using b assms(3) by (intro with_slots_buffers) simp_all
  then have "buffers_ok (with_callbacks ((callbacks_of (with_slots ((slots_of ?d0)[current_buf dev := b]) ?d0))
      [current_buf dev := c]) (with_slots ((slots_of ?d0)[current_buf dev := b]) ?d0))"
    using assms(4) by (rule with_callbacks_buffers)
  then have "buffers_ok dev'" using assms(5) by simp
  moreover have "next_slot (current_buf dev) = (first_buf dev + Suc n) mod BUFFER_SIZE"
    using ring_pos_put [OF cur] by (simp add: next_slot_def)
  ultimately show ok: "ring_ok (Suc n) dev'"
    using assms(1,2,5) by (simp add: ring_ok_def)
  have "unat (used_buf dev') = Suc n" using ring_ok_used(1) [OF ok] .
  then show "queued dev' = queued dev @ [b]"
    using ring_window_put [of n "slots_of dev" "first_buf dev" b] assms(2,5) cur len
      ring_ok_used(1) [OF assms(1)] by (simp add: queued_def)
qed

lemma ring_pop:
  assumes "ring_ok n dev" and "0 < n"
    and "dev' = dev\<lparr>used_buf := used_buf dev - 1, first_buf := next_slot (first_buf dev)\<rparr>"
  shows "ring_ok (n - 1) dev'" and "queued dev' = tl (queued dev)"
    and "hd (queued dev) = slots_of dev ! first_buf dev" and "queued dev \<noteq> []"
proof -
  have b: "buffers_ok dev" and cur: "current_buf dev = (first_buf dev + n) mod BUFFER_SIZE"
    and f: "first_buf dev < BUFFER_SIZE" and used: "used_buf dev = of_nat n" and n: "n \<le> BUFFER_SIZE"
    using assms(1) by (simp_all add: ring_ok_def)
  have len: "length (slots_of dev) = BUFFER_SIZE" using b by (rule buffers_okD)
  from n have "n - 1 \<le> BUFFER_SIZE" by simp
  moreover have "used_buf dev - 1 = of_nat (n - 1)" using assms(2) used by (simp add: of_nat_diff)
  ultimately show ok: "ring_ok (n - 1) dev'"
    using b f assms(3) ring_pos_advance [OF cur assms(2)]
    by (simp add: ring_ok_def next_slot_def BUFFER_SIZE_def)
  show "queued dev' = tl (queued dev)"
    using ring_window_advance [of "first_buf dev" "slots_of dev" n] f len assms(3)
      ring_ok_used(1) [OF ok] ring_ok_used(1) [OF assms(1)] by (simp add: queued_def next_slot_def)
  show "hd (queued dev) = slots_of dev ! first_buf dev"
    using ring_window_hd [OF assms(2), of "first_buf dev" "slots_of dev"] f len
      ring_ok_used(1) [OF assms(1)] by (simp add: queued_def)
  show "queued dev \<noteq> []" using ring_ok_used(3) [OF assms(1)] assms(2) by auto
qed

lemma ring_ok_callback:
  assumes "ring_ok n dev" and "callback_ok c"
  shows "ring_ok n (with_callbacks ((callbacks_of dev)[i := c]) dev)"
    and "queued (with_callbacks ((callbacks_of dev)[i := c]) dev) = queued dev"
  using assms by (simp_all add: ring_ok_def with_callbacks_buffers queued_def)

section \<open>The contract of a message channel\<close>

text \<open>
  A channel is used by a producer that puts messages and a consumer that gets one after
  it was told that there is one. A schedule interleaves the two; running it yields the
  messages that were accepted, the byte strings that were delivered, and the end state.
\<close>

datatype 'm channel_op = Put 'm | Get

primrec channel_run ::
  "('m \<Rightarrow> 's \<Rightarrow> cerror + nat option \<times> 's) \<Rightarrow> ('s \<Rightarrow> cerror + byte list \<times> 's) \<Rightarrow> ('s \<Rightarrow> bool)
   \<Rightarrow> 'm channel_op list \<Rightarrow> 's \<Rightarrow> cerror + 'm list \<times> byte list list \<times> 's" where
  "channel_run put get ready [] s = Inr ([], [], s)"
| "channel_run put get ready (x # xs) s =
     (case x of
        Put m \<Rightarrow> bindR (put m s) (\<lambda>(r, s1).
          bindR (channel_run put get ready xs s1) (\<lambda>(acc, del, s2).
          Inr (if r = None then acc else m # acc, del, s2)))
      | Get \<Rightarrow> if ready s
          then bindR (get s) (\<lambda>(out, s1).
               bindR (channel_run put get ready xs s1) (\<lambda>(acc, del, s2). Inr (acc, out # del, s2)))
          else channel_run put get ready xs s)"

locale bounded_channel =
  fixes put :: "'m \<Rightarrow> 's \<Rightarrow> cerror + nat option \<times> 's"
    and get :: "'s \<Rightarrow> cerror + byte list \<times> 's"
    and ready :: "'s \<Rightarrow> bool"
    and good :: "'m \<Rightarrow> bool"
    and frame :: "'m \<Rightarrow> byte list"
    and items :: "'s \<Rightarrow> byte list list"
    and chan_inv :: "'s \<Rightarrow> bool"
    and cap :: nat
  assumes put_room: "chan_inv s \<Longrightarrow> good m \<Longrightarrow> length (items s) < cap \<Longrightarrow>
      \<exists>slot s'. put m s = Inr (Some slot, s') \<and> chan_inv s' \<and> items s' = items s @ [frame m]"
    and put_full: "chan_inv s \<Longrightarrow> length (items s) = cap \<Longrightarrow> put m s = Inr (None, s)"
    and get_item: "chan_inv s \<Longrightarrow> items s \<noteq> [] \<Longrightarrow>
      \<exists>s'. get s = Inr (hd (items s), s') \<and> chan_inv s' \<and> items s' = tl (items s)"
    and ready_iff: "chan_inv s \<Longrightarrow> ready s \<longleftrightarrow> items s \<noteq> []"
    and bounded: "chan_inv s \<Longrightarrow> length (items s) \<le> cap"
begin

lemma run_fifo:
  assumes "chan_inv s" and "\<forall>m. Put m \<in> set xs \<longrightarrow> good m"
  shows "\<exists>acc del s'. channel_run put get ready xs s = Inr (acc, del, s')
    \<and> items s @ map frame acc = del @ items s' \<and> chan_inv s'"
  using assms
proof (induction xs arbitrary: s)
  case (Cons x xs)
  show ?case
  proof (cases x)
    case (Put m)
    show ?thesis
    proof (cases "length (items s) < cap")
      case True
      with Cons.prems Put obtain slot s1 where s1: "put m s = Inr (Some slot, s1)" "chan_inv s1"
        "items s1 = items s @ [frame m]" using put_room by fastforce
      obtain acc del s2 where "channel_run put get ready xs s1 = Inr (acc, del, s2)"
        "items s1 @ map frame acc = del @ items s2" "chan_inv s2"
        using Cons.IH [OF s1(2)] Cons.prems(2) by auto
      with s1 Put show ?thesis by (intro exI [of _ "m # acc"]) simp
    next
      case False
      with bounded [OF Cons.prems(1)] have "put m s = Inr (None, s)"
        by (intro put_full Cons.prems(1)) simp
      with Put Cons.IH [OF Cons.prems(1)] Cons.prems(2) show ?thesis by auto
    qed
  next
    case Get
    show ?thesis
    proof (cases "items s = []")
      case True
      with Get Cons.IH [OF Cons.prems(1)] Cons.prems show ?thesis by (auto simp: ready_iff)
    next
      case False
      with get_item [OF Cons.prems(1)] obtain s1 where s1: "get s = Inr (hd (items s), s1)" "chan_inv s1"
        "items s1 = tl (items s)" by blast
      obtain acc del s2 where "channel_run put get ready xs s1 = Inr (acc, del, s2)"
        "items s1 @ map frame acc = del @ items s2" "chan_inv s2"
        using Cons.IH [OF s1(2)] Cons.prems(2) by auto
      with s1 Get False Cons.prems(1) show ?thesis
        by (cases "items s") (auto simp: ready_iff)
    qed
  qed
qed simp

end

section \<open>Freshly initialised devices\<close>

lemma ready_ring_ok: "ring_ok 0 (ready_device api j devid name dev)"
  using ready_device_buffers [of api j devid name dev]
  by (simp add: ring_ok_def BUFFER_SIZE_def)

lemma ready_channel_ok: "channel_ok (ready_device api j devid name dev)"
  using ready_ring_ok [of api j devid name dev] ring_ok_used(3) [OF ready_ring_ok, of api j devid name dev]
  by (auto simp: channel_ok_def)

lemma ready_frames [simp]: "frames (ready_device api j devid name dev) = []"
  using ring_ok_used(3) [OF ready_ring_ok, of api j devid name dev] by (simp add: frames_def)

text \<open>A message header for the witnesses.\<close>

definition demo_acc :: paxos_accepted where
  "demo_acc = \<lparr>aid = 1, iid = 7, promise_iid = 3, ballot = 5, value_ballot = 5, accepted_pad = 0,
     acc_value = \<lparr>paxos_value_len = 999, value_pad = 0, paxos_value_val = 0xFFFF000000001000\<rparr>\<rparr>"

lemma fresh_block_zero: "junk_byte j = (\<lambda>_. 0) \<Longrightarrow> fresh_block j = replicate 240 0"
  by (simp add: fresh_block_def size_defs map_replicate_const del: upt_rec_numeral)

lemma frame_len_zero: "frame_len (replicate 240 0) = 40"
  by (simp add: frame_len_def accepted_of_image_def rd32_def int_to_size_def size_defs)

end
