(* ===== verification/Write_Persistence.thy ===== *)
theory Write_Persistence
  imports Message_Ring
begin

text \<open>
  \<open>kpaxos/write_persistence_device_operations.c\<close>: the device through which the kernel
  hands accepted messages to the storage process. The kernel side appends a message with
  \<open>write_persistence_add_message\<close>; the storage process polls and reads.
\<close>

section \<open>Operations\<close>

text \<open>A handler's result code, and its effect. \<open>EBUSY\<close> is 16.\<close>

definition write_persistence_open :: "paxos_kernel_device \<Rightarrow> int \<times> paxos_kernel_device" where
  "write_persistence_open dev =
     (if char_mutex dev then (- 16, dev) else (0, dev\<lparr>char_mutex := True\<rparr>))"

text \<open>
  The handler copies the slot number and then the struct with its value, and gives the
  slot up if both copies were complete. The counter is decremented in any case. The
  result is 0 to stop, the size of the message, or -1.
\<close>

definition write_persistence_read ::
  "to_user \<Rightarrow> umem \<Rightarrow> paxos_kernel_device \<Rightarrow> cerror + int \<times> umem \<times> paxos_kernel_device" where
  "write_persistence_read ctu buffer dev =
     (if working dev = 0 then Inr (0, buffer, dev)
      else bindR (load_slot dev (first_buf dev)) (\<lambda>accepted.
        let llen = of_nat sizeof_paxos_accepted + int_to_size (value_len_of accepted);
            (buffer1, error_count_buffer_id) = ctu buffer 0 (le32 (of_nat (first_buf dev)))
        in bindR (mem_get 0 (unat llen) accepted) (\<lambda>src.
           let (buffer2, error_count) = ctu buffer1 4 src;
               dev1 = dev\<lparr>used_buf := used_buf dev - 1\<rparr>
           in if error_count \<noteq> 0 \<or> error_count_buffer_id \<noteq> 0 then Inr (- 1, buffer2, dev1)
              else Inr (sint llen, buffer2, dev1\<lparr>first_buf := next_slot (first_buf dev)\<rparr>))))"

definition write_persistence_write :: "int \<Rightarrow> paxos_kernel_device \<Rightarrow> int" where
  "write_persistence_write len dev = (if working dev = 0 then - 1 else len)"

text \<open>\<open>POLLIN\<close> is 1.\<close>

definition write_persistence_poll :: "paxos_kernel_device \<Rightarrow> int" where
  "write_persistence_poll dev = (if ring_nonempty dev then 1 else 0)"

definition write_persistence_release :: "paxos_kernel_device \<Rightarrow> int \<times> paxos_kernel_device" where
  "write_persistence_release dev =
     (0, dev\<lparr>used_buf := 0, current_buf := 0, first_buf := 0, char_mutex := False\<rparr>)"

text \<open>
  \<open>msg\<close> is the memory behind the pointer the caller passes. The result is NULL when the
  ring is full, and otherwise the callback of the slot, named by its index.
\<close>

definition write_persistence_add_message ::
  "byte list \<Rightarrow> u64 \<Rightarrow> paxos_kernel_device \<Rightarrow> cerror + nat option \<times> paxos_kernel_device" where
  "write_persistence_add_message msg sz dev =
     (if ring_full dev then Inr (None, dev)
      else
        let dev1 = dev\<lparr>used_buf := used_buf dev + 1\<rparr>; cur = current_buf dev;
            limit = of_nat (sizeof_paxos_accepted + MAX_PAXOS_VALUE_SIZE);
            size1 = (if limit < sz then limit else sz)
        in bindR (load_slot dev1 cur) (\<lambda>b0.
           bindR (mem_put 0 (replicate (sizeof_paxos_accepted + MAX_PAXOS_VALUE_SIZE) 0) b0) (\<lambda>b1.
           bindR (mem_get 0 (unat size1) msg) (\<lambda>src.
           bindR (mem_put 0 src b1) (\<lambda>b2.
           bindR (mem_put offset_value_len
                    (le32 (size_to_int (size1 - of_nat sizeof_paxos_accepted))) b2) (\<lambda>b3.
           bindR (store_slot dev1 cur b3) (\<lambda>dev2.
           bindR (load_callback dev2 cur) (\<lambda>cb.
           bindR (store_callback dev2 cur
                    (cb\<lparr>buffer_id := cur, cb_iid := iid (accepted_of_image b3), is_done := 0\<rparr>)) (\<lambda>dev3.
           Inr (Some cur, dev3\<lparr>current_buf := next_slot cur, access_wait := access_wait dev3 + 1\<rparr>))))))))))"

definition createWritePersistenceDevice :: "paxos_kernel_device \<Rightarrow> paxos_kernel_device" where
  "createWritePersistenceDevice dev =
     dev\<lparr>msg_buf := Null, charClass := 0, charDevice := 0, callback_buf := Null,
         fops := Some Write_persistence_fops\<rparr>"

section \<open>What is stored and what is read\<close>

definition write_size :: "u64 \<Rightarrow> nat" where
  "write_size sz = min (unat sz) (sizeof_paxos_accepted + MAX_PAXOS_VALUE_SIZE)"

text \<open>The block that \<open>write_persistence_add_message\<close> leaves in the slot.\<close>

definition write_block :: "byte list \<Rightarrow> u64 \<Rightarrow> byte list" where
  "write_block msg sz =
     (let n = write_size sz; b = take n msg @ replicate (240 - n) 0
      in take 24 b @ le32 (word_of_int (int n - 40)) @ drop 28 b)"

definition write_frame :: "byte list \<times> u64 \<Rightarrow> byte list" where
  "write_frame m = payload (write_block (fst m) (snd m))"

text \<open>A message that the caller may pass: the bytes it announces are there.\<close>

definition write_good :: "byte list \<times> u64 \<Rightarrow> bool" where
  "write_good m \<longleftrightarrow> write_size (snd m) \<le> length (fst m)"

lemma write_size_le: "write_size sz \<le> 240"
  by (simp add: write_size_def size_defs)

lemma length_write_block:
  "write_good (msg, sz) \<Longrightarrow> length (write_block msg sz) = 240"
  using write_size_le [of sz] by (simp add: write_block_def write_good_def Let_def)

lemma size1_eq: "(if 240 < sz then 240 else sz) = (of_nat (write_size sz) :: u64)"
  by (simp add: write_size_def size_defs word_less_nat_alt min_def)

lemma value_len_write_block:
  assumes "write_good (msg, sz)"
  shows "value_len_of (write_block msg sz) = word_of_int (int (write_size sz) - 40)"
proof -
  let ?n = "write_size sz" and ?b = "take (write_size sz) msg @ replicate (240 - write_size sz) 0"
  have l: "length ?b = 240" using assms write_size_le [of sz] by (simp add: write_good_def)
  then have "mem_put offset_value_len (le32 (word_of_int (int ?n - 40))) ?b = Inr (write_block msg sz)"
    by (simp add: mem_put_def size_defs write_block_def Let_def)
  from accepted_of_image_put_len [OF this] l show ?thesis by simp
qed

lemma frame_len_write_block:
  assumes "write_good (msg, sz)"
  shows "frame_len (write_block msg sz) = write_size sz"
proof -
  have "int_to_size (value_len_of (write_block msg sz)) = word_of_int (int (write_size sz) - 40)"
    unfolding value_len_write_block [OF assms]
    using write_size_le [of sz] by (intro int_size_roundtrip) simp_all
  then have "of_nat 40 + int_to_size (value_len_of (write_block msg sz)) = (of_nat (write_size sz) :: u64)"
    by simp
  then show ?thesis
    using write_size_le [of sz] by (simp add: frame_len_def size_defs unat_of_nat64)
qed

lemma write_frame_eq: "write_good (msg, sz) \<Longrightarrow>
  write_frame (msg, sz) = take (write_size sz) (write_block msg sz)"
  by (simp add: write_frame_def payload_def frame_len_write_block)

section \<open>Adding a message\<close>

text \<open>The device after a message was added: block, callback, counter, position, wake-up.\<close>

definition write_added :: "byte list \<Rightarrow> u64 \<Rightarrow> paxos_kernel_device \<Rightarrow> paxos_kernel_device" where
  "write_added msg sz dev =
     (let cur = current_buf dev; b = write_block msg sz;
          cb = (callbacks_of dev ! cur)\<lparr>buffer_id := cur, cb_iid := iid (accepted_of_image b), is_done := 0\<rparr>
      in (with_callbacks ((callbacks_of dev)[cur := cb])
           (with_slots ((slots_of dev)[cur := b]) (dev\<lparr>used_buf := used_buf dev + 1\<rparr>)))
         \<lparr>current_buf := next_slot cur, access_wait := access_wait dev + 1\<rparr>)"

lemma add_message_adds:
  assumes "buffers_ok dev" and "current_buf dev < BUFFER_SIZE" and "\<not> ring_full dev" and "write_good (msg, sz)"
  shows "write_persistence_add_message msg sz dev = Inr (Some (current_buf dev), write_added msg sz dev)"
proof -
  let ?cur = "current_buf dev" and ?d1 = "dev\<lparr>used_buf := used_buf dev + 1\<rparr>"
  let ?n = "write_size sz"
  have b: "buffers_ok ?d1" and cur: "?cur < BUFFER_SIZE" using assms(1,2) by simp_all
  have len: "length (slots_of dev ! ?cur) = 240"
    using load_slot_ok(2) [OF b cur] by (simp add: size_defs)
  have n: "unat (of_nat ?n :: u64) = ?n" "?n \<le> 240" "?n \<le> length msg"
    using write_size_le [of sz] assms(4) by (simp_all add: unat_of_nat64 write_good_def)
  have "of_nat ?n - of_nat 40 = (word_of_int (int ?n - 40) :: u64)" by simp
  then have lw: "size_to_int (of_nat ?n - of_nat 40) = word_of_int (int ?n - 40)"
    by (simp only: size_to_int_of_int)
  have blk: "mem_put 24 (le32 (word_of_int (int ?n - 40))) (take ?n msg @ replicate (240 - ?n) 0)
      = Inr (write_block msg sz)"
    using n by (simp add: mem_put_def write_block_def Let_def)
  have b2: "buffers_ok (with_slots ((slots_of dev)[?cur := write_block msg sz]) ?d1)"
    using with_slots_buffers [OF b, of "write_block msg sz" ?cur] length_write_block [OF assms(4)]
    by (simp add: size_defs)
  show ?thesis
    using assms(3) cur n len lw blk load_slot_ok(1) [OF b cur] load_callback_ok(1) [OF b2 cur]
      store_slot_ok [OF b cur] store_callback_ok [OF b2 cur]
    by (simp add: write_persistence_add_message_def size1_eq size_defs mem_put_ok mem_get_ok
        write_added_def Let_def)
qed

lemma add_message_room:
  assumes "ring_ok n dev" and "n < BUFFER_SIZE" and "write_good (msg, sz)"
  shows "write_persistence_add_message msg sz dev = Inr (Some (current_buf dev), write_added msg sz dev)"
  using assms ring_ok_bounds [OF assms(1)] ring_ok_used(4) [OF assms(1)]
  by (intro add_message_adds) (simp_all add: ring_ok_def)

lemma add_message_full: "ring_full dev \<Longrightarrow> write_persistence_add_message msg sz dev = Inr (None, dev)"
  by (simp add: write_persistence_add_message_def)

lemma write_added_ring:
  assumes "ring_ok n dev" and "n < BUFFER_SIZE" and "write_good (msg, sz)"
  shows "ring_ok (Suc n) (write_added msg sz dev)"
    and "queued (write_added msg sz dev) = queued dev @ [write_block msg sz]"
proof -
  let ?cb = "(callbacks_of dev ! current_buf dev)\<lparr>buffer_id := current_buf dev,
      cb_iid := iid (accepted_of_image (write_block msg sz)), is_done := 0\<rparr>"
  have l: "length (write_block msg sz) = sizeof_paxos_accepted + MAX_PAXOS_VALUE_SIZE"
    using length_write_block [OF assms(3)] by (simp add: size_defs)
  have "callback_ok (callbacks_of dev ! current_buf dev)"
    using assms(1) ring_ok_bounds [OF assms(1)] by (intro load_callback_ok(2)) (simp_all add: ring_ok_def)
  then have c: "callback_ok ?cb" by (simp add: callback_ok_def)
  have eq: "write_added msg sz dev =
      (with_callbacks ((callbacks_of dev)[current_buf dev := ?cb])
        (with_slots ((slots_of dev)[current_buf dev := write_block msg sz]) (dev\<lparr>used_buf := used_buf dev + 1\<rparr>)))
      \<lparr>current_buf := next_slot (current_buf dev), access_wait := access_wait dev + 1\<rparr>"
    by (simp add: write_added_def Let_def)
  show "ring_ok (Suc n) (write_added msg sz dev)"
    and "queued (write_added msg sz dev) = queued dev @ [write_block msg sz]"
    by (rule ring_push [OF assms(1,2) l c eq])+
qed

section \<open>Reading a message\<close>

text \<open>The handler looks at the buffers and the position only, not at the counter.\<close>

lemma read_slot:
  assumes "buffers_ok dev" and "first_buf dev < BUFFER_SIZE" and "working dev \<noteq> 0" and "copy_to_user_ok ctu"
    and "b = slots_of dev ! first_buf dev" and "frame_len b \<le> 240" and "4 + frame_len b \<le> length buffer"
  shows "write_persistence_read ctu buffer dev =
    Inr (int (frame_len b), le32 (of_nat (first_buf dev)) @ payload b @ drop (4 + frame_len b) buffer,
         dev\<lparr>used_buf := used_buf dev - 1, first_buf := next_slot (first_buf dev)\<rparr>)"
proof -
  note slot = load_slot_ok [OF assms(1,2)]
  define L where "L = (of_nat sizeof_paxos_accepted + int_to_size (value_len_of b) :: u64)"
  have L: "unat L = frame_len b" by (simp add: L_def frame_len_def)
  then have s: "sint L = int (frame_len b)"
    using assms(6) by (subst (1) word_nat_cases [of L]) (auto simp: unat_of_nat64 signed_of_nat signed_take_bit_int_eq_self)
  have c1: "ctu buffer 0 (le32 (of_nat (first_buf dev))) = (le32 (of_nat (first_buf dev)) @ drop 4 buffer, 0)"
    using assms(4,7) by (simp add: ctu_done)
  have c2: "ctu (le32 (of_nat (first_buf dev)) @ drop 4 buffer) 4 (payload b) =
      (le32 (of_nat (first_buf dev)) @ payload b @ drop (4 + frame_len b) buffer, 0)"
    using assms(4-7) slot(2) by (simp add: ctu_done payload_def size_defs add.commute [of 4])
  have g: "mem_get 0 (unat L) b = Inr (payload b)"
    using L assms(5,6) slot(2) by (simp add: mem_get_ok payload_def size_defs)
  have "load_slot dev (first_buf dev) = Inr b" using slot(1) assms(5) by simp
  then show ?thesis
    using assms(3) c1 c2 g s by (simp add: write_persistence_read_def flip: L_def)
qed

lemma read_ready:
  assumes "ring_ok n dev" and "0 < n" and "working dev \<noteq> 0" and "copy_to_user_ok ctu"
    and "frame_len (hd (queued dev)) \<le> 240" and "4 + frame_len (hd (queued dev)) \<le> length buffer"
  shows "write_persistence_read ctu buffer dev =
    Inr (int (frame_len (hd (queued dev))),
         le32 (of_nat (first_buf dev)) @ payload (hd (queued dev)) @ drop (4 + frame_len (hd (queued dev))) buffer,
         dev\<lparr>used_buf := used_buf dev - 1, first_buf := next_slot (first_buf dev)\<rparr>)"
  using assms ring_pop(3) [OF assms(1,2) refl] by (intro read_slot) (simp_all add: ring_ok_def)

lemma read_inside:
  assumes "buffers_ok dev" and "first_buf dev < BUFFER_SIZE" and "working dev \<noteq> 0"
    and "frame_len (slots_of dev ! first_buf dev) \<le> 240"
  shows "\<exists>r out dev'. write_persistence_read ctu buffer dev = Inr (r, out, dev')"
proof -
  note slot = load_slot_ok [OF assms(1,2)]
  have "mem_get 0 (frame_len (slots_of dev ! first_buf dev)) (slots_of dev ! first_buf dev)
      = Inr (payload (slots_of dev ! first_buf dev))"
    using assms(4) slot(2) by (simp add: mem_get_ok payload_def size_defs)
  with assms(3) slot(1) show ?thesis
    by (simp add: write_persistence_read_def case_prod_beta Let_def flip: frame_len_def)
qed

lemma read_outside:
  assumes "buffers_ok dev" and "first_buf dev < BUFFER_SIZE" and "working dev \<noteq> 0"
    and "240 < frame_len (slots_of dev ! first_buf dev)"
  shows "write_persistence_read ctu buffer dev = Inl OutOfBounds"
proof -
  note slot = load_slot_ok [OF assms(1,2)]
  have "mem_get 0 (frame_len (slots_of dev ! first_buf dev)) (slots_of dev ! first_buf dev) = Inl OutOfBounds"
    using assms(4) slot(2) by (simp add: mem_get_bad size_defs)
  with assms(3) slot(1) show ?thesis
    by (simp add: write_persistence_read_def case_prod_beta Let_def flip: frame_len_def)
qed

section \<open>The device is a bounded channel\<close>

text \<open>One read by the storage process: the bytes after the slot number.\<close>

definition write_get :: "to_user \<Rightarrow> umem \<Rightarrow> paxos_kernel_device \<Rightarrow> cerror + byte list \<times> paxos_kernel_device" where
  "write_get ctu buffer dev =
     bindR (write_persistence_read ctu buffer dev) (\<lambda>(r, out, dev').
       Inr (take (nat r) (drop 4 out), dev'))"

definition write_put :: "byte list \<times> u64 \<Rightarrow> paxos_kernel_device \<Rightarrow> cerror + nat option \<times> paxos_kernel_device" where
  "write_put m = write_persistence_add_message (fst m) (snd m)"

definition write_inv :: "to_user \<Rightarrow> umem \<Rightarrow> paxos_kernel_device \<Rightarrow> bool" where
  "write_inv ctu buffer dev \<longleftrightarrow> copy_to_user_ok ctu \<and> 244 \<le> length buffer
     \<and> channel_ok dev \<and> working dev \<noteq> 0"

lemma write_put_room:
  assumes "write_inv ctu buffer dev" and "write_good m" and "length (frames dev) < BUFFER_SIZE"
  shows "\<exists>slot dev'. write_put m dev = Inr (Some slot, dev') \<and> write_inv ctu buffer dev'
    \<and> frames dev' = frames dev @ [write_frame m]"
proof -
  obtain msg sz where m: "m = (msg, sz)" by (cases m)
  from assms(1) obtain n where n: "ring_ok n dev" "length (frames dev) = n"
    and fl: "\<And>b. b \<in> set (queued dev) \<Longrightarrow> frame_len b \<le> 240"
    by (auto simp: write_inv_def elim: channel_okE)
  have good: "write_good (msg, sz)" and room: "n < BUFFER_SIZE" using assms(2,3) n(2) m by simp_all
  let ?d = "write_added msg sz dev"
  note added = write_added_ring [OF n(1) room good]
  have "channel_ok ?d"
    using added fl write_size_le [of sz] by (auto simp: channel_ok_def frame_len_write_block [OF good] size_defs)
  moreover have "working ?d = working dev" by (simp add: write_added_def Let_def)
  ultimately have "write_inv ctu buffer ?d" using assms(1) by (simp add: write_inv_def)
  then show ?thesis
    using add_message_room [OF n(1) room good] added(2) m
    by (simp add: write_put_def frames_def write_frame_def)
qed

lemma write_get_slot:
  assumes "buffers_ok dev" and "first_buf dev < BUFFER_SIZE" and "working dev \<noteq> 0" and "copy_to_user_ok ctu"
    and "b = slots_of dev ! first_buf dev" and "frame_len b \<le> 240" and "244 \<le> length buffer"
  shows "write_get ctu buffer dev =
    Inr (payload b, dev\<lparr>used_buf := used_buf dev - 1, first_buf := next_slot (first_buf dev)\<rparr>)"
proof -
  have "length (payload b) = frame_len b"
    using load_slot_ok(2) [OF assms(1,2)] assms(5,6) by (simp add: payload_def size_defs)
  with read_slot [OF assms(1-6), of buffer] assms(6,7) show ?thesis by (simp add: write_get_def)
qed

lemma write_get_item:
  assumes "write_inv ctu buffer dev" and "frames dev \<noteq> []"
  shows "\<exists>dev'. write_get ctu buffer dev = Inr (hd (frames dev), dev') \<and> write_inv ctu buffer dev'
    \<and> frames dev' = tl (frames dev)"
proof -
  from assms(1) obtain n where n: "ring_ok n dev" "length (frames dev) = n"
    and fl: "\<And>b. b \<in> set (queued dev) \<Longrightarrow> frame_len b \<le> 240"
    by (auto simp: write_inv_def elim: channel_okE)
  have pos: "0 < n" using assms(2) n(2) by auto
  let ?d = "dev\<lparr>used_buf := used_buf dev - 1, first_buf := next_slot (first_buf dev)\<rparr>"
  note pop = ring_pop [OF n(1) pos refl]
  have hd: "frame_len (hd (queued dev)) \<le> 240" using fl pop(4) by simp
  have "write_get ctu buffer dev = Inr (payload (hd (queued dev)), ?d)"
    using assms(1) n(1) pop(3) hd by (intro write_get_slot) (simp_all add: write_inv_def ring_ok_def)
  moreover have "channel_ok ?d"
    using pop(1,2) fl by (auto simp: channel_ok_def size_defs dest: list.set_sel(2) [OF pop(4)])
  then have "write_inv ctu buffer ?d" using assms(1) by (simp add: write_inv_def)
  ultimately show ?thesis using pop(2,4) by (simp add: frames_def hd_map map_tl)
qed

interpretation wchan: bounded_channel write_put "write_get ctu buffer" "\<lambda>d. write_persistence_poll d = 1"
    write_good write_frame frames "write_inv ctu buffer" BUFFER_SIZE for ctu buffer
proof unfold_locales
  fix dev m assume "write_inv ctu buffer dev" "length (frames dev) = BUFFER_SIZE"
  then show "write_put m dev = Inr (None, dev)"
    by (auto simp: write_inv_def write_put_def ring_ok_used add_message_full elim!: channel_okE)
next
  fix dev assume "write_inv ctu buffer dev"
  then show "(write_persistence_poll dev = 1) = (frames dev \<noteq> [])"
    by (auto simp: write_inv_def write_persistence_poll_def ring_ok_used elim!: channel_okE)
next
  fix dev assume "write_inv ctu buffer dev"
  then show "length (frames dev) \<le> BUFFER_SIZE" by (auto simp: write_inv_def elim: channel_okE)
qed (blast intro: write_put_room write_get_item)+

section \<open>Properties\<close>

text \<open>An initialised device, for the witnesses.\<close>

definition demo_device :: paxos_kernel_device where
  "demo_device = ready_device demo_api demo_junk 2 ''write-persistence'' (createWritePersistenceDevice zero_device)"

lemma demo_write_inv: "write_inv plain_to_user (replicate 244 0) demo_device"
  by (simp add: write_inv_def demo_device_def ready_channel_ok)

text \<open>C4. The write-persistence device is a bounded first-in first-out channel: from any
  well-formed state, any interleaving of added messages and polled reads runs without an
  out-of-bounds or dangling access, the frames delivered to the storage process followed by
  those still queued are exactly those queued before followed by those of the accepted
  messages, in order, and the device stays well-formed. A message is refused only when all
  1000 slots are in use (and then nothing changes).\<close>

theorem write_device_fifo:
  assumes "write_inv ctu buffer dev" and "\<forall>m. Put m \<in> set xs \<longrightarrow> write_good m"
  shows "\<exists>acc del dev'. channel_run write_put (write_get ctu buffer) (\<lambda>d. write_persistence_poll d = 1) xs dev
      = Inr (acc, del, dev')
    \<and> frames dev @ map write_frame acc = del @ frames dev' \<and> write_inv ctu buffer dev'"
  using assms by (rule wchan.run_fifo)

theorem write_device_fifo_witness:
  "\<exists>acc del dev'. channel_run write_put (write_get plain_to_user (replicate 244 0))
      (\<lambda>d. write_persistence_poll d = 1) [Put (replicate 41 1, 41), Get, Get, Put (replicate 40 2, 40)] demo_device
      = Inr (acc, del, dev') \<and> map write_frame acc = del @ frames dev'"
proof -
  have "\<forall>m. Put m \<in> set [Put (replicate 41 (1::byte), 41::u64), Get, Get, Put (replicate 40 2, 40)] \<longrightarrow> write_good m"
    by (auto simp: write_good_def write_size_def size_defs)
  from write_device_fifo [OF demo_write_inv this] show ?thesis
    by (auto simp: demo_device_def)
qed

lemma write_frame_struct:
  assumes "length v < 2 ^ 31" and "sz = of_nat (40 + length v)"
  shows "write_good (accepted_image a @ v @ rest, sz)
    \<and> write_frame (accepted_image a @ v @ rest, sz) =
        accepted_image (a\<lparr>acc_value := (acc_value a)\<lparr>paxos_value_len := of_nat (min 200 (length v))\<rparr>\<rparr>)
        @ take 200 v"
proof -
  let ?msg = "accepted_image a @ v @ rest" and ?n = "40 + min 200 (length v)"
  let ?w = "of_nat (min 200 (length v)) :: u32"
  have "unat sz = 40 + length v"
    unfolding assms(2) using assms(1) by (intro unat_of_nat64) simp
  then have sz: "write_size sz = ?n" by (simp add: write_size_def size_defs min_def)
  then have good: "write_good (?msg, sz)" by (simp add: write_good_def)
  have w: "word_of_int (int ?n - 40) = ?w" by simp
  have blk: "write_block ?msg sz = take 24 (accepted_image a) @ le32 ?w @ drop 28 (accepted_image a)
      @ take (min 200 (length v)) (v @ rest) @ replicate (200 - min 200 (length v)) 0"
    unfolding write_block_def Let_def sz w by simp
  have "accepted_of_image (take 24 (accepted_image a) @ le32 ?w @ drop 28 (accepted_image a)) =
      a\<lparr>acc_value := (acc_value a)\<lparr>paxos_value_len := ?w\<rparr>\<rparr>"
    using accepted_of_image_put_len [of ?w "accepted_image a"] by (simp add: mem_put_def size_defs)
  then have "accepted_image (a\<lparr>acc_value := (acc_value a)\<lparr>paxos_value_len := ?w\<rparr>\<rparr>) =
      take 24 (accepted_image a) @ le32 ?w @ drop 28 (accepted_image a)"
    using accepted_image_of_image [of "take 24 (accepted_image a) @ le32 ?w @ drop 28 (accepted_image a)"]
    by simp
  moreover have "take (min 200 (length v)) (v @ rest) = take 200 v" by (simp add: min_def)
  ultimately show ?thesis using good by (simp add: write_frame_eq sz blk)
qed



text \<open>A message of any size, even one shorter than the struct, is delivered with exactly
  the bytes that were stored, at most 240: the negative length that a short message leaves in
  the length field cancels out in the reader's size computation, so no read leaves the block.\<close>

lemma write_frame_size:
  assumes "write_good (msg, sz)"
  shows "length (write_frame (msg, sz)) = min (unat sz) 240
    \<and> value_len_of (write_block msg sz) = word_of_int (int (min (unat sz) 240) - 40)"
  using assms write_size_le [of sz]
  by (simp add: write_frame_eq length_write_block value_len_write_block)
     (simp add: write_size_def size_defs)

text \<open>C30. A read whose user buffer is not mapped far enough returns -1, but it decrements the
  counter of used slots without giving up the slot it read: the newest message drops out
  of the ring, the oldest stays, and the ring is no longer well-formed for any number of
  messages, since the next free slot is one past the end of the counted ones.\<close>

theorem write_read_fault_corrupts:
  assumes "ring_ok n dev" and "0 < n" and "working dev \<noteq> 0" and "copy_to_user_ok ctu"
    and "frame_len (hd (queued dev)) \<le> 240" and "length buffer < 4 + frame_len (hd (queued dev))"
  shows "\<exists>out dev'. write_persistence_read ctu buffer dev = Inr (- 1, out, dev')
    \<and> queued dev' = butlast (queued dev) \<and> current_buf dev' = (first_buf dev' + n) mod BUFFER_SIZE
    \<and> \<not> ring_ok (n - 1) dev'"
proof -
  let ?b = "slots_of dev ! first_buf dev" and ?d = "dev\<lparr>used_buf := used_buf dev - 1\<rparr>"
  have bo: "buffers_ok dev" and f: "first_buf dev < BUFFER_SIZE" and nle: "n \<le> BUFFER_SIZE"
    and cur: "current_buf dev = (first_buf dev + n) mod BUFFER_SIZE" and used: "used_buf dev = of_nat n"
    using assms(1) by (simp_all add: ring_ok_def)
  note slot = load_slot_ok [OF bo f]
  have hd: "hd (queued dev) = ?b" using ring_pop(3) [OF assms(1,2) refl] .
  have g: "mem_get 0 (frame_len ?b) ?b = Inr (payload ?b)"
    using assms(5) slot(2) hd by (simp add: mem_get_ok payload_def size_defs)
  have lp: "length (payload ?b) = frame_len ?b"
    using assms(5) slot(2) hd by (simp add: payload_def size_defs)
  define u1 where "u1 = fst (ctu buffer 0 (le32 (of_nat (first_buf dev))))"
  have "length u1 = length buffer" using ctu_length [OF assms(4)] by (simp add: u1_def)
  then have "snd (ctu u1 4 (payload ?b)) \<noteq> 0" using assms(6) lp hd by (intro ctu_fault [OF assms(4)]) simp
  then have r: "\<exists>out. write_persistence_read ctu buffer dev = Inr (- 1, out, ?d)"
    using assms(3) slot(1) g
    by (simp add: write_persistence_read_def case_prod_beta Let_def flip: frame_len_def u1_def)
  have "used_buf ?d = of_nat (n - 1)" using assms(2) used by (simp add: of_nat_diff)
  then have u: "unat (used_buf ?d) = n - 1"
    using nle by (simp only:) (intro unat_of_nat32, simp add: BUFFER_SIZE_def)
  have "queued ?d = butlast (queued dev)"
    using assms(2) u ring_ok_used(1) [OF assms(1)]
    by (cases n) (simp_all add: queued_def ring_window_def)
  moreover have "\<not> ring_ok (n - 1) ?d"
    using assms(2) cur ring_slot_distinct [of "n - 1" n BUFFER_SIZE "first_buf dev"]
    by (auto simp: ring_ok_def BUFFER_SIZE_def)
  ultimately show ?thesis using r cur by auto
qed

theorem write_read_fault_corrupts_witness:
  "\<exists>out dev'. write_persistence_read plain_to_user [] (write_added (replicate 40 1) 40 demo_device)
     = Inr (- 1, out, dev') \<and> queued dev' = [] \<and> \<not> ring_ok 0 dev'"
proof -
  have g: "write_good (replicate 40 (1::byte), 40)" by (simp add: write_good_def write_size_def size_defs)
  have r0: "ring_ok 0 demo_device" by (simp add: demo_device_def ready_ring_ok)
  have z: "(0::nat) < BUFFER_SIZE" by (simp add: BUFFER_SIZE_def)
  note a = write_added_ring [OF r0 z g]
  have q: "queued (write_added (replicate 40 1) 40 demo_device) = [write_block (replicate 40 1) 40]"
    using a(2) ring_ok_used(3) [OF r0] by simp
  have fl: "frame_len (write_block (replicate 40 1) 40) = 40"
    using frame_len_write_block [OF g] by (simp add: write_size_def size_defs)
  have "working (write_added (replicate 40 1) 40 demo_device) \<noteq> 0"
    by (simp add: write_added_def Let_def demo_device_def)
  with write_read_fault_corrupts [OF a(1), of plain_to_user "[]"] q fl show ?thesis by auto
qed

text \<open>Reading a ring that is empty does not fail: it delivers the stale block of the next
  slot and takes the counter to -1, so that the message added after it leaves the counter at
  0 and the device reports nothing to read.\<close>

lemma write_read_empty_hides_next:
  assumes "ring_ok 0 dev" and "working dev \<noteq> 0" and "copy_to_user_ok ctu"
    and "write_persistence_read ctu buffer dev = Inr (r, out, dev')" and "write_good (msg, sz)"
  shows "used_buf dev' = - 1
    \<and> (\<exists>dev''. write_persistence_add_message msg sz dev' = Inr (Some (current_buf dev), dev'')
         \<and> write_persistence_poll dev'' = 0)"
proof -
  have bo: "buffers_ok dev" and f: "first_buf dev < BUFFER_SIZE" and used: "used_buf dev = 0"
    and cur: "current_buf dev < BUFFER_SIZE"
    using assms(1) ring_ok_bounds [OF assms(1)] by (simp_all add: ring_ok_def)
  from assms(2,4) have "used_buf dev' = used_buf dev - 1 \<and> current_buf dev' = current_buf dev
      \<and> buffers_ok dev'"
    using bo by (auto simp: write_persistence_read_def bindR_eq_Inr Let_def case_prod_beta split: if_splits)
  with used have d': "used_buf dev' = - 1" "current_buf dev' = current_buf dev" "buffers_ok dev'"
    by simp_all
  then have "write_persistence_add_message msg sz dev' = Inr (Some (current_buf dev), write_added msg sz dev')"
    using cur assms(5) by (subst add_message_adds) (simp_all add: ring_full_def)
  with d' show ?thesis
    by (simp add: write_persistence_poll_def ring_nonempty_def write_added_def Let_def)
qed

lemma demo_slots: "slots_of demo_device = replicate BUFFER_SIZE (replicate 240 0)"
  by (simp add: demo_device_def fresh_block_zero demo_junk_def)

text \<open>Reading trusts the length field of the block, whoever wrote it: in a well-formed
  device the read stays inside the kernel's memory exactly when the length field, as the
  code computes with it, keeps the message inside its 240-byte block. For queued messages
  this always holds; for a slot never written the field is whatever \<open>kmalloc\<close> returned.\<close>

lemma write_read_bounds:
  assumes "buffers_ok dev" and "first_buf dev < BUFFER_SIZE" and "working dev \<noteq> 0"
  shows "if frame_len (slots_of dev ! first_buf dev) \<le> 240
      then \<exists>r out dev'. write_persistence_read ctu buffer dev = Inr (r, out, dev')
      else write_persistence_read ctu buffer dev = Inl OutOfBounds"
  using read_inside [OF assms, of ctu buffer] read_outside [OF assms, of ctu buffer] by simp

text \<open>A device whose memory held \<open>0x7f\<close> bytes when it was allocated.\<close>

definition stale_device :: paxos_kernel_device where
  "stale_device = ready_device demo_api (demo_junk\<lparr>junk_byte := (\<lambda>_. 0x7F)\<rparr>) 2 ''write-persistence''
     (createWritePersistenceDevice zero_device)"

text \<open>Opening is exclusive: while one process has the device open, every other open is
  refused with \<open>-EBUSY\<close> and changes nothing; closing it empties the ring, whatever was in it,
  leaves a well-formed device, and lets the next open succeed.\<close>

lemma write_open_release:
  assumes "buffers_ok dev" and "write_persistence_open dev = (0, dev1)"
  shows "write_persistence_open dev1 = (- 16, dev1)
    \<and> (\<exists>dev2. write_persistence_release dev1 = (0, dev2) \<and> ring_ok 0 dev2 \<and> channel_ok dev2
         \<and> frames dev2 = [] \<and> fst (write_persistence_open dev2) = 0)"
proof -
  let ?d2 = "snd (write_persistence_release dev1)"
  from assms(2) have d1: "dev1 = dev\<lparr>char_mutex := True\<rparr>"
    by (auto simp: write_persistence_open_def split: if_splits)
  then have r: "ring_ok 0 ?d2"
    using assms(1) by (simp add: write_persistence_release_def ring_ok_def BUFFER_SIZE_def)
  then have "queued ?d2 = []" using ring_ok_used(3) [OF r] by simp
  with r d1 show ?thesis
    by (auto simp: write_persistence_open_def write_persistence_release_def channel_ok_def frames_def)
qed

text \<open>Shutting down an idle device wakes a polling reader and stops it: after
  \<open>kdevchar_exit\<close> the device polls as readable although its ring was empty, and a read returns
  0, the stop code, without touching the freed buffers.\<close>

lemma exit_stops_reader:
  assumes "ring_ok n dev" and "n < BUFFER_SIZE" and "kdevchar_exit dev e = Inr (dev', e')"
  shows "write_persistence_poll dev' = 1 \<and> access_wait dev' = access_wait dev + 1
    \<and> write_persistence_read ctu buffer dev' = Inr (0, buffer, dev')"
proof -
  have used: "used_buf dev' = of_nat (Suc n)" and "working dev' = 0" and "access_wait dev' = access_wait dev + 1"
    using kdevchar_exit_fields [OF assms(3)] assms(1) by (simp_all add: ring_ok_def)
  moreover have "sint (of_nat (Suc n) :: u32) = int (Suc n)"
    using assms(2) by (intro sint_of_nat32) (simp add: BUFFER_SIZE_def)
  ultimately show ?thesis
    by (simp add: write_persistence_poll_def ring_nonempty_def write_persistence_read_def del: of_nat_Suc)
qed

end
