(* ===== verification/Write_Test.thy ===== *)
theory Write_Test
  imports Write_Persistence
begin

text \<open>
  \<open>kpaxos/write_test_device_operations.c\<close>: the device a test program writes messages to.
  A write is handed on to the write-persistence device; the two devices are the two state
  arguments of the handler.
\<close>

section \<open>Operations\<close>

definition write_test_open :: "paxos_kernel_device \<Rightarrow> int \<times> paxos_kernel_device" where
  "write_test_open dev = (if char_mutex dev then (- 16, dev) else (0, dev\<lparr>char_mutex := True\<rparr>))"

definition write_test_read :: "u64 \<Rightarrow> paxos_kernel_device \<Rightarrow> int" where
  "write_test_read len dev = (if working dev = 0 then - 1 else sint len)"

text \<open>The user's pointer is handed to the persistence device as it is.\<close>

definition write_test_write ::
  "umem \<Rightarrow> u64 \<Rightarrow> paxos_kernel_device \<Rightarrow> paxos_kernel_device \<Rightarrow> cerror + int \<times> paxos_kernel_device" where
  "write_test_write buffer len dev persistence =
     (if working dev = 0 then Inr (- 1, persistence)
      else bindR (write_persistence_add_message buffer len persistence) (\<lambda>(callback, persistence').
        if callback = None then Inr (sint len, persistence')
        else Inr (sint len, persistence')))"

definition write_test_poll :: "paxos_kernel_device \<Rightarrow> int" where
  "write_test_poll dev = (if ring_nonempty dev then 1 else 0)"

definition write_test_release :: "paxos_kernel_device \<Rightarrow> int \<times> paxos_kernel_device" where
  "write_test_release dev = (0, dev\<lparr>char_mutex := False, used_buf := 1\<rparr>)"

definition WRITE_TEST_N_THREADS :: nat where
  "WRITE_TEST_N_THREADS = 10"

definition createWriteTestDevice ::
  "paxos_kernel_device \<Rightarrow> kenv \<Rightarrow> cerror + paxos_kernel_device \<times> kenv" where
  "createWriteTestDevice dev e =
     bindR (create_pool WRITE_TEST_N_THREADS e) (\<lambda>(p, e').
       Inr (dev\<lparr>msg_buf := Null, charClass := 0, charDevice := 0, fops := Some Write_test_fops, pool := p\<rparr>, e'))"

text \<open>A test program's writes, one after the other, with the results they return.\<close>

primrec write_test_writes ::
  "(umem \<times> u64) list \<Rightarrow> paxos_kernel_device \<Rightarrow> paxos_kernel_device
   \<Rightarrow> cerror + int list \<times> paxos_kernel_device" where
  "write_test_writes [] dev persistence = Inr ([], persistence)"
| "write_test_writes (m # ms) dev persistence =
     bindR (write_test_write (fst m) (snd m) dev persistence) (\<lambda>(r, persistence1).
     bindR (write_test_writes ms dev persistence1) (\<lambda>(rs, persistence2). Inr (r # rs, persistence2)))"

section \<open>What the writes do to the persistence device\<close>

lemma write_test_write_room:
  assumes "ring_ok n p" and "n < BUFFER_SIZE" and "write_good (msg, sz)" and "working dev \<noteq> 0"
  shows "write_test_write msg sz dev p = Inr (sint sz, write_added msg sz p)"
  using assms by (simp add: write_test_write_def add_message_room)

lemma write_test_write_full:
  assumes "ring_ok BUFFER_SIZE p" and "working dev \<noteq> 0"
  shows "write_test_write msg sz dev p = Inr (sint sz, p)"
  using assms ring_ok_used(4) [OF assms(1)] by (simp add: write_test_write_def add_message_full)

lemma writes_full:
  assumes "ring_ok BUFFER_SIZE p" and "working dev \<noteq> 0"
  shows "write_test_writes ms dev p = Inr (map (\<lambda>m. sint (snd m)) ms, p)"
  by (induction ms) (simp_all add: write_test_write_full [OF assms])

section \<open>Properties\<close>

text \<open>A test program cannot tell a stored message from a lost one: as many of its messages
  as there are free slots are queued, in order, the others are dropped, and every write
  returns its full length.\<close>

lemma test_writes_lost_silently:
  assumes "ring_ok n p" and "working dev \<noteq> 0" and "\<forall>m \<in> set ms. write_good m"
  shows "\<exists>p'. write_test_writes ms dev p = Inr (map (\<lambda>m. sint (snd m)) ms, p')
    \<and> frames p' = frames p @ map write_frame (take (BUFFER_SIZE - n) ms)
    \<and> ring_ok (min BUFFER_SIZE (n + length ms)) p'"
  using assms(1,3)
proof (induction ms arbitrary: n p)
  case Nil
  then have "n \<le> BUFFER_SIZE" by (simp add: ring_ok_def)
  with Nil show ?case by simp
next
  case (Cons m ms)
  obtain msg sz where m: "m = (msg, sz)" by (cases m)
  from Cons.prems(2) m have good: "write_good (msg, sz)" and rest: "\<forall>m \<in> set ms. write_good m" by simp_all
  show ?case
  proof (cases "n < BUFFER_SIZE")
    case True
    note a = write_added_ring [OF Cons.prems(1) True good]
    have f: "frames (write_added msg sz p) = frames p @ [write_frame m]"
      using a(2) m by (simp add: frames_def write_frame_def)
    obtain k where k: "BUFFER_SIZE - n = Suc k" "BUFFER_SIZE - Suc n = k" using True by (cases "BUFFER_SIZE - n") auto
    from Cons.IH [OF a(1) rest] f k m write_test_write_room [OF Cons.prems(1) True good assms(2)]
    show ?thesis by auto
  next
    case False
    with Cons.prems(1) have n: "n = BUFFER_SIZE" by (simp add: ring_ok_def)
    with Cons.prems(1) have full: "ring_ok BUFFER_SIZE p" by simp
    show ?thesis
      using writes_full [OF full assms(2), of "m # ms"] full n
      by (simp del: write_test_writes.simps)
  qed
qed

text \<open>Closing the write-test device leaves it polling as readable for good: nothing is
  ever queued on it, its read handler delivers no byte, and no later open or write takes the
  mark away.\<close>

lemma write_test_release_readable:
  assumes "write_test_release dev = (r, dev')" and "write_test_open dev' = (r', dev'')"
  shows "write_test_poll dev' = 1 \<and> write_test_poll dev'' = 1 \<and> r' = 0"
  using assms by (auto simp: write_test_release_def write_test_open_def write_test_poll_def ring_nonempty_def)

end
