(* ===== verification/Read_Persistence.thy ===== *)
theory Read_Persistence
  imports Message_Ring
begin

text \<open>
  \<open>kpaxos/read_persistence_device_operations.c\<close>: the device through which the kernel asks
  the storage process for a stored message. A query is appended with
  \<open>read_persistence_add_message\<close>; the storage process reads it and writes its answer back,
  which fills the response of the query's callback, wakes the waiting worker and gives the
  slot up.
\<close>

section \<open>Operations\<close>

definition read_persistence_open :: "paxos_kernel_device \<Rightarrow> int \<times> paxos_kernel_device" where
  "read_persistence_open dev =
     (if char_mutex dev then (- 16, dev) else (0, dev\<lparr>char_mutex := True\<rparr>))"

text \<open>The device is not changed: the slot is given up by the answer.\<close>

definition read_persistence_read ::
  "to_user \<Rightarrow> umem \<Rightarrow> paxos_kernel_device \<Rightarrow> cerror + int \<times> umem" where
  "read_persistence_read ctu buffer dev =
     (if working dev = 0 then Inr (0, buffer)
      else bindR (load_slot dev (first_buf dev)) (\<lambda>b.
        let llen = of_nat sizeof_paxos_accepted + int_to_size (value_len_of b);
            (buffer1, error_count_buffer_id) = ctu buffer 0 (le32 (of_nat (first_buf dev)))
        in bindR (mem_get 0 (unat llen) b) (\<lambda>src.
           let (buffer2, error_count_accepted) = ctu buffer1 4 src; llen1 = llen + 4
           in if error_count_accepted \<noteq> 0 \<or> error_count_buffer_id \<noteq> 0 then Inr (- 1, buffer2)
              else Inr (sint llen1, buffer2))))"

text \<open>
  The answer is a slot number, a struct and a value. The response object is cleared first
  and then overwritten in two copies; its value pointer is kept. The last part of the
  handler (\<open>finish\<close>) runs once the struct and the value are copied.
\<close>

definition set_response ::
  "paxos_kernel_device \<Rightarrow> nat \<Rightarrow> accepted_obj \<Rightarrow> cerror + paxos_kernel_device" where
  "set_response dev i r =
     bindR (load_callback dev i) (\<lambda>cb. store_callback dev i (cb\<lparr>response := Live r\<rparr>))"

definition read_write_finish ::
  "int \<Rightarrow> nat \<Rightarrow> nat \<Rightarrow> paxos_kernel_device \<Rightarrow> cerror + int \<times> paxos_kernel_device" where
  "read_write_finish len i error_count_value dev =
     (let dev1 = dev\<lparr>first_buf := next_slot (first_buf dev), used_buf := used_buf dev - 1\<rparr>
      in if error_count_value \<noteq> 0 then Inr (- 1, dev1)
         else bindR (load_callback dev1 i) (\<lambda>cb.
              if is_done cb = 0
              then bindR (store_callback dev1 i (cb\<lparr>response_wait := response_wait cb + 1\<rparr>)) (\<lambda>dev2.
                   Inr (len, dev2))
              else Inr (len, dev1)))"

definition read_persistence_write ::
  "from_user \<Rightarrow> umem \<Rightarrow> int \<Rightarrow> paxos_kernel_device \<Rightarrow> cerror + int \<times> paxos_kernel_device" where
  "read_persistence_write cfu buffer len dev =
     (if working dev = 0 then Inr (- 1, dev)
      else let (id_bytes, error_count_buffer_id) = cfu buffer 0 4
      in if error_count_buffer_id \<noteq> 0 then Inr (- 1, dev)
      else let idx = sint (rd32 id_bytes); i = nat idx
      in bindR (if idx < 0 then Inl OutOfBounds else load_callback dev i) (\<lambda>cb.
         bindR (deref (response cb)) (\<lambda>r0.
         bindR (clearPaxosAccepted r0) (\<lambda>r1.
         let paxos_val = paxos_value_val (acc_value (obj_acc r1));
             (img, error_count_accepted) = cfu buffer 4 sizeof_paxos_accepted;
             a0 = accepted_of_image img;
             a = a0\<lparr>acc_value := (acc_value a0)\<lparr>paxos_value_val := paxos_val\<rparr>\<rparr>;
             r2 = r1\<lparr>obj_acc := a\<rparr>
         in bindR (set_response dev i r2) (\<lambda>dev1.
            if error_count_accepted \<noteq> 0 then Inr (- 1, dev1)
            else if 0 < sint (paxos_value_len (acc_value a))
            then let (v, error_count_value) = cfu buffer (4 + sizeof_paxos_accepted)
                       (unat (int_to_size (paxos_value_len (acc_value a))))
                 in bindR (deref (obj_val r2)) (\<lambda>blk. bindR (mem_put 0 v blk) (\<lambda>blk'.
                    bindR (set_response dev1 i (r2\<lparr>obj_val := Live blk'\<rparr>)) (\<lambda>dev2.
                    read_write_finish len i error_count_value dev2)))
            else read_write_finish len i 0 dev1)))))"

definition read_persistence_poll :: "paxos_kernel_device \<Rightarrow> int" where
  "read_persistence_poll dev = (if ring_nonempty dev then 1 else 0)"

definition read_persistence_release :: "paxos_kernel_device \<Rightarrow> int \<times> paxos_kernel_device" where
  "read_persistence_release dev =
     (0, dev\<lparr>char_mutex := False, used_buf := 0, current_buf := 0, first_buf := 0\<rparr>)"

text \<open>Unlike the write device, the message is copied without a look at its size.\<close>

definition read_persistence_add_message ::
  "byte list \<Rightarrow> u64 \<Rightarrow> paxos_kernel_device \<Rightarrow> cerror + nat option \<times> paxos_kernel_device" where
  "read_persistence_add_message msg sz dev =
     (if ring_full dev then Inr (None, dev)
      else
        let dev1 = dev\<lparr>used_buf := used_buf dev + 1\<rparr>; cur = current_buf dev
        in bindR (load_slot dev1 cur) (\<lambda>b0.
           bindR (mem_put 0 (replicate sizeof_paxos_accepted 0) b0) (\<lambda>b1.
           bindR (mem_get 0 (unat sz) msg) (\<lambda>src.
           bindR (mem_put 0 src b1) (\<lambda>b2.
           bindR (store_slot dev1 cur b2) (\<lambda>dev2.
           bindR (load_callback dev2 cur) (\<lambda>cb.
           bindR (store_callback dev2 cur
                    (cb\<lparr>buffer_id := cur, cb_iid := iid (accepted_of_image b2), is_done := 0\<rparr>)) (\<lambda>dev3.
           Inr (Some cur, dev3\<lparr>current_buf := next_slot cur, access_wait := access_wait dev3 + 1\<rparr>)))))))))"

definition createReadPersistenceDevice :: "paxos_kernel_device \<Rightarrow> paxos_kernel_device" where
  "createReadPersistenceDevice dev =
     dev\<lparr>msg_buf := Null, charClass := 0, charDevice := 0, callback_buf := Null,
         fops := Some Read_persistence_fops\<rparr>"

section \<open>Adding a query\<close>

definition read_block :: "byte list \<Rightarrow> u64 \<Rightarrow> byte list \<Rightarrow> byte list" where
  "read_block msg sz b0 =
     take (unat sz) msg @ replicate (40 - unat sz) 0 @ drop (max 40 (unat sz)) b0"

definition read_added :: "byte list \<Rightarrow> u64 \<Rightarrow> paxos_kernel_device \<Rightarrow> paxos_kernel_device" where
  "read_added msg sz dev =
     (let cur = current_buf dev; b = read_block msg sz (slots_of dev ! cur);
          cb = (callbacks_of dev ! cur)\<lparr>buffer_id := cur, cb_iid := iid (accepted_of_image b), is_done := 0\<rparr>
      in (with_callbacks ((callbacks_of dev)[cur := cb])
           (with_slots ((slots_of dev)[cur := b]) (dev\<lparr>used_buf := used_buf dev + 1\<rparr>)))
         \<lparr>current_buf := next_slot cur, access_wait := access_wait dev + 1\<rparr>)"

lemma read_add_adds:
  assumes "buffers_ok dev" and "current_buf dev < BUFFER_SIZE" and "\<not> ring_full dev"
    and "unat sz \<le> length msg" and "unat sz \<le> 240"
  shows "read_persistence_add_message msg sz dev = Inr (Some (current_buf dev), read_added msg sz dev)"
    and "length (read_block msg sz (slots_of dev ! current_buf dev)) = 240"
proof -
  let ?cur = "current_buf dev" and ?d1 = "dev\<lparr>used_buf := used_buf dev + 1\<rparr>"
  let ?b = "read_block msg sz (slots_of dev ! ?cur)"
  have b: "buffers_ok ?d1" and cur: "?cur < BUFFER_SIZE" using assms(1,2) by simp_all
  have len: "length (slots_of dev ! ?cur) = 240"
    using load_slot_ok(2) [OF b cur] by (simp add: size_defs)
  show lb: "length ?b = 240" using assms(4,5) len by (simp add: read_block_def)
  have m1: "mem_put 0 (replicate 40 0) (slots_of dev ! ?cur) = Inr (replicate 40 0 @ drop 40 (slots_of dev ! ?cur))"
    using len by (simp add: mem_put_ok)
  have m2: "mem_put 0 (take (unat sz) msg) (replicate 40 0 @ drop 40 (slots_of dev ! ?cur)) = Inr ?b"
    using assms(4,5) len by (simp add: mem_put_ok read_block_def max_def)
  have b2: "buffers_ok (with_slots ((slots_of dev)[?cur := ?b]) ?d1)"
    using with_slots_buffers [OF b, of ?b ?cur] lb by (simp add: size_defs)
  show "read_persistence_add_message msg sz dev = Inr (Some ?cur, read_added msg sz dev)"
    using assms(3,4) cur m1 m2 load_slot_ok(1) [OF b cur] load_callback_ok(1) [OF b2 cur]
      store_slot_ok [OF b cur] store_callback_ok [OF b2 cur]
    by (simp add: read_persistence_add_message_def size_defs mem_get_ok read_added_def Let_def)
qed

lemma read_add_overflow:
  assumes "buffers_ok dev" and "current_buf dev < BUFFER_SIZE" and "\<not> ring_full dev"
    and "unat sz \<le> length msg" and "240 < unat sz"
  shows "read_persistence_add_message msg sz dev = Inl OutOfBounds"
proof -
  let ?cur = "current_buf dev" and ?d1 = "dev\<lparr>used_buf := used_buf dev + 1\<rparr>"
  have b: "buffers_ok ?d1" and cur: "?cur < BUFFER_SIZE" using assms(1,2) by simp_all
  have len: "length (slots_of dev ! ?cur) = 240"
    using load_slot_ok(2) [OF b cur] by (simp add: size_defs)
  show ?thesis
    using assms(3-5) cur len load_slot_ok(1) [OF b cur]
    by (simp add: read_persistence_add_message_def size_defs mem_put_ok mem_get_ok mem_put_bad Let_def)
qed

lemma read_add_full: "ring_full dev \<Longrightarrow> read_persistence_add_message msg sz dev = Inr (None, dev)"
  by (simp add: read_persistence_add_message_def)

text \<open>
  A query the kernel may add: a struct with as much of a value as its length field says,
  no more than a block holds.
\<close>

definition read_good :: "byte list \<times> u64 \<Rightarrow> bool" where
  "read_good m \<longleftrightarrow> 40 \<le> unat (snd m) \<and> unat (snd m) \<le> 240 \<and> unat (snd m) \<le> length (fst m)
     \<and> frame_len (fst m) \<le> unat (snd m)"

lemma read_block_frame:
  assumes "read_good (msg, sz)"
  shows "frame_len (read_block msg sz b0) = frame_len msg"
    and "payload (read_block msg sz b0) = payload msg"
    and "accepted_of_image (read_block msg sz b0) = accepted_of_image msg"
proof -
  have "accepted_of_image (take 40 (read_block msg sz b0)) = accepted_of_image (take 40 msg)"
    using assms by (simp add: read_good_def read_block_def min_def)
  then show a: "accepted_of_image (read_block msg sz b0) = accepted_of_image msg"
    by (simp add: accepted_of_image_take)
  then show f: "frame_len (read_block msg sz b0) = frame_len msg" by (simp add: frame_len_def)
  show "payload (read_block msg sz b0) = payload msg"
    unfolding payload_def f using assms by (simp add: read_good_def read_block_def min_def)
qed

lemma read_added_ring:
  assumes "ring_ok n dev" and "n < BUFFER_SIZE" and "read_good (msg, sz)"
  shows "ring_ok (Suc n) (read_added msg sz dev)"
    and "queued (read_added msg sz dev) = queued dev @ [read_block msg sz (slots_of dev ! current_buf dev)]"
    and "read_persistence_add_message msg sz dev = Inr (Some (current_buf dev), read_added msg sz dev)"
proof -
  let ?b = "read_block msg sz (slots_of dev ! current_buf dev)"
  let ?cb = "(callbacks_of dev ! current_buf dev)\<lparr>buffer_id := current_buf dev,
      cb_iid := iid (accepted_of_image ?b), is_done := 0\<rparr>"
  have b: "buffers_ok dev" and cur: "current_buf dev < BUFFER_SIZE" and nf: "\<not> ring_full dev"
    using assms(1,2) ring_ok_bounds [OF assms(1)] ring_ok_used(4) [OF assms(1)] by (simp_all add: ring_ok_def)
  have sz: "unat sz \<le> length msg" "unat sz \<le> 240" using assms(3) by (simp_all add: read_good_def)
  note adds = read_add_adds [OF b cur nf sz]
  then have l: "length ?b = sizeof_paxos_accepted + MAX_PAXOS_VALUE_SIZE" by (simp add: size_defs)
  have "callback_ok (callbacks_of dev ! current_buf dev)" using b cur by (rule load_callback_ok(2))
  then have c: "callback_ok ?cb" by (simp add: callback_ok_def)
  have eq: "read_added msg sz dev =
      (with_callbacks ((callbacks_of dev)[current_buf dev := ?cb])
        (with_slots ((slots_of dev)[current_buf dev := ?b]) (dev\<lparr>used_buf := used_buf dev + 1\<rparr>)))
      \<lparr>current_buf := next_slot (current_buf dev), access_wait := access_wait dev + 1\<rparr>"
    by (simp add: read_added_def Let_def)
  show "ring_ok (Suc n) (read_added msg sz dev)" and "queued (read_added msg sz dev) = queued dev @ [?b]"
    by (rule ring_push [OF assms(1,2) l c eq])+
  show "read_persistence_add_message msg sz dev = Inr (Some (current_buf dev), read_added msg sz dev)"
    by (rule adds(1))
qed

section \<open>Reading a query\<close>

lemma read_persistence_read_ready:
  assumes "ring_ok n dev" and "0 < n" and "working dev \<noteq> 0" and "copy_to_user_ok ctu"
    and "frame_len (hd (queued dev)) \<le> 240" and "4 + frame_len (hd (queued dev)) \<le> length buffer"
  shows "read_persistence_read ctu buffer dev =
    Inr (int (frame_len (hd (queued dev))) + 4,
         le32 (of_nat (first_buf dev)) @ payload (hd (queued dev)) @ drop (4 + frame_len (hd (queued dev))) buffer)"
proof -
  let ?b = "slots_of dev ! first_buf dev"
  have hd: "hd (queued dev) = ?b" using ring_pop(3) [OF assms(1,2) refl] .
  have bo: "buffers_ok dev" and f: "first_buf dev < BUFFER_SIZE"
    using assms(1) by (simp_all add: ring_ok_def)
  note slot = load_slot_ok [OF bo f]
  define L where "L = (of_nat sizeof_paxos_accepted + int_to_size (value_len_of ?b) :: u64)"
  have L: "L = of_nat (frame_len ?b)" by (simp add: L_def frame_len_def)
  have le: "frame_len ?b \<le> 240" using assms(5) hd by simp
  have L4: "L + 4 = of_nat (frame_len ?b + 4)" by (simp add: L)
  have "sint (of_nat (frame_len ?b + 4) :: u64) = int (frame_len ?b + 4)"
    using le by (subst signed_of_nat) (simp add: signed_take_bit_int_eq_self)
  then have s: "sint (L + 4) = int (frame_len ?b) + 4" unfolding L4 by simp
  have c1: "ctu buffer 0 (le32 (of_nat (first_buf dev))) = (le32 (of_nat (first_buf dev)) @ drop 4 buffer, 0)"
    using assms(4,6) by (simp add: ctu_done)
  have c2: "ctu (le32 (of_nat (first_buf dev)) @ drop 4 buffer) 4 (payload ?b) =
      (le32 (of_nat (first_buf dev)) @ payload ?b @ drop (4 + frame_len ?b) buffer, 0)"
    using assms(4,6) le slot(2) hd by (simp add: ctu_done payload_def size_defs add.commute [of 4])
  have g: "mem_get 0 (unat L) ?b = Inr (payload ?b)"
    using le slot(2) by (simp add: L unat_of_nat64 mem_get_ok payload_def size_defs)
  show ?thesis
    using assms(3) hd slot(1) c1 c2 g s
    by (simp add: read_persistence_read_def flip: L_def)
qed

section \<open>Answering a query\<close>

definition reply_bytes :: "nat \<Rightarrow> paxos_accepted \<Rightarrow> byte list \<Rightarrow> byte list" where
  "reply_bytes i a v = le32 (of_nat i) @ accepted_image a @ v"

text \<open>An answer as the storage process should send it: its length field fits its value.\<close>

definition reply_ok :: "paxos_accepted \<Rightarrow> byte list \<Rightarrow> bool" where
  "reply_ok a v \<longleftrightarrow> length v \<le> MAX_PAXOS_VALUE_SIZE \<and> paxos_value_len (acc_value a) = of_nat (length v)"

definition response_of :: "kernel_device_callback \<Rightarrow> accepted_obj" where
  "response_of cb = (case response cb of Live r \<Rightarrow> r | _ \<Rightarrow> undefined)"

text \<open>The callback of slot \<open>i\<close> after an answer: the struct, with the kernel's own value
  pointer, the value followed by zeros, and a wake-up unless the worker is done.\<close>

definition answered_callback :: "paxos_accepted \<Rightarrow> byte list \<Rightarrow> kernel_device_callback \<Rightarrow> kernel_device_callback" where
  "answered_callback a v cb =
     cb\<lparr>response := Live \<lparr>obj_acc = a\<lparr>acc_value := (acc_value a)\<lparr>paxos_value_val :=
              paxos_value_val (acc_value (obj_acc (response_of cb)))\<rparr>\<rparr>,
          obj_val = Live (v @ replicate (MAX_PAXOS_VALUE_SIZE - length v) 0)\<rparr>,
        response_wait := (if is_done cb = 0 then response_wait cb + 1 else response_wait cb)\<rparr>"

definition answered :: "nat \<Rightarrow> paxos_accepted \<Rightarrow> byte list \<Rightarrow> paxos_kernel_device \<Rightarrow> paxos_kernel_device" where
  "answered i a v dev = (with_callbacks
       ((callbacks_of dev)[i := answered_callback a v (callbacks_of dev ! i)]) dev)
     \<lparr>first_buf := next_slot (first_buf dev), used_buf := used_buf dev - 1\<rparr>"

lemma with_callbacks_twice [simp]: "with_callbacks cs (with_callbacks cs' dev) = with_callbacks cs dev"
  by (simp add: with_callbacks_def)

lemma set_response_ok:
  assumes "buffers_ok dev" and "i < BUFFER_SIZE" and "response_ok r"
  shows "set_response dev i r =
      Inr (with_callbacks ((callbacks_of dev)[i := (callbacks_of dev ! i)\<lparr>response := Live r\<rparr>]) dev)"
    and "buffers_ok (with_callbacks ((callbacks_of dev)[i := (callbacks_of dev ! i)\<lparr>response := Live r\<rparr>]) dev)"
  using assms load_callback_ok [OF assms(1,2)] store_callback_ok [OF assms(1,2)]
  by (simp_all add: set_response_def with_callbacks_buffers callback_ok_def)

lemma read_write_finish_ok:
  assumes "buffers_ok dev" and "i < BUFFER_SIZE"
  shows "read_write_finish len i 0 dev =
    Inr (len, (with_callbacks ((callbacks_of dev)[i := (callbacks_of dev ! i)
          \<lparr>response_wait := (if is_done (callbacks_of dev ! i) = 0 then response_wait (callbacks_of dev ! i) + 1
                            else response_wait (callbacks_of dev ! i))\<rparr>]) dev)
        \<lparr>first_buf := next_slot (first_buf dev), used_buf := used_buf dev - 1\<rparr>)"
proof -
  let ?d1 = "dev\<lparr>first_buf := next_slot (first_buf dev), used_buf := used_buf dev - 1\<rparr>"
  have b: "buffers_ok ?d1" using assms(1) by simp
  have id: "with_callbacks (callbacks_of dev) dev = dev"
    using buffers_okD(4) [OF assms(1)] by (simp add: with_callbacks_def)
  show ?thesis
    using assms(2) load_callback_ok(1) [OF b assms(2)] store_callback_ok [OF b assms(2)]
    by (simp add: read_write_finish_def Let_def id) (simp add: with_callbacks_def)
qed

lemma value_len_nat:
  assumes "length v \<le> 200"
  shows "sint (of_nat (length v) :: u32) = int (length v)"
    and "unat (int_to_size (of_nat (length v))) = length v"
proof -
  show s: "sint (of_nat (length v) :: u32) = int (length v)" using assms by (intro sint_of_nat32) simp
  then show "unat (int_to_size (of_nat (length v))) = length v" by (subst unat_int_to_size) simp_all
qed

lemma read_write_answers:
  assumes "buffers_ok dev" and "i < BUFFER_SIZE" and "working dev \<noteq> 0" and "copy_from_user_ok cfu"
    and "reply_ok a v"
  shows "read_persistence_write cfu (reply_bytes i a v @ rest) len dev = Inr (len, answered i a v dev)"
proof -
  let ?u = "reply_bytes i a v @ rest" and ?cb = "callbacks_of dev ! i"
  let ?ptr = "paxos_value_val (acc_value (obj_acc (response_of ?cb)))"
  let ?a = "a\<lparr>acc_value := (acc_value a)\<lparr>paxos_value_val := ?ptr\<rparr>\<rparr>"
  let ?r = "\<lambda>v. \<lparr>obj_acc = ?a, obj_val = Live (v @ replicate (200 - length v) 0)\<rparr>"
  from assms(5) have v: "length v \<le> 200" and lv: "paxos_value_len (acc_value a) = of_nat (length v)"
    by (simp_all add: reply_ok_def size_defs)
  note cb = load_callback_ok [OF assms(1,2)]
  then obtain r0 where r0: "response ?cb = Live r0" "response_ok r0" by (auto simp: callback_ok_def)
  have c: "cfu ?u 0 4 = (le32 (of_nat i), 0)" "cfu ?u 4 40 = (accepted_image a, 0)"
    "cfu ?u 44 (length v) = (v, 0)"
    using assms(4) by (simp_all add: cfu_done reply_bytes_def)
  have idx: "sint (of_nat i :: u32) = int i" using assms(2) by (intro sint_of_nat32) (simp add: BUFFER_SIZE_def)
  obtain a1 where r1: "clearPaxosAccepted r0 = Inr \<lparr>obj_acc = a1, obj_val = Live (replicate 200 0)\<rparr>"
    "paxos_value_val (acc_value a1) = ?ptr"
    using clear_ok [OF r0(2)] r0(1) by (cases r0) (simp add: response_of_def size_defs)
  have rok: "response_ok (?r [])" "response_ok (?r v)" using v by (simp_all add: response_ok_def size_defs)
  note s1 = set_response_ok [OF assms(1,2) rok(1)]
  note s2 = set_response_ok [OF s1(2) assms(2) rok(2)]
  note f1 = read_write_finish_ok [OF s1(2) assms(2), of len]
  note f2 = read_write_finish_ok [OF s2(2) assms(2), of len]
  have len: "i < length (callbacks_of dev)" using assms(1,2) by (simp add: buffers_ok_def)
  have put: "mem_put 0 v (replicate 200 0) = Inr (v @ replicate (200 - length v) 0)"
    using v by (simp add: mem_put_ok)
  show ?thesis
  proof (cases "v = []")
    case True
    then have fin: "read_write_finish len i 0
        (with_callbacks ((callbacks_of dev)[i := ?cb\<lparr>response := Live (?r [])\<rparr>]) dev) = Inr (len, answered i a v dev)"
      unfolding f1 using len by (simp add: answered_def answered_callback_def size_defs)
    show ?thesis
      using assms(3) True c idx cb(1) r0 r1 s1(1) lv fin
      by (simp add: read_persistence_write_def size_defs)
  next
    case False
    then have fin: "read_write_finish len i 0
        (with_callbacks ((callbacks_of dev)[i := ?cb\<lparr>response := Live (?r v)\<rparr>]) dev) = Inr (len, answered i a v dev)"
      using f2 len by (simp add: answered_def answered_callback_def size_defs)
    show ?thesis
      using assms(3) False c idx cb(1) r0 r1 s1(1) s2(1) lv len value_len_nat [OF v] put fin
      by (simp add: read_persistence_write_def size_defs)
  qed
qed

lemma answered_callback_ok: "reply_ok a v \<Longrightarrow> callback_ok (answered_callback a v cb)"
  by (simp add: callback_ok_def answered_callback_def response_ok_def reply_ok_def)

text \<open>Any answer gives up the oldest slot, whichever slot it names.\<close>

lemma answered_ring:
  assumes "ring_ok n dev" and "0 < n" and "reply_ok a v"
  shows "ring_ok (n - 1) (answered i a v dev)" and "queued (answered i a v dev) = tl (queued dev)"
proof -
  let ?d = "with_callbacks ((callbacks_of dev)[i := answered_callback a v (callbacks_of dev ! i)]) dev"
  note d = ring_ok_callback [OF assms(1) answered_callback_ok [OF assms(3)], of i "callbacks_of dev ! i"]
  have eq: "answered i a v dev = ?d\<lparr>used_buf := used_buf ?d - 1, first_buf := next_slot (first_buf ?d)\<rparr>"
    by (simp add: answered_def)
  from ring_pop(1,2) [OF d(1) assms(2) eq] d(2)
  show "ring_ok (n - 1) (answered i a v dev)" and "queued (answered i a v dev) = tl (queued dev)"
    by simp_all
qed

section \<open>The device is a bounded channel\<close>

text \<open>
  One turn of the storage process: it reads a query and sends an answer (struct \<open>a\<close> and
  value \<open>v\<close>) back under the slot number it was given.
\<close>

definition read_put :: "byte list \<times> u64 \<Rightarrow> paxos_kernel_device \<Rightarrow> cerror + nat option \<times> paxos_kernel_device" where
  "read_put m = read_persistence_add_message (fst m) (snd m)"

definition read_get ::
  "to_user \<Rightarrow> from_user \<Rightarrow> umem \<Rightarrow> paxos_accepted \<Rightarrow> byte list \<Rightarrow> paxos_kernel_device
   \<Rightarrow> cerror + byte list \<times> paxos_kernel_device" where
  "read_get ctu cfu buffer a v dev =
     bindR (read_persistence_read ctu buffer dev) (\<lambda>(r, out).
     bindR (read_persistence_write cfu (take 4 out @ accepted_image a @ v) (int (44 + length v)) dev)
       (\<lambda>(r', dev'). Inr (take (nat r - 4) (drop 4 out), dev')))"

definition read_frame :: "byte list \<times> u64 \<Rightarrow> byte list" where
  "read_frame m = payload (fst m)"

definition read_inv ::
  "to_user \<Rightarrow> from_user \<Rightarrow> umem \<Rightarrow> paxos_accepted \<Rightarrow> byte list \<Rightarrow> paxos_kernel_device \<Rightarrow> bool" where
  "read_inv ctu cfu buffer a v dev \<longleftrightarrow> copy_to_user_ok ctu \<and> copy_from_user_ok cfu \<and> reply_ok a v
     \<and> 244 \<le> length buffer \<and> channel_ok dev \<and> working dev \<noteq> 0"

lemma read_put_room:
  assumes "read_inv ctu cfu buffer a v dev" and "read_good m" and "length (frames dev) < BUFFER_SIZE"
  shows "\<exists>slot dev'. read_put m dev = Inr (Some slot, dev') \<and> read_inv ctu cfu buffer a v dev'
    \<and> frames dev' = frames dev @ [read_frame m]"
proof -
  obtain msg sz where m: "m = (msg, sz)" by (cases m)
  from assms(1) obtain n where n: "ring_ok n dev" "length (frames dev) = n"
    and fl: "\<And>b. b \<in> set (queued dev) \<Longrightarrow> frame_len b \<le> 240"
    by (auto simp: read_inv_def elim: channel_okE)
  have good: "read_good (msg, sz)" and room: "n < BUFFER_SIZE" using assms(2,3) n(2) m by simp_all
  let ?d = "read_added msg sz dev"
  note added = read_added_ring [OF n(1) room good]
  have "frame_len msg \<le> 240" using good by (simp add: read_good_def)
  then have "channel_ok ?d"
    using added fl by (auto simp: channel_ok_def read_block_frame [OF good] size_defs)
  moreover have "working ?d = working dev" by (simp add: read_added_def Let_def)
  ultimately have "read_inv ctu cfu buffer a v ?d" using assms(1) by (simp add: read_inv_def)
  then show ?thesis
    using added m read_block_frame(2) [OF good] by (simp add: read_put_def frames_def read_frame_def)
qed

lemma read_get_item:
  assumes "read_inv ctu cfu buffer a v dev" and "frames dev \<noteq> []"
  shows "\<exists>dev'. read_get ctu cfu buffer a v dev = Inr (hd (frames dev), dev')
    \<and> read_inv ctu cfu buffer a v dev' \<and> frames dev' = tl (frames dev)"
proof -
  from assms(1) obtain n where n: "ring_ok n dev" "length (frames dev) = n"
    and fl: "\<And>b. b \<in> set (queued dev) \<Longrightarrow> frame_len b \<le> 240"
    by (auto simp: read_inv_def elim: channel_okE)
  have pos: "0 < n" using assms(2) n(2) by auto
  let ?f = "first_buf dev" and ?q = "hd (queued dev)"
  let ?d = "answered ?f a v dev"
  have b: "buffers_ok dev" and f: "?f < BUFFER_SIZE" using n(1) by (simp_all add: ring_ok_def)
  note pop = ring_pop [OF n(1) pos refl]
  have q: "frame_len ?q \<le> 240" using fl pop(4) by simp
  then have len: "length (payload ?q) = frame_len ?q"
    using load_slot_ok(2) [OF b f] pop(3) by (simp add: payload_def size_defs)
  have r: "read_persistence_read ctu buffer dev = Inr (int (frame_len ?q) + 4,
         le32 (of_nat ?f) @ payload ?q @ drop (4 + frame_len ?q) buffer)"
    using assms(1) q by (intro read_persistence_read_ready [OF n(1) pos]) (simp_all add: read_inv_def)
  have w: "read_persistence_write cfu (le32 (of_nat ?f) @ accepted_image a @ v) (int (44 + length v)) dev
      = Inr (int (44 + length v), ?d)"
    using read_write_answers [OF b f, of cfu a v "[]"] assms(1) by (simp add: read_inv_def reply_bytes_def)
  have "read_get ctu cfu buffer a v dev = Inr (payload ?q, ?d)"
    using r w len by (simp add: read_get_def nat_diff_distrib [symmetric])
  moreover have "reply_ok a v" using assms(1) by (simp add: read_inv_def)
  note ans = answered_ring [OF n(1) pos this, of ?f]
  have "channel_ok ?d" using ans fl by (auto simp: channel_ok_def size_defs dest: list.set_sel(2) [OF pop(4)])
  then have "read_inv ctu cfu buffer a v ?d" using assms(1) by (simp add: read_inv_def answered_def)
  ultimately show ?thesis using ans(2) pop(4) by (simp add: frames_def hd_map map_tl)
qed

interpretation rchan: bounded_channel read_put "read_get ctu cfu buffer a v" "\<lambda>d. read_persistence_poll d = 1"
    read_good read_frame frames "read_inv ctu cfu buffer a v" BUFFER_SIZE for ctu cfu buffer a v
proof unfold_locales
  fix dev m assume "read_inv ctu cfu buffer a v dev" "length (frames dev) = BUFFER_SIZE"
  then show "read_put m dev = Inr (None, dev)"
    by (auto simp: read_inv_def read_put_def ring_ok_used read_add_full elim!: channel_okE)
next
  fix dev assume "read_inv ctu cfu buffer a v dev"
  then show "(read_persistence_poll dev = 1) = (frames dev \<noteq> [])"
    by (auto simp: read_inv_def read_persistence_poll_def ring_ok_used elim!: channel_okE)
next
  fix dev assume "read_inv ctu cfu buffer a v dev"
  then show "length (frames dev) \<le> BUFFER_SIZE" by (auto simp: read_inv_def elim: channel_okE)
qed (blast intro: read_put_room read_get_item)+

section \<open>Properties\<close>

text \<open>C5. The read-persistence device is a bounded first-in first-out channel of queries: any
  interleaving of queries added by the kernel and turns of the storage process (poll, read,
  answer under the slot number it was given) runs without a bad access and delivers the
  accepted queries in order, each once. Reading alone does not consume a query.\<close>

theorem read_device_fifo:
  assumes "read_inv ctu cfu buffer a v dev" and "\<forall>m. Put m \<in> set xs \<longrightarrow> read_good m"
  shows "\<exists>acc del dev'. channel_run read_put (read_get ctu cfu buffer a v)
        (\<lambda>d. read_persistence_poll d = 1) xs dev = Inr (acc, del, dev')
    \<and> frames dev @ map read_frame acc = del @ frames dev' \<and> read_inv ctu cfu buffer a v dev'"
  using assms by (rule rchan.run_fifo)

definition demo_read_device :: paxos_kernel_device where
  "demo_read_device = ready_device demo_api demo_junk 3 ''read-persistence'' (createReadPersistenceDevice zero_device)"

definition demo_query :: "nat \<Rightarrow> byte list" where
  "demo_query i = accepted_image (demo_acc\<lparr>iid := of_nat i, acc_value := (acc_value demo_acc)\<lparr>paxos_value_len := 0\<rparr>\<rparr>)"

lemma demo_query_good: "read_good (demo_query i, 40)"
  by (simp add: read_good_def demo_query_def frame_len_def int_to_size_def size_defs)

definition demo_answer :: paxos_accepted where
  "demo_answer = demo_acc\<lparr>acc_value := (acc_value demo_acc)\<lparr>paxos_value_len := 2\<rparr>\<rparr>"

lemma demo_answer_ok: "reply_ok demo_answer [4, 5]"
  by (simp add: demo_answer_def reply_ok_def size_defs)

lemma demo_read_inv: "read_inv plain_to_user plain_from_user (replicate 244 0)
    demo_answer [4, 5] demo_read_device"
  using demo_answer_ok by (simp add: read_inv_def demo_read_device_def ready_channel_ok)

theorem read_device_fifo_witness:
  "\<exists>acc del dev'. channel_run read_put (read_get plain_to_user plain_from_user (replicate 244 0)
        demo_answer [4, 5])
      (\<lambda>d. read_persistence_poll d = 1) [Put (demo_query 1, 40), Get, Put (demo_query 2, 40), Get, Get]
      demo_read_device = Inr (acc, del, dev') \<and> map read_frame acc = del @ frames dev'"
proof -
  have g: "\<forall>m. Put m \<in> set [Put (demo_query 1, 40), Get, Put (demo_query 2, 40), Get, Get] \<longrightarrow> read_good m"
    using demo_query_good by auto
  have "frames demo_read_device = []" by (simp add: demo_read_device_def)
  then show ?thesis using read_device_fifo [OF demo_read_inv g] by (elim exE conjE) (intro exI conjI, assumption, simp)
qed

text \<open>C9. An answer for slot \<open>i\<close> reaches exactly that slot's callback: its response becomes
  the struct that was sent, except for the value pointer, which stays the kernel's, its value
  block becomes the value that was sent followed by zeros, every other callback and every
  message block is untouched, and a waiting worker is woken unless it is done. The slot given
  up is the oldest one, whichever slot was answered.\<close>

theorem answer_fills_response:
  assumes "ring_ok n dev" and "0 < n" and "i < BUFFER_SIZE" and "working dev \<noteq> 0"
    and "copy_from_user_ok cfu" and "reply_ok a v"
  shows "\<exists>dev' r. read_persistence_write cfu (reply_bytes i a v @ rest) len dev = Inr (len, dev')
    \<and> response (callbacks_of dev' ! i) = Live r
    \<and> obj_acc r = a\<lparr>acc_value := (acc_value a)\<lparr>paxos_value_val :=
         paxos_value_val (acc_value (obj_acc (response_of (callbacks_of dev ! i))))\<rparr>\<rparr>
    \<and> obj_val r = Live (v @ replicate (MAX_PAXOS_VALUE_SIZE - length v) 0)
    \<and> (\<forall>k. k \<noteq> i \<longrightarrow> callbacks_of dev' ! k = callbacks_of dev ! k)
    \<and> slots_of dev' = slots_of dev
    \<and> response_wait (callbacks_of dev' ! i) =
        response_wait (callbacks_of dev ! i) + (if is_done (callbacks_of dev ! i) = 0 then 1 else 0)
    \<and> ring_ok (n - 1) dev' \<and> queued dev' = tl (queued dev)"
proof -
  have b: "buffers_ok dev" and l: "i < length (callbacks_of dev)"
    using assms(1,3) by (simp_all add: ring_ok_def buffers_ok_def)
  show ?thesis
    using read_write_answers [OF b assms(3-6), of rest len] answered_ring [OF assms(1,2,6), of i] l
    by (simp add: answered_def answered_callback_def)
qed

theorem answer_fills_response_witness:
  "\<exists>dev' r. read_persistence_write plain_from_user
      (reply_bytes 0 demo_answer [4, 5]) 46
      (read_added (demo_query 7) 40 demo_read_device) = Inr (46, dev')
    \<and> response (callbacks_of dev' ! 0) = Live r \<and> iid (obj_acc r) = 7 \<and> queued dev' = []"
proof -
  have r0: "ring_ok 0 demo_read_device" by (simp add: demo_read_device_def ready_ring_ok)
  have z: "(0::nat) < BUFFER_SIZE" by (simp add: BUFFER_SIZE_def)
  note a = read_added_ring [OF r0 z demo_query_good [of 7]]
  have w: "working (read_added (demo_query 7) 40 demo_read_device) \<noteq> 0"
    by (simp add: read_added_def Let_def demo_read_device_def)
  have "queued demo_read_device = []" using ring_ok_used(3) [OF r0] by simp
  with answer_fills_response [OF a(1) _ z w plain_copies_ok(2) demo_answer_ok, of "[]" 46] a(2)
  show ?thesis by (fastforce simp: demo_answer_def demo_acc_def)
qed

text \<open>\<open>read_persistence_add_message\<close> writes past its block exactly when it is given more
  than 240 bytes: from a well-formed device with room, a message of at most 240 bytes is added
  and a longer one runs out of bounds. The write device truncates instead.\<close>

lemma read_add_bounds:
  assumes "ring_ok n dev" and "n < BUFFER_SIZE" and "unat sz \<le> length msg"
  shows "read_persistence_add_message msg sz dev =
    (if unat sz \<le> 240 then Inr (Some (current_buf dev), read_added msg sz dev) else Inl OutOfBounds)"
  using assms ring_ok_bounds [OF assms(1)] ring_ok_used(4) [OF assms(1)]
    read_add_adds(1) [of dev sz msg] read_add_overflow [of dev sz msg]
  by (auto simp: ring_ok_def not_le)

lemma answer_too_long:
  assumes "buffers_ok dev" and "working dev \<noteq> 0" and "copy_from_user_ok cfu"
    and "buffer = le32 w @ accepted_image a @ v"
    and h: "0 \<le> sint w \<and> sint w < int BUFFER_SIZE \<and> 200 < sint (paxos_value_len (acc_value a))
      \<and> sint (paxos_value_len (acc_value a)) \<le> int (length v)"
  shows "read_persistence_write cfu buffer len dev = Inl OutOfBounds"
proof -
  have c0: "cfu buffer 0 4 = (le32 w, 0)" and c1: "cfu buffer 4 40 = (accepted_image a, 0)"
    using assms(3,4) by (simp_all add: cfu_done)
  let ?i = "nat (sint w)" and ?m = "nat (sint (paxos_value_len (acc_value a)))"
  from h have i: "?i < BUFFER_SIZE" by (simp add: nat_less_iff)
  note cb = load_callback_ok [OF assms(1) i]
  then obtain r0 where r0: "response (callbacks_of dev ! ?i) = Live r0" "response_ok r0"
    by (auto simp: callback_ok_def)
  obtain a1 where r1: "clearPaxosAccepted r0 = Inr \<lparr>obj_acc = a1, obj_val = Live (replicate 200 0)\<rparr>"
    using clear_ok [OF r0(2)] by (cases r0) (simp add: size_defs)
  have m: "unat (int_to_size (paxos_value_len (acc_value a))) = ?m" using h by (subst unat_int_to_size) simp_all
  from h have k: "?m \<le> length v" by (simp add: nat_le_iff)
  then have c2: "cfu buffer 44 ?m = (take ?m v, 0)" using assms(3,4) by (simp add: cfu_done)
  have p: "mem_put 0 (take ?m v) (replicate 200 0) = Inl OutOfBounds"
  proof -
    from h have "200 < ?m" by (simp add: zless_nat_eq_int_zless)
    with k show ?thesis by (intro mem_put_bad) simp
  qed
  have s: "set_response dev ?i \<lparr>obj_acc = a\<lparr>acc_value := (acc_value a)\<lparr>paxos_value_val := q\<rparr>\<rparr>,
      obj_val = Live (replicate 200 0)\<rparr> = Inr (with_callbacks ((callbacks_of dev)[?i := (callbacks_of dev ! ?i)
      \<lparr>response := Live \<lparr>obj_acc = a\<lparr>acc_value := (acc_value a)\<lparr>paxos_value_val := q\<rparr>\<rparr>,
      obj_val = Live (replicate 200 0)\<rparr>\<rparr>]) dev)" for q
    by (rule set_response_ok [OF assms(1) i]) (simp add: response_ok_def size_defs)
  from h have "\<not> sint w < 0" "0 < sint (paxos_value_len (acc_value a))" by simp_all
  then show ?thesis
    using assms(2) c0 c1 c2 cb(1) r0(1) r1 m p s
    by (simp add: read_persistence_write_def size_defs)
qed

text \<open>C31. An answer is not checked: a slot number outside 0..999 makes the handler use memory
  outside the callback array, and a length field above 200 makes it write past the response's
  value block, in both cases whatever else the answer holds.\<close>

theorem answer_unchecked:
  assumes "buffers_ok dev" and "working dev \<noteq> 0" and "copy_from_user_ok cfu"
    and "buffer = le32 w @ accepted_image a @ v"
  shows "(sint w < 0 \<or> int BUFFER_SIZE \<le> sint w \<longrightarrow>
            read_persistence_write cfu buffer len dev = Inl OutOfBounds)
       \<and> (0 \<le> sint w \<and> sint w < int BUFFER_SIZE \<and> 200 < sint (paxos_value_len (acc_value a))
            \<and> sint (paxos_value_len (acc_value a)) \<le> int (length v) \<longrightarrow>
            read_persistence_write cfu buffer len dev = Inl OutOfBounds)"
proof (intro conjI impI)
  have c0: "cfu buffer 0 4 = (le32 w, 0)" using assms(3,4) by (simp add: cfu_done)
  show "read_persistence_write cfu buffer len dev = Inl OutOfBounds"
    if "sint w < 0 \<or> int BUFFER_SIZE \<le> sint w"
  proof (cases "sint w < 0")
    case False
    with that have "BUFFER_SIZE \<le> nat (sint w)" by simp
    then have "load_callback dev (nat (sint w)) = Inl OutOfBounds"
      using buffers_okD(4,5) [OF assms(1)] by (simp add: load_callback_def arr_get_def)
    with False assms(2) c0 show ?thesis by (simp add: read_persistence_write_def)
  qed (use assms(2) c0 in \<open>simp add: read_persistence_write_def\<close>)
  show "read_persistence_write cfu buffer len dev = Inl OutOfBounds"
    if h: "0 \<le> sint w \<and> sint w < int BUFFER_SIZE \<and> 200 < sint (paxos_value_len (acc_value a))
      \<and> sint (paxos_value_len (acc_value a)) \<le> int (length v)"
    using answer_too_long [OF assms(1-4) h] .
qed

theorem answer_unchecked_witness:
  "read_persistence_write plain_from_user (le32 1000 @ accepted_image demo_acc) 44 demo_read_device = Inl OutOfBounds"
proof -
  have b: "buffers_ok demo_read_device" by (simp add: demo_read_device_def ready_device_buffers)
  have w: "working demo_read_device \<noteq> 0" by (simp add: demo_read_device_def)
  from answer_unchecked [OF b w plain_copies_ok(2) refl, of 1000 demo_acc "[]" 44]
  show ?thesis by (simp add: BUFFER_SIZE_def)
qed

end
