(* ===== verification/Read_Test.thy ===== *)
theory Read_Test
  imports Read_Persistence
begin

text \<open>
  \<open>kpaxos/read_test_device_operations.c\<close>: the device a test program writes queries to. A
  query is handed on to the read-persistence device, and a work that waits for the answer
  is queued on the worker pool; the work counts the queries that were answered with a
  value. The handlers of this device, the answers of the storage process and the workers
  interleave; the last part is that system as a step relation with its invariant.
\<close>

section \<open>Operations\<close>

text \<open>The static variables of the file.\<close>

record read_test =
  rt_dev :: paxos_kernel_device
  messagesReceived :: u32
  messagesFound :: u32

definition READ_TEST_N_THREADS :: nat where
  "READ_TEST_N_THREADS = 10"

definition read_test_open :: "read_test \<Rightarrow> int \<times> read_test" where
  "read_test_open st =
     (if char_mutex (rt_dev st) then (- 16, st)
      else (0, st\<lparr>rt_dev := (rt_dev st)\<lparr>char_mutex := True\<rparr>, messagesReceived := 0, messagesFound := 0\<rparr>))"

definition read_test_read :: "u64 \<Rightarrow> read_test \<Rightarrow> int" where
  "read_test_read len st = (if working (rt_dev st) = 0 then - 1 else sint len)"

text \<open>
  \<open>wait_event_timeout\<close> of the kernel evaluates its condition before it sleeps and then
  returns the whole timeout; \<open>slept\<close> is what it returns when it has to sleep.
\<close>

definition wait_event_timeout :: "bool \<Rightarrow> int \<Rightarrow> int \<Rightarrow> int" where
  "wait_event_timeout condition timeout slept = (if condition then timeout else slept)"

text \<open>
  The work function. The result is what the wait returned (the code prints it), the work,
  which it frees, the counters and the device of the callbacks.
\<close>

definition wait_response ::
  "int \<Rightarrow> persistence_work cptr \<Rightarrow> read_test \<Rightarrow> paxos_kernel_device
   \<Rightarrow> cerror + int \<times> persistence_work cptr \<times> read_test \<times> paxos_kernel_device" where
  "wait_response slept work st persistence =
     bindR (deref work) (\<lambda>w. bindR (deref (param w)) (\<lambda>i.
     bindR (load_callback persistence i) (\<lambda>callback.
     bindR (nonnull (response callback)) (\<lambda>condition.
     let waited = wait_event_timeout condition 100 slept
     in bindR (if is_done callback = 0
               then bindR (deref (response callback)) (\<lambda>r.
                    Inr (iid (obj_acc r) = work_iid w \<and> 0 < sint (paxos_value_len (acc_value (obj_acc r)))))
               else Inr False) (\<lambda>found.
        let st1 = (if found then st\<lparr>messagesFound := messagesFound st + 1\<rparr> else st)
        in bindR (store_callback persistence i (callback\<lparr>is_done := 1\<rparr>)) (\<lambda>persistence1.
           bindR (cfree work) (\<lambda>work1. Inr (waited, work1, st1, persistence1))))))))"

definition read_test_write ::
  "umem \<Rightarrow> u64 \<Rightarrow> u32 \<Rightarrow> read_test \<Rightarrow> paxos_kernel_device \<Rightarrow> kenv
   \<Rightarrow> cerror + int \<times> read_test \<times> paxos_kernel_device \<times> kenv" where
  "read_test_write buffer len junk st persistence e =
     (if working (rt_dev st) = 0 then Inr (- 1, st, persistence, e)
      else bindR (read_persistence_add_message buffer len persistence) (\<lambda>(callback, persistence1).
        case callback of
          None \<Rightarrow> Inr (sint len, st, persistence1, e)
        | Some i \<Rightarrow>
          (let (persistenceWork, e1) = createPersistenceWork Wait_response junk e
           in case persistenceWork of
                None \<Rightarrow> Inr (sint len, st, persistence1, e1)
              | Some w \<Rightarrow>
                bindR (load_callback persistence1 i) (\<lambda>cb.
                bindR (add_work (pool (rt_dev st)) (w\<lparr>param := Live i, work_iid := cb_iid cb\<rparr>)) (\<lambda>p.
                Inr (sint len, st\<lparr>rt_dev := (rt_dev st)\<lparr>pool := p\<rparr>,
                       messagesReceived := messagesReceived st + 1\<rparr>, persistence1, e1))))))"

definition read_test_poll :: "read_test \<Rightarrow> int" where
  "read_test_poll st = 0"

definition read_test_release :: "read_test \<Rightarrow> int \<times> read_test" where
  "read_test_release st = (0, st\<lparr>rt_dev := (rt_dev st)\<lparr>char_mutex := False\<rparr>\<rparr>)"

definition createReadTestDevice ::
  "paxos_kernel_device \<Rightarrow> kenv \<Rightarrow> cerror + paxos_kernel_device \<times> kenv" where
  "createReadTestDevice dev e =
     bindR (create_pool READ_TEST_N_THREADS e) (\<lambda>(p, e').
       Inr (dev\<lparr>msg_buf := Null, charClass := 0, charDevice := 0, fops := Some Read_test_fops, pool := p\<rparr>, e'))"

section \<open>A worker's turn\<close>

text \<open>Whether a work finds its message: the callback is not done, and what its response
  holds now carries the instance of the work and a value.\<close>

definition finds :: "persistence_work \<Rightarrow> kernel_device_callback \<Rightarrow> bool" where
  "finds w cb \<longleftrightarrow> is_done cb = 0 \<and> iid (obj_acc (response_of cb)) = work_iid w
     \<and> 0 < sint (paxos_value_len (acc_value (obj_acc (response_of cb))))"

text \<open>The same of a response that an earlier answer left in a slot.\<close>

definition stale_match :: "persistence_work \<Rightarrow> kernel_device_callback \<Rightarrow> bool" where
  "stale_match w cb \<longleftrightarrow> iid (obj_acc (response_of cb)) = work_iid w
     \<and> 0 < sint (paxos_value_len (acc_value (obj_acc (response_of cb))))"

definition worked :: "nat \<Rightarrow> paxos_kernel_device \<Rightarrow> paxos_kernel_device" where
  "worked i dev = with_callbacks ((callbacks_of dev)[i := (callbacks_of dev ! i)\<lparr>is_done := 1\<rparr>]) dev"

lemma wait_response_result:
  assumes "buffers_ok dev" and "param w = Live i" and "i < BUFFER_SIZE"
  shows "wait_response slept (Live w) st dev =
    Inr (100, Dangling, st\<lparr>messagesFound := messagesFound st + of_bool (finds w (callbacks_of dev ! i))\<rparr>,
      worked i dev)"
proof -
  let ?cb = "callbacks_of dev ! i"
  note cb = load_callback_ok [OF assms(1,3)]
  then obtain r where r: "response ?cb = Live r" by (auto simp: callback_ok_def)
  show ?thesis
  proof (cases "finds w ?cb")
    case True
    with r show ?thesis
      using assms(2) cb(1) store_callback_ok [OF assms(1,3)]
      by (simp add: wait_response_def wait_event_timeout_def finds_def response_of_def worked_def)
  next
    case False
    have "st\<lparr>messagesFound := messagesFound st\<rparr> = st" by simp
    with False r show ?thesis
      using assms(2) cb(1) store_callback_ok [OF assms(1,3)]
      by (auto simp: wait_response_def wait_event_timeout_def finds_def response_of_def worked_def)
  qed
qed

lemma worked_ring:
  assumes "ring_ok n dev" and "i < BUFFER_SIZE"
  shows "ring_ok n (worked i dev)" and "queued (worked i dev) = queued dev"
proof -
  have "callback_ok (callbacks_of dev ! i)"
    using assms by (intro load_callback_ok(2)) (simp_all add: ring_ok_def)
  then have "callback_ok ((callbacks_of dev ! i)\<lparr>is_done := 1\<rparr>)" by (simp add: callback_ok_def)
  from ring_ok_callback [OF assms(1) this]
  show "ring_ok n (worked i dev)" and "queued (worked i dev) = queued dev" by (simp_all add: worked_def)
qed

section \<open>The system of handlers, answers and workers\<close>

record rt_system =
  rt :: read_test
  rp :: paxos_kernel_device
  env :: kenv

text \<open>
  A test program writes a query; the storage process reads the oldest one and answers it
  (\<open>read_get\<close>) with some struct and value; a worker runs the next work of its queue.
\<close>

datatype rt_event = Query umem u64 | Answer paxos_accepted "byte list" | Work nat

inductive rt_step ::
  "to_user \<Rightarrow> from_user \<Rightarrow> umem \<Rightarrow> rt_system \<Rightarrow> rt_event \<Rightarrow> rt_system \<Rightarrow> bool"
  for ctu cfu buffer where
  Query: "read_good (msg, sz) \<Longrightarrow>
    read_test_write msg sz junk (rt s) (rp s) (env s) = Inr (r, t, p, e) \<Longrightarrow>
    rt_step ctu cfu buffer s (Query msg sz) \<lparr>rt = t, rp = p, env = e\<rparr>"
| Answer: "read_persistence_poll (rp s) = 1 \<Longrightarrow> reply_ok a v \<Longrightarrow>
    read_get ctu cfu buffer a v (rp s) = Inr (out, p) \<Longrightarrow>
    rt_step ctu cfu buffer s (Answer a v) \<lparr>rt = rt s, rp = p, env = env s\<rparr>"
| Work: "take_from i (pool (rt_dev (rt s))) = Some (w, q) \<Longrightarrow>
    wait_response slept (Live w) ((rt s)\<lparr>rt_dev := (rt_dev (rt s))\<lparr>pool := q\<rparr>\<rparr>) (rp s) = Inr (n, w', t, p) \<Longrightarrow>
    rt_step ctu cfu buffer s (Work i) \<lparr>rt = t, rp = p, env = env s\<rparr>"

inductive_cases rt_QueryE: "rt_step ctu cfu buffer s (Query msg sz) s'"
inductive_cases rt_AnswerE: "rt_step ctu cfu buffer s (Answer a v) s'"
inductive_cases rt_WorkE: "rt_step ctu cfu buffer s (Work i) s'"

inductive rt_run ::
  "to_user \<Rightarrow> from_user \<Rightarrow> umem \<Rightarrow> rt_system \<Rightarrow> rt_event list \<Rightarrow> rt_system \<Rightarrow> bool"
  for ctu cfu buffer s0 where
  start: "rt_run ctu cfu buffer s0 [] s0"
| more: "rt_run ctu cfu buffer s0 tr s \<Longrightarrow> rt_step ctu cfu buffer s ev s' \<Longrightarrow>
    rt_run ctu cfu buffer s0 (tr @ [ev]) s'"

abbreviation works_of :: "rt_system \<Rightarrow> persistence_work multiset" where
  "works_of s \<equiv> pending_works (pool (rt_dev (rt s)))"

definition rp_inv :: "to_user \<Rightarrow> from_user \<Rightarrow> umem \<Rightarrow> paxos_kernel_device \<Rightarrow> bool" where
  "rp_inv ctu cfu buffer dev \<longleftrightarrow> copy_to_user_ok ctu \<and> copy_from_user_ok cfu
     \<and> 244 \<le> length buffer \<and> channel_ok dev \<and> working dev \<noteq> 0"

definition rt_inv :: "to_user \<Rightarrow> from_user \<Rightarrow> umem \<Rightarrow> rt_system \<Rightarrow> bool" where
  "rt_inv ctu cfu buffer s \<longleftrightarrow> rp_inv ctu cfu buffer (rp s) \<and> pool_ok (pool (rt_dev (rt s)))
     \<and> (\<forall>w \<in># works_of s. \<exists>i < BUFFER_SIZE. param w = Live i)"

lemma rp_inv_reply: "reply_ok a v \<Longrightarrow> read_inv ctu cfu buffer a v dev \<longleftrightarrow> rp_inv ctu cfu buffer dev"
  by (simp add: read_inv_def rp_inv_def)

lemma read_add_slot:
  "read_persistence_add_message msg sz dev = Inr (Some i, dev') \<Longrightarrow> i = current_buf dev"
  by (auto simp: read_persistence_add_message_def bindR_eq_Inr Let_def split: if_splits)

lemma rp_inv_add:
  assumes "rp_inv ctu cfu buffer dev" and "read_good (msg, sz)"
  obtains (full) "read_persistence_add_message msg sz dev = Inr (None, dev)"
  | (slot) i dev' where "read_persistence_add_message msg sz dev = Inr (Some i, dev')"
      and "rp_inv ctu cfu buffer dev'" and "i < BUFFER_SIZE"
proof -
  define a where "a = demo_acc\<lparr>acc_value := (acc_value demo_acc)\<lparr>paxos_value_len := 0\<rparr>\<rparr>"
  have rep: "reply_ok a []" by (simp add: a_def reply_ok_def)
  have inv: "read_inv ctu cfu buffer a [] dev" using assms(1) rep by (simp add: rp_inv_reply)
  obtain n where n: "ring_ok n dev" "length (frames dev) = n" "n \<le> BUFFER_SIZE"
    using assms(1) by (auto simp: rp_inv_def elim: channel_okE)
  show ?thesis
  proof (cases "n < BUFFER_SIZE")
    case True
    with n read_put_room [OF inv assms(2)] obtain i dev' where
      "read_persistence_add_message msg sz dev = Inr (Some i, dev')" "read_inv ctu cfu buffer a [] dev'"
      by (auto simp: read_put_def)
    with rep ring_ok_bounds [OF n(1)] show ?thesis
      by (intro slot) (auto simp: rp_inv_reply dest: read_add_slot)
  next
    case False
    with n have "ring_full dev" by (simp add: ring_ok_used)
    then show ?thesis by (intro full read_add_full)
  qed
qed

lemma rp_inv_get:
  assumes "rp_inv ctu cfu buffer dev" and "reply_ok a v" and "read_persistence_poll dev = 1"
  shows "\<exists>out dev'. read_get ctu cfu buffer a v dev = Inr (out, dev') \<and> rp_inv ctu cfu buffer dev'"
proof -
  have inv: "read_inv ctu cfu buffer a v dev" using assms(1,2) by (simp add: rp_inv_reply)
  with assms(3) have "frames dev \<noteq> []" using rchan.ready_iff by blast
  from read_get_item [OF inv this] assms(2) show ?thesis by (auto simp: rp_inv_reply)
qed

lemma rp_inv_worked:
  assumes "rp_inv ctu cfu buffer dev" and "i < BUFFER_SIZE"
  shows "rp_inv ctu cfu buffer (worked i dev)" and "buffers_ok dev"
proof -
  obtain n where n: "ring_ok n dev" using assms(1) by (auto simp: rp_inv_def channel_ok_def)
  then show "buffers_ok dev" by (simp add: ring_ok_def)
  have "working (worked i dev) = working dev" by (simp add: worked_def)
  with assms(1) worked_ring [OF n assms(2)] show "rp_inv ctu cfu buffer (worked i dev)"
    by (auto simp: rp_inv_def channel_ok_def)
qed

section \<open>Steps keep the invariant\<close>

text \<open>What a query does: nothing is queued, or one work for a valid slot is, and counted.\<close>

lemma query_step:
  assumes "rt_inv ctu cfu buffer s" and "read_good (msg, sz)"
  shows "\<exists>r t p e. read_test_write msg sz junk (rt s) (rp s) (env s) = Inr (r, t, p, e)
    \<and> rt_inv ctu cfu buffer \<lparr>rt = t, rp = p, env = e\<rparr> \<and> messagesFound t = messagesFound (rt s)
    \<and> (pool (rt_dev t) = pool (rt_dev (rt s)) \<and> messagesReceived t = messagesReceived (rt s)
       \<or> size (pending_works (pool (rt_dev t))) = Suc (size (works_of s))
         \<and> messagesReceived t = messagesReceived (rt s) + 1)"
proof -
  have rpi: "rp_inv ctu cfu buffer (rp s)" and pok: "pool_ok (pool (rt_dev (rt s)))"
    using assms(1) by (simp_all add: rt_inv_def)
  show ?thesis
  proof (cases "working (rt_dev (rt s)) = 0")
    case True
    with assms(1) show ?thesis by (simp add: read_test_write_def rt_inv_def)
  next
    case False
    from rpi assms(2) show ?thesis
    proof (cases rule: rp_inv_add)
      case full
      with False assms(1) show ?thesis by (simp add: read_test_write_def rt_inv_def)
    next
      case (slot i dev')
      obtain ok e1 where e1: "next_alloc (env s) = (ok, e1)" by (cases "next_alloc (env s)")
      show ?thesis
      proof (cases ok)
        case False
        with \<open>working (rt_dev (rt s)) \<noteq> 0\<close> slot e1 assms(1) show ?thesis
          by (simp add: read_test_write_def createPersistenceWork_def rt_inv_def)
      next
        case True
        have "buffers_ok dev'" using rp_inv_worked(2) [OF slot(2,3)] .
        note cb = load_callback_ok(1) [OF this slot(3)]
        let ?w = "\<lparr>work_func = Wait_response, param = Live i, work_iid = cb_iid (callbacks_of dev' ! i)\<rparr>"
        obtain p' where p': "add_work (pool (rt_dev (rt s))) ?w = Inr p'" "pool_ok p'"
          "pending_works p' = add_mset ?w (works_of s)" using pool_sink.put_ok [OF pok] by blast
        with False True slot e1 cb assms(1) show ?thesis
          by (simp add: read_test_write_def createPersistenceWork_def rt_inv_def)
      qed
    qed
  qed
qed

text \<open>A query that finds room and memory is queued and leaves a work for its slot.\<close>

lemma query_queued:
  assumes "rt_inv ctu cfu buffer s" and "ring_ok n (rp s)" and "n < BUFFER_SIZE" and "read_good (msg, sz)"
    and "working (rt_dev (rt s)) \<noteq> 0" and "alloc_all (env s)"
  shows "\<exists>t e. read_test_write msg sz junk (rt s) (rp s) (env s) = Inr (sint sz, t, read_added msg sz (rp s), e)
    \<and> rt_inv ctu cfu buffer \<lparr>rt = t, rp = read_added msg sz (rp s), env = e\<rparr> \<and> alloc_all e
    \<and> working (rt_dev t) = working (rt_dev (rt s)) \<and> messagesFound t = messagesFound (rt s)
    \<and> messagesReceived t = messagesReceived (rt s) + 1
    \<and> pending_works (pool (rt_dev t)) =
        add_mset (work_on (current_buf (rp s)) (iid (accepted_of_image msg))) (works_of s)"
proof -
  let ?cur = "current_buf (rp s)" and ?d = "read_added msg sz (rp s)"
  note add = read_added_ring [OF assms(2-4)]
  have cur: "?cur < BUFFER_SIZE" using ring_ok_bounds [OF assms(2)] by simp
  have bo: "buffers_ok ?d" and l: "length (callbacks_of (rp s)) = BUFFER_SIZE"
    using add(1) assms(2) by (simp_all add: ring_ok_def buffers_ok_def)
  have "cb_iid (callbacks_of ?d ! ?cur) = iid (accepted_of_image msg)"
    using cur l read_block_frame(3) [OF assms(4)] by (simp add: read_added_def Let_def)
  then have cb: "load_callback ?d ?cur = Inr (callbacks_of ?d ! ?cur)"
    "cb_iid (callbacks_of ?d ! ?cur) = iid (accepted_of_image msg)" using load_callback_ok(1) [OF bo cur] by simp_all
  have pok: "pool_ok (pool (rt_dev (rt s)))" using assms(1) by (simp add: rt_inv_def)
  obtain p' where p: "add_work (pool (rt_dev (rt s))) (work_on ?cur (iid (accepted_of_image msg))) = Inr p'" "pool_ok p'"
    "pending_works p' = add_mset (work_on ?cur (iid (accepted_of_image msg))) (works_of s)"
    using pool_sink.put_ok [OF pok] by blast
  have al: "next_alloc (env s) = (True, (env s)\<lparr>allocs := tl (allocs (env s))\<rparr>)"
    "alloc_all ((env s)\<lparr>allocs := tl (allocs (env s))\<rparr>)" using next_alloc_all [OF assms(6)] by blast+
  let ?t = "(rt s)\<lparr>rt_dev := (rt_dev (rt s))\<lparr>pool := p'\<rparr>, messagesReceived := messagesReceived (rt s) + 1\<rparr>"
  have w: "read_test_write msg sz junk (rt s) (rp s) (env s) =
      Inr (sint sz, ?t, ?d, (env s)\<lparr>allocs := tl (allocs (env s))\<rparr>)"
    using assms(5) add(3) al(1) cb p(1) by (simp add: read_test_write_def createPersistenceWork_def work_on_def)
  with query_step [OF assms(1,4), of junk] have "rt_inv ctu cfu buffer
      \<lparr>rt = ?t, rp = ?d, env = (env s)\<lparr>allocs := tl (allocs (env s))\<rparr>\<rparr>" by auto
  with w al(2) p(3) show ?thesis by auto
qed

lemma work_step:
  assumes "rt_inv ctu cfu buffer s" and "take_from i (pool (rt_dev (rt s))) = Some (w, q)"
  shows "\<exists>n w' t p. wait_response slept (Live w) ((rt s)\<lparr>rt_dev := (rt_dev (rt s))\<lparr>pool := q\<rparr>\<rparr>) (rp s)
      = Inr (n, w', t, p)
    \<and> rt_inv ctu cfu buffer \<lparr>rt = t, rp = p, env = env s\<rparr> \<and> messagesReceived t = messagesReceived (rt s)
    \<and> size (works_of s) = Suc (size (pending_works (pool (rt_dev t))))
    \<and> (messagesFound t = messagesFound (rt s) \<or> messagesFound t = messagesFound (rt s) + 1)"
proof -
  have rpi: "rp_inv ctu cfu buffer (rp s)" and pok: "pool_ok (pool (rt_dev (rt s)))"
    and ws: "\<forall>w \<in># works_of s. \<exists>i < BUFFER_SIZE. param w = Live i"
    using assms(1) by (simp_all add: rt_inv_def)
  note q = pool_queue.fetch_ok [OF pok assms(2)]
  then obtain k where k: "k < BUFFER_SIZE" "param w = Live k" using ws by auto
  note inv = rp_inv_worked [OF rpi k(1)]
  note res = wait_response_result [OF inv(2) k(2,1), of slept "(rt s)\<lparr>rt_dev := (rt_dev (rt s))\<lparr>pool := q\<rparr>\<rparr>"]
  from q ws have "\<forall>w \<in># pending_works q. \<exists>i < BUFFER_SIZE. param w = Live i" by simp
  with q inv(1) res show ?thesis by (cases "finds w (callbacks_of (rp s) ! k)") (simp_all add: rt_inv_def)
qed

text \<open>A run from an idle system keeps the invariant and the counts.\<close>

definition is_work :: "rt_event \<Rightarrow> bool" where
  "is_work ev = (case ev of Work _ \<Rightarrow> True | _ \<Rightarrow> False)"

definition works_run :: "rt_event list \<Rightarrow> nat" where
  "works_run tr = length (filter is_work tr)"

definition rt_counts :: "rt_event list \<Rightarrow> rt_system \<Rightarrow> bool" where
  "rt_counts tr s \<longleftrightarrow> messagesReceived (rt s) = of_nat (size (works_of s) + works_run tr)
     \<and> (\<exists>k \<le> works_run tr. messagesFound (rt s) = of_nat k)"

lemma rt_step_inv:
  assumes "rt_step ctu cfu buffer s ev s'" and "rt_inv ctu cfu buffer s"
  shows "rt_inv ctu cfu buffer s'"
  using assms(1)
proof cases
  case (Query msg sz junk r t p e)
  with query_step [OF assms(2) Query(3), of junk] show ?thesis by auto
next
  case (Answer a v out p)
  with rp_inv_get [of ctu cfu buffer "rp s" a v] assms(2) show ?thesis by (auto simp: rt_inv_def)
next
  case (Work i w q slept n w' t p)
  with work_step [OF assms(2) Work(3), of slept] show ?thesis by auto
qed

lemma rt_step_counts:
  assumes "rt_step ctu cfu buffer s ev s'" and "rt_inv ctu cfu buffer s" and "rt_counts tr s"
  shows "rt_counts (tr @ [ev]) s'"
  using assms(1)
proof cases
  case (Query msg sz junk r t p e)
  with query_step [OF assms(2) Query(3), of junk] assms(3) show ?thesis
    by (auto simp: rt_counts_def works_run_def is_work_def)
next
  case (Answer a v out p)
  with assms(3) show ?thesis by (auto simp: rt_counts_def works_run_def is_work_def)
next
  case (Work i w q slept n w' t p)
  from work_step [OF assms(2) Work(3), of slept] Work(4)
  have st: "messagesReceived t = messagesReceived (rt s)"
    "size (works_of s) = Suc (size (pending_works (pool (rt_dev t))))"
    "messagesFound t = messagesFound (rt s) \<or> messagesFound t = messagesFound (rt s) + 1"
    by auto
  from assms(3) obtain k where k: "k \<le> works_run tr" "messagesFound (rt s) = of_nat k"
    and r: "messagesReceived (rt s) = of_nat (size (works_of s) + works_run tr)"
    by (auto simp: rt_counts_def)
  have w: "works_run (tr @ [ev]) = Suc (works_run tr)" using Work(1) by (simp add: works_run_def is_work_def)
  have "\<exists>k' \<le> Suc (works_run tr). messagesFound t = of_nat k'"
    using st(3)
  proof
    assume "messagesFound t = messagesFound (rt s)"
    with k show ?thesis by (intro exI [of _ k]) simp
  next
    assume "messagesFound t = messagesFound (rt s) + 1"
    with k show ?thesis by (intro exI [of _ "Suc k"]) simp
  qed
  with st r w Work(2) show ?thesis by (simp add: rt_counts_def)
qed

lemma rt_run_inv:
  assumes "rt_run ctu cfu buffer s0 tr s" and "rt_inv ctu cfu buffer s0"
  shows "rt_inv ctu cfu buffer s"
  using assms by (induction rule: rt_run.induct) (use rt_step_inv in blast)+

lemma rt_run_counts:
  assumes "rt_run ctu cfu buffer s0 tr s" and "rt_inv ctu cfu buffer s0" and "rt_counts [] s0"
  shows "rt_counts tr s"
  using assms by (induction rule: rt_run.induct) (use rt_run_inv rt_step_counts in blast)+

section \<open>Properties\<close>

text \<open>An idle system, for the witnesses.\<close>

definition demo_rt :: rt_system where
  "demo_rt = \<lparr>rt = \<lparr>rt_dev = (ready_device demo_api demo_junk 1 ''read-test'' zero_device)\<lparr>pool := Live (fresh_pool 10)\<rparr>,
       messagesReceived = 0, messagesFound = 0\<rparr>, rp = demo_read_device, env = good_env\<rparr>"

lemma demo_rt_inv: "rt_inv plain_to_user plain_from_user (replicate 244 0) demo_rt"
  and demo_rt_idle: "works_of demo_rt = {#}" "messagesReceived (rt demo_rt) = 0" "messagesFound (rt demo_rt) = 0"
proof -
  have "channel_ok demo_read_device" "working demo_read_device \<noteq> 0"
    by (simp_all add: demo_read_device_def ready_channel_ok)
  moreover show "works_of demo_rt = {#}" "messagesReceived (rt demo_rt) = 0" "messagesFound (rt demo_rt) = 0"
    by (simp_all add: demo_rt_def fresh_pool_pending)
  ultimately show "rt_inv plain_to_user plain_from_user (replicate 244 0) demo_rt"
    by (simp add: rt_inv_def rp_inv_def) (simp add: demo_rt_def fresh_pool_ok)
qed


lemma demo_rt_query:
  "\<exists>s. rt_run plain_to_user plain_from_user (replicate 244 0) demo_rt [Query (demo_query 7) 40] s"
proof -
  from query_step [OF demo_rt_inv demo_query_good [of 7], of 0] obtain r t p e where
    "read_test_write (demo_query 7) 40 0 (rt demo_rt) (rp demo_rt) (env demo_rt) = Inr (r, t, p, e)" by blast
  from rt_run.more [OF rt_run.start rt_step.Query [OF demo_query_good this]] show ?thesis by auto
qed


text \<open>No reachable state of the system is stuck or unsafe: a query of the right form can
  always be written, a polled query can always be answered, and a worker with a queued work
  can always run it to its end; none of them runs into a bad access.\<close>

lemma read_test_never_stuck:
  assumes "rt_run ctu cfu buffer s0 tr s" and "rt_inv ctu cfu buffer s0"
  shows "(\<forall>msg sz. read_good (msg, sz) \<longrightarrow> (\<exists>s'. rt_step ctu cfu buffer s (Query msg sz) s'))
    \<and> (\<forall>a v. read_persistence_poll (rp s) = 1 \<and> reply_ok a v \<longrightarrow> (\<exists>s'. rt_step ctu cfu buffer s (Answer a v) s'))
    \<and> (\<forall>i. take_from i (pool (rt_dev (rt s))) \<noteq> None \<longrightarrow> (\<exists>s'. rt_step ctu cfu buffer s (Work i) s'))"
proof -
  have inv: "rt_inv ctu cfu buffer s" by (rule rt_run_inv [OF assms])
  have q: "\<exists>s'. rt_step ctu cfu buffer s (Query msg sz) s'" if "read_good (msg, sz)" for msg sz
    using query_step [OF inv that, of 0] that by (blast intro: rt_step.Query)
  have a: "\<exists>s'. rt_step ctu cfu buffer s (Answer a v) s'"
    if "read_persistence_poll (rp s) = 1" "reply_ok a v" for a v
    using rp_inv_get [of ctu cfu buffer "rp s" a v] inv that by (auto simp: rt_inv_def intro: rt_step.Answer)
  have "\<exists>s'. rt_step ctu cfu buffer s (Work i) s'" if "take_from i (pool (rt_dev (rt s))) \<noteq> None" for i
  proof -
    from that obtain w q where w: "take_from i (pool (rt_dev (rt s))) = Some (w, q)" by auto
    with work_step [OF inv w, of 0] show ?thesis by (blast intro: rt_step.Work)
  qed
  with q a show ?thesis by blast
qed

text \<open>A slot that has just been asked, and after it was answered.\<close>

lemma asked_slot:
  assumes "ring_ok n dev" and "n < BUFFER_SIZE" and "read_good (msg, sz)" and "i = current_buf dev"
  shows "i < BUFFER_SIZE" and "ring_ok (Suc n) (read_added msg sz dev)"
    and "callbacks_of (read_added msg sz dev) ! i =
      (callbacks_of dev ! i)\<lparr>buffer_id := i, cb_iid := iid (accepted_of_image msg), is_done := 0\<rparr>"
    and "working (read_added msg sz dev) = working dev"
  using ring_ok_bounds [OF assms(1)] assms read_added_ring(1) [OF assms(1-3)] read_block_frame(3) [OF assms(3)]
  by (simp_all add: ring_ok_def buffers_ok_def read_added_def Let_def)

lemma answered_slot:
  assumes "ring_ok (Suc n) dev" and "i < BUFFER_SIZE" and "reply_ok a v"
  shows "ring_ok n (answered i a v dev)"
    and "iid (obj_acc (response_of (callbacks_of (answered i a v dev) ! i))) = iid a"
    and "paxos_value_len (acc_value (obj_acc (response_of (callbacks_of (answered i a v dev) ! i)))) = of_nat (length v)"
    and "is_done (callbacks_of (answered i a v dev) ! i) = is_done (callbacks_of dev ! i)"
    and "is_done (callbacks_of dev ! i) \<noteq> 0 \<Longrightarrow>
      response_wait (callbacks_of (answered i a v dev) ! i) = response_wait (callbacks_of dev ! i)"
proof -
  have "i < length (callbacks_of dev)" using assms(1,2) by (simp add: ring_ok_def buffers_ok_def)
  then show "iid (obj_acc (response_of (callbacks_of (answered i a v dev) ! i))) = iid a"
    "paxos_value_len (acc_value (obj_acc (response_of (callbacks_of (answered i a v dev) ! i)))) = of_nat (length v)"
    "is_done (callbacks_of (answered i a v dev) ! i) = is_done (callbacks_of dev ! i)"
    "is_done (callbacks_of dev ! i) \<noteq> 0 \<Longrightarrow>
      response_wait (callbacks_of (answered i a v dev) ! i) = response_wait (callbacks_of dev ! i)"
    using assms(3) by (simp_all add: answered_def answered_callback_def response_of_def reply_ok_def)
  show "ring_ok n (answered i a v dev)" using answered_ring(1) [OF assms(1) _ assms(3)] by simp
qed

lemma worked_slot:
  assumes "ring_ok n dev" and "i < BUFFER_SIZE"
  shows "callbacks_of (worked i dev) ! i = (callbacks_of dev ! i)\<lparr>is_done := 1\<rparr>"
    and "working (worked i dev) = working dev"
  using assms by (simp_all add: worked_def ring_ok_def buffers_ok_def)

text \<open>C22. A work never waits for its answer: it runs to its end at once, whatever \<open>slept\<close> is, so
  the order of the worker and of the answer decides. If the answer comes first, an answer
  with the query's instance and a value is counted; if the worker comes first, it judges by
  what an earlier answer left in the slot, and the answer that comes then wakes nobody; and if
  a work of an earlier query of the same slot is still queued and runs between the answer and
  the work, neither of them is counted although the answer is there.\<close>

theorem order_decides_found:
  assumes "ring_ok n dev" and "n < BUFFER_SIZE" and "read_good (msg, sz)" and "working dev \<noteq> 0"
    and "copy_from_user_ok cfu" and "reply_ok a v" and "v \<noteq> []" and "iid a = iid (accepted_of_image msg)"
    and "i = current_buf dev" and "w = work_on i (iid (accepted_of_image msg))"
    and "asked = read_added msg sz dev" and "param old = Live i" and "work_iid old \<noteq> iid (accepted_of_image msg)"
  shows "(\<exists>dev2 dev3. read_persistence_write cfu (reply_bytes i a v) len asked = Inr (len, dev2)
      \<and> wait_response slept (Live w) st dev2 =
          Inr (100, Dangling, st\<lparr>messagesFound := messagesFound st + 1\<rparr>, dev3))
    \<and> (\<exists>dev2 dev3. wait_response slept (Live w) st asked = Inr (100, Dangling,
            st\<lparr>messagesFound := messagesFound st + of_bool (stale_match w (callbacks_of dev ! i))\<rparr>, dev2)
      \<and> read_persistence_write cfu (reply_bytes i a v) len dev2 = Inr (len, dev3)
      \<and> response_wait (callbacks_of dev3 ! i) = response_wait (callbacks_of dev ! i))
    \<and> (\<exists>dev2 dev3 dev4. read_persistence_write cfu (reply_bytes i a v) len asked = Inr (len, dev2)
      \<and> wait_response slept (Live old) st dev2 = Inr (100, Dangling, st, dev3)
      \<and> wait_response slept (Live w) st dev3 = Inr (100, Dangling, st, dev4)
      \<and> stale_match w (callbacks_of dev4 ! i))"
proof -
  note sl = asked_slot [OF assms(1-3,9), folded assms(11)]
  note an = answered_slot [OF sl(2,1) assms(6)]
  let ?ans = "answered i a v asked"
  have vpos: "0 < sint (of_nat (length v) :: u32)"
    using assms(6,7) by (simp add: reply_ok_def size_defs value_len_nat)
  have pw: "param w = Live i" "work_iid w = iid a" using assms(8,10) by (simp_all add: work_on_def)
  have bo: "buffers_ok asked" and ba: "buffers_ok ?ans" using sl(2) an(1) by (simp_all add: ring_ok_def)
  have wk: "working asked \<noteq> 0" using sl(4) assms(4) by simp
  note wrote = read_write_answers [OF bo sl(1) wk assms(5,6), of "[]" len, simplified]
  have "finds w (callbacks_of ?ans ! i)" using an(2-4) sl(3) vpos pw(2) by (simp add: finds_def)
  with wrote wait_response_result [OF ba pw(1) sl(1), of slept st]
  have first: "\<exists>dev2 dev3. read_persistence_write cfu (reply_bytes i a v) len asked = Inr (len, dev2)
      \<and> wait_response slept (Live w) st dev2 =
          Inr (100, Dangling, st\<lparr>messagesFound := messagesFound st + 1\<rparr>, dev3)" by simp
  have rw: "ring_ok (Suc n) (worked i asked)" by (rule worked_ring [OF sl(2,1)])
  then have bw: "buffers_ok (worked i asked)" by (simp add: ring_ok_def)
  note late = answered_slot(5) [OF rw sl(1) assms(6)]
  have "working (worked i asked) \<noteq> 0" "finds w (callbacks_of asked ! i) = stale_match w (callbacks_of dev ! i)"
    using wk worked_slot(2) [OF sl(2,1)] sl(3) by (simp_all add: finds_def stale_match_def response_of_def)
  with read_write_answers [OF bw sl(1) _ assms(5,6), of "[]" len] wait_response_result [OF bo pw(1) sl(1), of slept st] late
  have second: "\<exists>dev2 dev3. wait_response slept (Live w) st asked = Inr (100, Dangling,
            st\<lparr>messagesFound := messagesFound st + of_bool (stale_match w (callbacks_of dev ! i))\<rparr>, dev2)
      \<and> read_persistence_write cfu (reply_bytes i a v) len dev2 = Inr (len, dev3)
      \<and> response_wait (callbacks_of dev3 ! i) = response_wait (callbacks_of dev ! i)"
    using worked_slot(1) [OF sl(2,1)] sl(3) by simp
  have bwa: "buffers_ok (worked i ?ans)" using worked_ring(1) [OF an(1) sl(1)] by (simp add: ring_ok_def)
  have "ring_ok n (worked i ?ans)" by (rule worked_ring [OF an(1) sl(1)])
  note fin = worked_slot(1) [OF an(1) sl(1)] worked_slot(1) [OF this sl(1)]
  have "\<not> finds old (callbacks_of ?ans ! i)" using an(2) assms(8,13) by (simp add: finds_def)
  moreover have "\<not> finds w (callbacks_of (worked i ?ans) ! i)" using fin by (simp add: finds_def)
  moreover have "stale_match w (callbacks_of (worked i (worked i ?ans)) ! i)"
    using fin an(2,3) vpos pw(2) by (simp add: stale_match_def response_of_def)
  ultimately show ?thesis
    using first second wrote wait_response_result [OF ba assms(12) sl(1), of slept st]
      wait_response_result [OF bwa pw(1) sl(1), of slept st] by simp
qed

theorem order_decides_found_witness:
  "\<exists>dev2 dev3. wait_response 0 (Live (work_on 0 7)) \<lparr>rt_dev = zero_device, messagesReceived = 1, messagesFound = 0\<rparr>
        (read_added (demo_query 7) 40 demo_read_device) =
      Inr (100, Dangling, \<lparr>rt_dev = zero_device, messagesReceived = 1, messagesFound = 0\<rparr>, dev2)
    \<and> read_persistence_write plain_from_user (reply_bytes 0 demo_answer [4, 5]) 46 dev2 = Inr (46, dev3)
    \<and> response_wait (callbacks_of dev3 ! 0) = 0"
proof -
  have r0: "ring_ok 0 demo_read_device" by (simp add: demo_read_device_def ready_ring_ok)
  have z: "(0::nat) < BUFFER_SIZE" by (simp add: BUFFER_SIZE_def)
  have w: "working demo_read_device \<noteq> 0" and c: "0 = current_buf demo_read_device"
    by (simp_all add: demo_read_device_def)
  have q: "iid (accepted_of_image (demo_query 7)) = 7" by (simp add: demo_query_def)
  have a: "iid demo_answer = iid (accepted_of_image (demo_query 7))" by (simp add: q demo_answer_def demo_acc_def)
  have "callbacks_of demo_read_device ! 0 = fresh_callback demo_junk"
    using z by (simp add: demo_read_device_def)
  then have s: "\<not> stale_match (work_on 0 7) (callbacks_of demo_read_device ! 0)"
    and rw: "response_wait (callbacks_of demo_read_device ! 0) = 0"
    by (simp_all add: stale_match_def fresh_callback_def response_of_def)
  have e: "work_on 0 7 = work_on 0 (iid (accepted_of_image (demo_query 7)))" by (simp add: q)
  have old: "param (work_on 0 8) = Live 0" "work_iid (work_on 0 8) \<noteq> iid (accepted_of_image (demo_query 7))"
    by (simp_all add: q work_on_def)
  from conjunct2 [OF order_decides_found [OF r0 z demo_query_good [of 7] w plain_copies_ok(2) demo_answer_ok _ a c e refl old,
      where slept = 0 and st = "\<lparr>rt_dev = zero_device, messagesReceived = 1, messagesFound = 0\<rparr>" and len = 46]]
    s rw show ?thesis by simp
qed

end
