(* ===== verification/Persistence_Main.thy ===== *)
theory Persistence_Main
  imports Write_Test Read_Test
begin

text \<open>
  \<open>persistence_main.c\<close>: loading and unloading the module. Loading creates and initialises
  the four devices in order, unloading releases them; both ignore what the operations they
  call return.
\<close>

section \<open>State\<close>

text \<open>The four static devices of the module, with the kernel's state.\<close>

record persistence_module =
  writeTest :: paxos_kernel_device
  readTest :: paxos_kernel_device
  writePersistence :: paxos_kernel_device
  readPersistence :: paxos_kernel_device
  kernel :: kenv

definition writeTestId :: nat where "writeTestId = 0"
definition readTestId :: nat where "readTestId = 1"
definition writePersistenceId :: nat where "writePersistenceId = 2"
definition readPersistenceId :: nat where "readPersistenceId = 3"

lemmas device_ids = writeTestId_def readTestId_def writePersistenceId_def readPersistenceId_def

section \<open>Loading and unloading\<close>

text \<open>\<open>kdevchar_init\<close> of one device, whose result the module does not look at.\<close>

definition init_device ::
  "kernel_api \<Rightarrow> memory_junk \<Rightarrow> nat \<Rightarrow> char list \<Rightarrow> paxos_kernel_device \<Rightarrow> kenv
   \<Rightarrow> cerror + paxos_kernel_device \<times> kenv" where
  "init_device api j devid name dev e =
     bindR (kdevchar_init api j devid (Some name) (Some dev) e) (\<lambda>(r, d, e'). Inr (the d, e'))"

definition paxos_persistence_init ::
  "kernel_api \<Rightarrow> memory_junk \<Rightarrow> persistence_module \<Rightarrow> cerror + int \<times> persistence_module" where
  "paxos_persistence_init api j m =
     bindR (createWriteTestDevice (writeTest m) (kernel m)) (\<lambda>(wt0, e1).
     bindR (init_device api j writeTestId ''write-test'' wt0 e1) (\<lambda>(wt, e2).
     bindR (createReadTestDevice (readTest m) e2) (\<lambda>(rt0, e3).
     bindR (init_device api j readTestId ''read-test'' rt0 e3) (\<lambda>(rt, e4).
     bindR (init_device api j writePersistenceId ''write-persistence''
              (createWritePersistenceDevice (writePersistence m)) e4) (\<lambda>(wp, e5).
     bindR (init_device api j readPersistenceId ''read-persistence''
              (createReadPersistenceDevice (readPersistence m)) e5) (\<lambda>(rp, e6).
     Inr (0, \<lparr>writeTest = wt, readTest = rt, writePersistence = wp, readPersistence = rp, kernel = e6\<rparr>)))))))"

definition paxos_persistence_exit :: "persistence_module \<Rightarrow> cerror + persistence_module" where
  "paxos_persistence_exit m =
     bindR (kdevchar_exit (writeTest m) (kernel m)) (\<lambda>(wt, e1).
     bindR (persistence_device_destroy wt) (\<lambda>wt'.
     bindR (kdevchar_exit (readTest m) e1) (\<lambda>(rt, e2).
     bindR (persistence_device_destroy rt) (\<lambda>rt'.
     bindR (kdevchar_exit (writePersistence m) e2) (\<lambda>(wp, e3).
     bindR (kdevchar_exit (readPersistence m) e3) (\<lambda>(rp, e4).
     Inr \<lparr>writeTest = wt', readTest = rt', writePersistence = wp, readPersistence = rp, kernel = e4\<rparr>))))))"

section \<open>What loading leaves\<close>

text \<open>The module before it is loaded: static memory is zero.\<close>

definition unloaded :: "kenv \<Rightarrow> persistence_module" where
  "unloaded e = \<lparr>writeTest = zero_device, readTest = zero_device, writePersistence = zero_device,
     readPersistence = zero_device, kernel = e\<rparr>"

definition test_device :: "file_operations \<Rightarrow> nat \<Rightarrow> paxos_kernel_device" where
  "test_device f n = zero_device\<lparr>fops := Some f, pool := Live (fresh_pool n)\<rparr>"

definition loaded :: "kernel_api \<Rightarrow> memory_junk \<Rightarrow> kenv \<Rightarrow> persistence_module" where
  "loaded api j e =
     \<lparr>writeTest = ready_device api j 0 ''write-test'' (test_device Write_test_fops 10),
      readTest = ready_device api j 1 ''read-test'' (test_device Read_test_fops 10),
      writePersistence = ready_device api j 2 ''write-persistence'' (createWritePersistenceDevice zero_device),
      readPersistence = ready_device api j 3 ''read-persistence'' (createReadPersistenceDevice zero_device),
      kernel = e\<rparr>"

definition device_table :: "(nat \<times> char list) list" where
  "device_table = [(0, ''write-test''), (1, ''read-test''), (2, ''write-persistence''), (3, ''read-persistence'')]"

lemma name_ok_table:
  "name_ok ''write-test'' 0" "name_ok ''read-test'' 1" "name_ok ''write-persistence'' 2" "name_ok ''read-persistence'' 3"
  by (simp_all add: name_ok_def NUL_def)

lemma init_device_result:
  assumes "alloc_all e" and "name_ok name devid"
  shows "\<exists>d e'. init_device api j devid name dev e = Inr (d, e')
    \<and> calls e' = calls e @ registration_calls api name devid
    \<and> (registered api name devid \<longrightarrow> d = ready_device api j devid name dev)
    \<and> (\<not> registered api name devid \<longrightarrow> msg_buf d = msg_buf dev \<and> used_buf d = used_buf dev)
    \<and> alloc_all e' \<and> threads e' = threads e"
  using kdevchar_init_result [OF assms, of api j dev] by (auto simp: init_device_def)

lemma create_test_devices:
  assumes "alloc_all e" and "thread_all e"
  shows "\<exists>e'. createWriteTestDevice zero_device e = Inr (test_device Write_test_fops 10, e')
      \<and> alloc_all e' \<and> thread_all e' \<and> calls e' = calls e"
    and "\<exists>e'. createReadTestDevice zero_device e = Inr (test_device Read_test_fops 10, e')
      \<and> alloc_all e' \<and> thread_all e' \<and> calls e' = calls e"
  using create_pool_all [OF assms, of 10]
  by (auto simp: createWriteTestDevice_def createReadTestDevice_def WRITE_TEST_N_THREADS_def
      READ_TEST_N_THREADS_def test_device_def zero_device_def)

lemma persistence_init_result:
  assumes "alloc_all e" and "thread_all e"
  shows "\<exists>m. paxos_persistence_init api j (unloaded e) = Inr (0, m)
    \<and> calls (kernel m) = calls e @ concat (map (\<lambda>(i, name). registration_calls api name i) device_table)
    \<and> ((\<forall>(i, name) \<in> set device_table. registered api name i) \<longrightarrow> m = loaded api j (kernel m))
    \<and> (registered api ''write-test'' 0 \<longrightarrow> working (writeTest m) = 1)
    \<and> (\<not> registered api ''write-persistence'' 2 \<longrightarrow>
          msg_buf (writePersistence m) = Null \<and> used_buf (writePersistence m) = 0)
    \<and> alloc_all (kernel m)"
proof -
  obtain e1 where e1: "createWriteTestDevice zero_device e = Inr (test_device Write_test_fops 10, e1)"
    "alloc_all e1" "thread_all e1" "calls e1 = calls e" using create_test_devices(1) [OF assms] by blast
  obtain wt e2 where wt: "init_device api j 0 ''write-test'' (test_device Write_test_fops 10) e1 = Inr (wt, e2)"
    "calls e2 = calls e1 @ registration_calls api ''write-test'' 0"
    "registered api ''write-test'' 0 \<longrightarrow> wt = ready_device api j 0 ''write-test'' (test_device Write_test_fops 10)"
    "alloc_all e2" "threads e2 = threads e1" using init_device_result [OF e1(2) name_ok_table(1)] by blast
  have t2: "thread_all e2" using e1(3) wt(5) by (simp add: thread_all_def)
  obtain e3 where e3: "createReadTestDevice zero_device e2 = Inr (test_device Read_test_fops 10, e3)"
    "alloc_all e3" "calls e3 = calls e2" using create_test_devices(2) [OF wt(4) t2] by blast
  obtain rt e4 where rt: "init_device api j 1 ''read-test'' (test_device Read_test_fops 10) e3 = Inr (rt, e4)"
    "calls e4 = calls e3 @ registration_calls api ''read-test'' 1"
    "registered api ''read-test'' 1 \<longrightarrow> rt = ready_device api j 1 ''read-test'' (test_device Read_test_fops 10)"
    "alloc_all e4" using init_device_result [OF e3(2) name_ok_table(2)] by blast
  obtain wp e5 where wp: "init_device api j 2 ''write-persistence'' (createWritePersistenceDevice zero_device) e4 = Inr (wp, e5)"
    "calls e5 = calls e4 @ registration_calls api ''write-persistence'' 2"
    "registered api ''write-persistence'' 2 \<longrightarrow>
       wp = ready_device api j 2 ''write-persistence'' (createWritePersistenceDevice zero_device)"
    "\<not> registered api ''write-persistence'' 2 \<longrightarrow> msg_buf wp = msg_buf (createWritePersistenceDevice zero_device)
       \<and> used_buf wp = used_buf (createWritePersistenceDevice zero_device)"
    "alloc_all e5" using init_device_result [OF rt(4) name_ok_table(3)] by blast
  obtain rp e6 where rp: "init_device api j 3 ''read-persistence'' (createReadPersistenceDevice zero_device) e5 = Inr (rp, e6)"
    "calls e6 = calls e5 @ registration_calls api ''read-persistence'' 3"
    "registered api ''read-persistence'' 3 \<longrightarrow>
       rp = ready_device api j 3 ''read-persistence'' (createReadPersistenceDevice zero_device)"
    "alloc_all e6" using init_device_result [OF wp(5) name_ok_table(4)] by blast
  define m where "m = \<lparr>writeTest = wt, readTest = rt, writePersistence = wp, readPersistence = rp, kernel = e6\<rparr>"
  have "paxos_persistence_init api j (unloaded e) = Inr (0, m)"
    using e1(1) wt(1) e3(1) rt(1) wp(1) rp(1)
    by (simp add: paxos_persistence_init_def unloaded_def device_ids m_def)
  moreover have "calls (kernel m) = calls e @ concat (map (\<lambda>(i, name). registration_calls api name i) device_table)"
    using e1(4) wt(2) e3(3) rt(2) wp(2) rp(2) by (simp add: device_table_def m_def)
  moreover have "(\<forall>(i, name) \<in> set device_table. registered api name i) \<longrightarrow> m = loaded api j (kernel m)"
    using wt(3) rt(3) wp(3) rp(3) by (simp add: device_table_def loaded_def m_def)
  moreover have "registered api ''write-test'' 0 \<longrightarrow> working (writeTest m) = 1"
    using wt(3) by (simp add: m_def)
  moreover have "\<not> registered api ''write-persistence'' 2 \<longrightarrow>
      msg_buf (writePersistence m) = Null \<and> used_buf (writePersistence m) = 0"
    using wp(4) by (simp add: m_def createWritePersistenceDevice_def zero_device_def)
  moreover have "alloc_all (kernel m)" using rp(4) by (simp add: m_def)
  ultimately show ?thesis by blast
qed

text \<open>The calls that release a device.\<close>

definition release_calls :: "paxos_kernel_device \<Rightarrow> kcall list" where
  "release_calls dev = [Device_destroy (charClass dev) (majorNumber dev), Class_unregister (charClass dev),
     Class_destroy (charClass dev), Unregister_chrdev (majorNumber dev) Dangling]"

definition released :: "paxos_kernel_device \<Rightarrow> paxos_kernel_device" where
  "released dev = dev\<lparr>working := 0, used_buf := used_buf dev + 1, access_wait := access_wait dev + 1,
     msg_buf := Dangling, callback_buf := Dangling, de_name := Dangling, clas_name := Dangling\<rparr>"

text \<open>A device that unloading can release.\<close>

definition releasable :: "paxos_kernel_device \<Rightarrow> bool" where
  "releasable dev \<longleftrightarrow> buffers_ok dev \<and> (\<exists>n. de_name dev = Live n) \<and> (\<exists>c. clas_name dev = Live c)"

lemma exit_releasable:
  "releasable dev \<Longrightarrow> kdevchar_exit dev e = Inr (released dev, e\<lparr>calls := calls e @ release_calls dev\<rparr>)"
  by (auto simp: releasable_def kdevchar_exit_result released_def release_calls_def)

lemma persistence_exit_result:
  assumes "releasable (writeTest m)" and "releasable (readTest m)" and "releasable (writePersistence m)"
    and "releasable (readPersistence m)" and "pool_ok (pool (writeTest m))" and "pool_ok (pool (readTest m))"
  shows "paxos_persistence_exit m = Inr
    \<lparr>writeTest = (released (writeTest m))\<lparr>pool := Dangling\<rparr>, readTest = (released (readTest m))\<lparr>pool := Dangling\<rparr>,
     writePersistence = released (writePersistence m), readPersistence = released (readPersistence m),
     kernel = (kernel m)\<lparr>calls := calls (kernel m) @ release_calls (writeTest m) @ release_calls (readTest m)
       @ release_calls (writePersistence m) @ release_calls (readPersistence m)\<rparr>\<rparr>"
proof -
  have "pool (released d) = pool d" for d by (simp add: released_def)
  moreover have "pool_ok p \<Longrightarrow> free_pool p = Inr Dangling" for p
    by (auto simp: pool_ok_def free_pool_queues)
  ultimately show ?thesis
    using assms by (simp add: paxos_persistence_exit_def exit_releasable persistence_device_destroy_def)
qed

lemma loaded_releasable:
  "releasable (writeTest (loaded api j e))" "releasable (readTest (loaded api j e))"
  "releasable (writePersistence (loaded api j e))" "releasable (readPersistence (loaded api j e))"
  "pool_ok (pool (writeTest (loaded api j e)))" "pool_ok (pool (readTest (loaded api j e)))"
  by (simp_all add: releasable_def loaded_def ready_device_buffers test_device_def fresh_pool_ok)

section \<open>Properties\<close>

text \<open>C19. Loading the module, when memory is available: it reports success whatever the kernel
  answers, asks for the registrations of the four devices in order, each undone by itself when
  it fails, and when all are granted the four devices are ready, with empty rings, pools of
  ten idle workers for the two test devices, and the paths the module gives them.\<close>

theorem module_load:
  assumes "alloc_all e" and "thread_all e"
  shows "\<exists>m. paxos_persistence_init api j (unloaded e) = Inr (0, m)
    \<and> calls (kernel m) = calls e @ concat (map (\<lambda>(i, name). registration_calls api name i) device_table)
    \<and> ((\<forall>(i, name) \<in> set device_table. registered api name i) \<longrightarrow>
         m = loaded api j (kernel m)
         \<and> map (\<lambda>d. de_name d) [writeTest m, readTest m, writePersistence m, readPersistence m] =
           map (\<lambda>s. Live (s @ [NUL])) [''paxos/write-test0'', ''paxos/read-test1'',
             ''paxos/write-persistence2'', ''paxos/read-persistence3''])"
proof -
  have "map (\<lambda>d. de_name d) [writeTest (loaded api j e'), readTest (loaded api j e'),
        writePersistence (loaded api j e'), readPersistence (loaded api j e')] =
      map (\<lambda>s. Live (s @ [NUL])) [''paxos/write-test0'', ''paxos/read-test1'',
        ''paxos/write-persistence2'', ''paxos/read-persistence3'']" for e'
    by (simp add: loaded_def dev_path_def id_char_digits id_char_digits(2) [simplified])
  with persistence_init_result [OF assms, of api j] show ?thesis by metis
qed

lemma demo_registered: "\<forall>(i, name) \<in> set device_table. registered demo_api name i"
  by (simp add: device_table_def registered_def demo_api_def IS_ERR_def)

lemma good_env_threads: "thread_all good_env"
  by (simp add: thread_all_def good_env_def)

theorem module_load_witness:
  "\<exists>m. paxos_persistence_init demo_api demo_junk (unloaded good_env) = Inr (0, m)
     \<and> length (calls (kernel m)) = 12 \<and> de_name (readPersistence m) = Live (''paxos/read-persistence3'' @ [NUL])"
proof -
  have "length (concat (map (\<lambda>(i, name). registration_calls demo_api name i) device_table)) = 12"
    by (simp add: device_table_def registration_calls_def demo_api_def IS_ERR_def Let_def)
  with module_load [OF alloc_all_good good_env_threads, of demo_api demo_junk] demo_registered show ?thesis
    by (auto simp: good_env_def)
qed

text \<open>Unloading a module that was loaded completely touches no freed or uninitialised
  memory: every ring, callback, name and both pools are freed exactly once, all four devices
  are stopped and their pollers woken, and each is unregistered with the number and the
  class it got.\<close>

lemma module_unload:
  assumes "alloc_all e" and "thread_all e" and "\<forall>(i, name) \<in> set device_table. registered api name i"
  shows "\<exists>m m'. paxos_persistence_init api j (unloaded e) = Inr (0, m) \<and> paxos_persistence_exit m = Inr m'
    \<and> (\<forall>d \<in> set [writeTest m', readTest m', writePersistence m', readPersistence m'].
         msg_buf d = Dangling \<and> callback_buf d = Dangling \<and> de_name d = Dangling \<and> clas_name d = Dangling
         \<and> working d = 0 \<and> access_wait d = 1)
    \<and> pool (writeTest m') = Dangling \<and> pool (readTest m') = Dangling
    \<and> calls (kernel m') = calls (kernel m) @ concat (map release_calls
         [writeTest m, readTest m, writePersistence m, readPersistence m])"
proof -
  from persistence_init_result [OF assms(1,2), of api j] assms(3) obtain m where
    m: "paxos_persistence_init api j (unloaded e) = Inr (0, m)" "m = loaded api j (kernel m)" by blast
  have aw: "access_wait (ready_device api j i name d) = 0" for i name d by (simp add: ready_device_def Let_def)
  note ok = loaded_releasable [of api j "kernel m", folded m(2)]
  have "access_wait (writeTest m) = 0" "access_wait (readTest m) = 0" "access_wait (writePersistence m) = 0"
    "access_wait (readPersistence m) = 0" by (subst m(2), simp add: loaded_def aw)+
  with persistence_exit_result [OF ok] m(1) show ?thesis by (simp add: released_def)
qed

text \<open>C27. A device that could not be registered is not noticed: the module still loads with
  success, and when it is the write-persistence device, the first message that a test program
  writes makes the kernel follow a NULL pointer.\<close>

theorem failed_registration_ignored:
  assumes "alloc_all e" and "thread_all e" and "registered api ''write-test'' 0"
    and "\<not> registered api ''write-persistence'' 2"
  shows "\<exists>m. paxos_persistence_init api j (unloaded e) = Inr (0, m)
    \<and> write_test_write buffer len (writeTest m) (writePersistence m) = Inl NullDeref"
proof -
  from persistence_init_result [OF assms(1,2), of api j] assms(3,4) obtain m where
    m: "paxos_persistence_init api j (unloaded e) = Inr (0, m)" "working (writeTest m) = 1"
    "msg_buf (writePersistence m) = Null" "used_buf (writePersistence m) = 0" by blast
  then have "write_test_write buffer len (writeTest m) (writePersistence m) = Inl NullDeref"
    by (simp add: write_test_write_def write_persistence_add_message_def ring_full_def BUFFER_SIZE_def
        load_slot_def Let_def)
  with m(1) show ?thesis by blast
qed

text \<open>A kernel that has no number left for one device.\<close>

definition crowded_api :: kernel_api where
  "crowded_api = demo_api\<lparr>register_chrdev := (\<lambda>s. if s = ''paxos/write-persistence2'' then - 16 else 240)\<rparr>"

theorem failed_registration_ignored_witness:
  "\<exists>m. paxos_persistence_init crowded_api demo_junk (unloaded good_env) = Inr (0, m)
     \<and> write_test_write [] 0 (writeTest m) (writePersistence m) = Inl NullDeref"
proof -
  have r: "registered crowded_api ''write-test'' 0" and n: "\<not> registered crowded_api ''write-persistence'' 2"
    by (simp_all add: registered_def crowded_api_def demo_api_def IS_ERR_def dev_path_def id_char_digits Let_def)
  from failed_registration_ignored [OF alloc_all_good good_env_threads r n] show ?thesis .
qed

end
