(* ===== verification/Buffer_Codec.thy ===== *)
theory Buffer_Codec
  imports Paxos_Types
begin

text \<open>
  The memory management of \<open>paxos/paxos.c\<close> and the buffer conversions of
  \<open>kpaxos/lmdb_operations.c\<close>, by which messages travel between the storage process, the
  database and the devices: a struct with its value becomes one contiguous buffer, and a
  buffer becomes a struct that owns a fresh copy of its value.
\<close>

section \<open>Releasing messages\<close>

text \<open>
  \<open>paxos_value_free\<close> releases a value on the heap with its block; the struct is given by
  its pointer, together with the block its value pointer owns.
\<close>

record value_obj =
  vobj_len :: u32
  vobj_val :: "byte list cptr"

definition paxos_value_free :: "value_obj cptr \<Rightarrow> cerror + value_obj cptr" where
  "paxos_value_free v = bindR (deref v) (\<lambda>o'. bindR (cfree (vobj_val o')) (\<lambda>b. cfree (Live (o'\<lparr>vobj_val := b\<rparr>))))"

definition paxos_value_destroy :: "u32 \<Rightarrow> byte list cptr \<Rightarrow> cerror + byte list cptr" where
  "paxos_value_destroy len val = (if 0 < sint len then cfree val else Inr val)"

text \<open>A promise and an accept on the heap, with the block their value owns.\<close>

record promise_obj =
  obj_promise :: paxos_promise
  promise_val :: "byte list cptr"

record accept_obj =
  obj_accept :: paxos_accept
  accept_val :: "byte list cptr"

definition paxos_promise_destroy :: "promise_obj \<Rightarrow> cerror + promise_obj" where
  "paxos_promise_destroy p =
     bindR (paxos_value_destroy (paxos_value_len (promise_value (obj_promise p))) (promise_val p)) (\<lambda>b.
       Inr (p\<lparr>promise_val := b\<rparr>))"

definition paxos_accept_destroy :: "accept_obj \<Rightarrow> cerror + accept_obj" where
  "paxos_accept_destroy p =
     bindR (paxos_value_destroy (paxos_value_len (accept_value (obj_accept p))) (accept_val p)) (\<lambda>b.
       Inr (p\<lparr>accept_val := b\<rparr>))"

definition paxos_accepted_destroy :: "accepted_obj \<Rightarrow> cerror + accepted_obj" where
  "paxos_accepted_destroy p =
     bindR (paxos_value_destroy (paxos_value_len (acc_value (obj_acc p))) (obj_val p)) (\<lambda>b.
       Inr (p\<lparr>obj_val := b\<rparr>))"

text \<open>The second component is the value block as it is afterwards: live if it was not freed.\<close>

definition paxos_accepted_free :: "accepted_obj cptr \<Rightarrow> cerror + accepted_obj cptr \<times> byte list cptr" where
  "paxos_accepted_free a =
     bindR (deref a) (\<lambda>p. bindR (paxos_accepted_destroy p) (\<lambda>p1.
     bindR (cfree (Live p1)) (\<lambda>a1. Inr (a1, obj_val p1))))"

section \<open>User memory allocation\<close>

text \<open>
  \<open>malloc\<close> in the storage process: the addresses of the coming blocks, 0 for a failure,
  are an input of the model; when they are used up, calls succeed. A fresh block holds
  whatever the memory held.
\<close>

record uenv =
  mallocs :: "u64 list"
  garbage :: "nat \<Rightarrow> byte"

definition malloc :: "nat \<Rightarrow> uenv \<Rightarrow> u64 \<times> byte list cptr \<times> uenv" where
  "malloc n e =
     (let (addr, e1) = (case mallocs e of [] \<Rightarrow> (4096, e) | a # as \<Rightarrow> (a, e\<lparr>mallocs := as\<rparr>))
      in (addr, if addr = 0 then Null else Live (map (garbage e) [0..<n]), e1))"

text \<open>An environment in which no allocation fails.\<close>

definition mallocs_ok :: "uenv \<Rightarrow> bool" where
  "mallocs_ok e \<longleftrightarrow> 0 \<notin> set (mallocs e)"

lemma malloc_all:
  assumes "mallocs_ok e"
  obtains addr e1 where "malloc n e = (addr, Live (map (garbage e) [0..<n]), e1)" and "addr \<noteq> 0"
    and "mallocs_ok e1" and "garbage e1 = garbage e"
  using assms by (cases "mallocs e") (auto simp: malloc_def mallocs_ok_def)

section \<open>Conversions\<close>

definition buffer_to_paxos_accepted :: "byte list \<Rightarrow> uenv \<Rightarrow> cerror + accepted_obj \<times> uenv" where
  "buffer_to_paxos_accepted buffer e =
     bindR (mem_get 0 sizeof_paxos_accepted buffer) (\<lambda>img.
       let a = accepted_of_image img; len = paxos_value_len (acc_value a)
       in if 0 < sint len
          then let (addr, blk, e1) = malloc (unat (int_to_size len)) e
               in bindR (mem_get sizeof_paxos_accepted (unat (int_to_size len)) buffer) (\<lambda>src.
                  bindR (deref blk) (\<lambda>m. bindR (mem_put 0 src m) (\<lambda>m1.
                  Inr (\<lparr>obj_acc = a\<lparr>acc_value := (acc_value a)\<lparr>paxos_value_val := addr\<rparr>\<rparr>, obj_val = Live m1\<rparr>, e1))))
          else Inr (\<lparr>obj_acc = a\<lparr>acc_value := (acc_value a)\<lparr>paxos_value_val := 0\<rparr>\<rparr>, obj_val = Null\<rparr>, e))"

definition paxos_accepted_to_buffer :: "accepted_obj \<Rightarrow> uenv \<Rightarrow> cerror + byte list cptr \<times> uenv" where
  "paxos_accepted_to_buffer acc e =
     (let len = int_to_size (paxos_value_len (acc_value (obj_acc acc)));
          (addr, buffer, e1) = malloc (unat (of_nat sizeof_paxos_accepted + len)) e
      in bindR (nonnull buffer) (\<lambda>b.
         if \<not> b then Inr (Null, e1)
         else bindR (deref buffer) (\<lambda>m0.
              bindR (mem_put 0 (accepted_image (obj_acc acc)) m0) (\<lambda>m1.
              if 0 < len
              then bindR (deref (obj_val acc)) (\<lambda>val. bindR (mem_get 0 (unat len) val) (\<lambda>src.
                   bindR (mem_put sizeof_paxos_accepted src m1) (\<lambda>m2. Inr (Live m2, e1))))
              else Inr (Live m1, e1)))))"

text \<open>\<open>struct client_value\<close> is 16 bytes with its padding.\<close>

record client_value =
  bufferId :: u32
  cv_value :: "accepted_obj cptr"

definition sizeof_client_value :: nat where
  "sizeof_client_value = 16"

definition client_value_to_buffer :: "client_value \<Rightarrow> uenv \<Rightarrow> cerror + byte list cptr \<times> uenv" where
  "client_value_to_buffer client e =
     bindR (deref (cv_value client)) (\<lambda>acc.
       let accepted_len = int_to_size (paxos_value_len (acc_value (obj_acc acc))) + of_nat sizeof_paxos_accepted;
           (addr, buffer, e1) = malloc (unat (of_nat sizeof_client_value + accepted_len)) e
       in bindR (nonnull buffer) (\<lambda>b.
          if \<not> b then Inr (Null, e1)
          else bindR (paxos_accepted_to_buffer acc e1) (\<lambda>(accepted, e2).
               bindR (deref buffer) (\<lambda>m0.
               bindR (mem_put 0 (le32 (bufferId client)) m0) (\<lambda>m1.
               bindR (nonnull accepted) (\<lambda>ab.
               if ab
               then bindR (deref accepted) (\<lambda>am. bindR (mem_get 0 (unat accepted_len) am) (\<lambda>src.
                    bindR (mem_put 4 src m1) (\<lambda>m2. bindR (cfree accepted) (\<lambda>_. Inr (Live m2, e2)))))
               else Inr (Live m1, e2)))))))"

section \<open>What they compute\<close>

text \<open>A struct on the heap that holds the value \<open>v\<close>: its length field is the length of
  \<open>v\<close>, and its block is \<open>v\<close> unless there is nothing to hold.\<close>

definition holds :: "accepted_obj \<Rightarrow> byte list \<Rightarrow> bool" where
  "holds acc v \<longleftrightarrow> sint (paxos_value_len (acc_value (obj_acc acc))) = int (length v)
     \<and> (v \<noteq> [] \<longrightarrow> obj_val acc = Live v)"

lemma value_len_sizes:
  assumes "sint (w :: u32) = int n"
  shows "unat (int_to_size w) = n" and "n < 2 ^ 31" and "int_to_size w = of_nat n"
proof -
  show u: "unat (int_to_size w) = n" using assms by (simp add: unat_int_to_size)
  have "sint w < 2 ^ 31" using sint_range_size [of w] by (simp add: word_size)
  with assms show n: "n < 2 ^ 31" by simp
  then have "unat (of_nat n :: u64) = n" by (intro unat_of_nat64) simp
  with u show "int_to_size w = of_nat n" by (simp only: word_unat_eq_iff)
qed

lemma buffer_sizes:
  assumes "sint (w :: u32) = int n"
  shows "unat (40 + int_to_size w) = 40 + n" and "unat (int_to_size w + 40) = 40 + n"
    and "unat (16 + (int_to_size w + 40)) = 56 + n"
proof -
  note s = value_len_sizes [OF assms]
  have "unat (of_nat (40 + n) :: u64) = 40 + n" "unat (of_nat (56 + n) :: u64) = 56 + n"
    using s(2) by (intro unat_of_nat64; simp)+
  then show "unat (40 + int_to_size w) = 40 + n" "unat (int_to_size w + 40) = 40 + n"
    "unat (16 + (int_to_size w + 40)) = 56 + n"
    unfolding s(3) by (simp_all add: ac_simps)
qed

lemma to_buffer_result:
  assumes "holds acc v" and "mallocs_ok e"
  obtains e1 where "paxos_accepted_to_buffer acc e = Inr (Live (accepted_image (obj_acc acc) @ v), e1)"
    and "mallocs_ok e1" and "garbage e1 = garbage e"
proof -
  let ?len = "paxos_value_len (acc_value (obj_acc acc))"
  have s: "sint ?len = int (length v)" using assms(1) by (simp add: holds_def)
  obtain addr e1 where m: "malloc (40 + length v) e = (addr, Live (map (garbage e) [0..<40 + length v]), e1)"
    "mallocs_ok e1" "garbage e1 = garbage e" by (rule malloc_all [OF assms(2)])
  have len: "0 < int_to_size ?len \<longleftrightarrow> v \<noteq> []"
    using value_len_sizes(1) [OF s] by (simp add: word_less_nat_alt)
  have "paxos_accepted_to_buffer acc e = Inr (Live (accepted_image (obj_acc acc) @ v), e1)"
    using assms(1) m(1) len value_len_sizes(1) [OF s] buffer_sizes [OF s]
    by (auto simp: paxos_accepted_to_buffer_def size_defs mem_put_def mem_get_def holds_def)
  with m(2,3) that show ?thesis by blast
qed

lemma from_buffer_result:
  assumes "sint (paxos_value_len (acc_value a)) = int (length v)" and "mallocs_ok e"
  obtains addr e1 where "buffer_to_paxos_accepted (accepted_image a @ v @ rest) e =
      Inr (\<lparr>obj_acc = a\<lparr>acc_value := (acc_value a)\<lparr>paxos_value_val := addr\<rparr>\<rparr>,
            obj_val = (if v = [] then Null else Live v)\<rparr>, e1)"
    and "mallocs_ok e1" and "garbage e1 = garbage e"
proof (cases "v = []")
  case True
  with assms show ?thesis
    by (intro that [of 0 e])
       (simp_all add: buffer_to_paxos_accepted_def mem_get_def size_defs accepted_of_image_append)
next
  case False
  obtain addr e1 where m: "malloc (length v) e = (addr, Live (map (garbage e) [0..<length v]), e1)"
    "mallocs_ok e1" "garbage e1 = garbage e" by (rule malloc_all [OF assms(2)])
  from False assms m show ?thesis
    by (intro that [of addr e1])
       (simp_all add: buffer_to_paxos_accepted_def mem_get_def mem_put_def size_defs
          value_len_sizes(1) [OF assms(1)])
qed

lemma client_buffer_result:
  assumes "holds acc v" and "mallocs_ok e"
  obtains e1 pad where "client_value_to_buffer \<lparr>bufferId = i, cv_value = Live acc\<rparr> e =
      Inr (Live (le32 i @ accepted_image (obj_acc acc) @ v @ pad), e1)"
    and "length pad = 12" and "mallocs_ok e1" and "garbage e1 = garbage e"
proof -
  let ?len = "paxos_value_len (acc_value (obj_acc acc))" and ?n = "56 + length v"
  let ?pad = "drop (44 + length v) (map (garbage e) [0..<?n])"
  have s: "sint ?len = int (length v)" using assms(1) by (simp add: holds_def)
  obtain addr e1 where m: "malloc ?n e = (addr, Live (map (garbage e) [0..<?n]), e1)"
    "mallocs_ok e1" "garbage e1 = garbage e" by (rule malloc_all [OF assms(2)])
  obtain e2 where a: "paxos_accepted_to_buffer acc e1 = Inr (Live (accepted_image (obj_acc acc) @ v), e2)"
    "mallocs_ok e2" "garbage e2 = garbage e1" by (rule to_buffer_result [OF assms(1) m(2)])
  have "client_value_to_buffer \<lparr>bufferId = i, cv_value = Live acc\<rparr> e =
      Inr (Live (le32 i @ accepted_image (obj_acc acc) @ v @ ?pad), e2)"
    using m(1) a(1) buffer_sizes [OF s]
    by (simp add: client_value_to_buffer_def sizeof_client_value_def size_defs mem_put_def mem_get_def
        del: upt_rec_numeral map_append)
  with m(3) a(2,3) that show ?thesis by simp
qed

section \<open>Properties\<close>

text \<open>C12. A message survives the way through a buffer, whatever follows it there: writing a struct
  that holds a value of any length into a buffer and reading it back gives the same struct
  and a fresh copy of the value; only the value pointer, an address of the process, differs.\<close>

theorem codec_roundtrip:
  assumes "holds acc v" and "mallocs_ok e"
  shows "\<exists>buf e1 addr acc' e2. paxos_accepted_to_buffer acc e = Inr (Live buf, e1)
    \<and> length buf = 40 + length v \<and> buffer_to_paxos_accepted (buf @ rest) e1 = Inr (acc', e2) \<and> holds acc' v
    \<and> obj_acc acc' = (obj_acc acc)\<lparr>acc_value := (acc_value (obj_acc acc))\<lparr>paxos_value_val := addr\<rparr>\<rparr>"
proof -
  obtain e1 where w: "paxos_accepted_to_buffer acc e = Inr (Live (accepted_image (obj_acc acc) @ v), e1)"
    "mallocs_ok e1" by (rule to_buffer_result [OF assms])
  have s: "sint (paxos_value_len (acc_value (obj_acc acc))) = int (length v)" using assms(1) by (simp add: holds_def)
  obtain addr e2 where "buffer_to_paxos_accepted (accepted_image (obj_acc acc) @ v @ rest) e1 =
      Inr (\<lparr>obj_acc = (obj_acc acc)\<lparr>acc_value := (acc_value (obj_acc acc))\<lparr>paxos_value_val := addr\<rparr>\<rparr>,
            obj_val = (if v = [] then Null else Live v)\<rparr>, e2)" by (rule from_buffer_result [OF s w(2)])
  with w(1) s show ?thesis by (auto simp: holds_def)
qed

definition demo_uenv :: uenv where
  "demo_uenv = \<lparr>mallocs = [8192, 12288], garbage = (\<lambda>_. 0xEE)\<rparr>"

definition demo_stored :: accepted_obj where
  "demo_stored = \<lparr>obj_acc = \<lparr>aid = 1, iid = 7, promise_iid = 3, ballot = 5, value_ballot = 5, accepted_pad = 0,
     acc_value = \<lparr>paxos_value_len = 3, value_pad = 0, paxos_value_val = 1\<rparr>\<rparr>, obj_val = Live [10, 20, 30]\<rparr>"

lemma demo_uenv_ok: "mallocs_ok demo_uenv"
  by (simp add: mallocs_ok_def demo_uenv_def)

lemma demo_stored_holds: "holds demo_stored [10, 20, 30]"
  by (simp add: holds_def demo_stored_def)

theorem codec_roundtrip_witness:
  "\<exists>buf e1 acc' e2. paxos_accepted_to_buffer demo_stored demo_uenv = Inr (Live buf, e1) \<and> length buf = 43
     \<and> buffer_to_paxos_accepted (buf @ [9, 9]) e1 = Inr (acc', e2) \<and> obj_val acc' = Live [10, 20, 30]"
  using codec_roundtrip [OF demo_stored_holds demo_uenv_ok, of "[9, 9]"] by (auto simp: holds_def)

text \<open>A negative length breaks the conversion: the length is sign-extended into the size
  computation, so the buffer is smaller than the struct and copying the struct into it
  overflows the heap.\<close>

lemma negative_length_overflows:
  assumes "- 40 \<le> sint (paxos_value_len (acc_value (obj_acc acc)))"
    and "sint (paxos_value_len (acc_value (obj_acc acc))) < 0" and "mallocs_ok e"
  shows "paxos_accepted_to_buffer acc e = Inl OutOfBounds"
proof -
  let ?len = "paxos_value_len (acc_value (obj_acc acc))"
  let ?n = "unat (of_nat sizeof_paxos_accepted + int_to_size ?len)"
  have "of_nat sizeof_paxos_accepted + int_to_size ?len = (of_nat (nat (40 + sint ?len)) :: u64)"
    using assms(1) by (simp add: int_to_size_def size_defs)
  moreover have "nat (40 + sint ?len) < 40" using assms(2) by simp
  ultimately have n: "?n < 40" by (simp only:) (subst unat_of_nat64; simp)
  obtain addr e1 where "malloc ?n e = (addr, Live (map (garbage e) [0..<?n]), e1)"
    by (rule malloc_all [OF assms(3)])
  then show ?thesis using n by (simp add: paxos_accepted_to_buffer_def mem_put_bad)
qed

text \<open>\<open>paxos_accepted_free\<close> frees the struct once, and its value block exactly when the
  length field is positive: a message that was cleared, whose block is kept but whose length
  is 0, leaks its 200 bytes.\<close>

lemma accepted_free_value:
  assumes "obj_val acc = Live b"
  shows "paxos_accepted_free (Live acc) = Inr (Dangling,
      if 0 < sint (paxos_value_len (acc_value (obj_acc acc))) then Dangling else Live b)
    \<and> (\<forall>acc'. clearPaxosAccepted acc = Inr acc' \<longrightarrow>
         (\<exists>b'. paxos_accepted_free (Live acc') = Inr (Dangling, Live b')))"
  using assms
  by (auto simp: paxos_accepted_free_def paxos_accepted_destroy_def paxos_value_destroy_def
      clearPaxosAccepted_def bindR_eq_Inr)

end
