(* ===== verification/Lmdb_Storage.thy ===== *)
theory Lmdb_Storage
  imports Buffer_Codec
begin

text \<open>
  \<open>kpaxos/lmdb_operations.c\<close>: the message store of the storage process on top of LMDB.
  LMDB is a library outside the repository: its functions are the fields of a record the
  operations take as an argument, and what the proofs use of its documented behaviour is
  the predicate \<open>lmdb_laws\<close>. The handle of the store holds plain words, because the code
  never initialises all of them.
\<close>

section \<open>The library\<close>

text \<open>
  The state of the library (and of the file system below it) is \<open>'w\<close>. Handles are
  addresses and numbers; a result code of 0 is success. An out parameter is an option:
  the value stored, or nothing stored. A function that is handed a handle that is not live
  may go wrong (\<open>Inl\<close>).
\<close>

record 'w lmdb_api =
  dir_exists :: "char list \<Rightarrow> 'w \<Rightarrow> bool"
  make_dir :: "char list \<Rightarrow> 'w \<Rightarrow> int \<times> 'w"
  mdb_env_create :: "'w \<Rightarrow> int \<times> u64 option \<times> 'w"
  mdb_env_set_mapsize :: "u64 \<Rightarrow> nat \<Rightarrow> 'w \<Rightarrow> cerror + int \<times> 'w"
  mdb_env_open :: "u64 \<Rightarrow> char list \<Rightarrow> 'w \<Rightarrow> cerror + int \<times> 'w"
  mdb_txn_begin :: "u64 \<Rightarrow> 'w \<Rightarrow> cerror + int \<times> u64 option \<times> 'w"
  mdb_open :: "u64 \<Rightarrow> 'w \<Rightarrow> cerror + int \<times> u32 option \<times> 'w"
  mdb_set_compare :: "u64 \<Rightarrow> u32 \<Rightarrow> 'w \<Rightarrow> cerror + int \<times> 'w"
  mdb_txn_commit :: "u64 \<Rightarrow> 'w \<Rightarrow> cerror + int \<times> 'w"
  mdb_txn_abort :: "u64 \<Rightarrow> 'w \<Rightarrow> cerror + 'w"
  mdb_close :: "u64 \<Rightarrow> u32 \<Rightarrow> 'w \<Rightarrow> cerror + 'w"
  mdb_env_close :: "u64 \<Rightarrow> 'w \<Rightarrow> cerror + 'w"
  mdb_put :: "u64 \<Rightarrow> u32 \<Rightarrow> byte list \<Rightarrow> byte list \<Rightarrow> 'w \<Rightarrow> cerror + int \<times> 'w"
  mdb_get :: "u64 \<Rightarrow> u32 \<Rightarrow> byte list \<Rightarrow> 'w \<Rightarrow> cerror + int \<times> byte list"

section \<open>The handle and its operations\<close>

record lmdb_storage =
  st_env :: u64
  st_txn :: u64
  st_dbi :: u32
  acceptor_id :: u32

definition db_env_path :: "char list" where
  "db_env_path = ''/tmp/paxos''"

definition lmdb_mapsize :: nat where
  "lmdb_mapsize = 10 * 1024 * 1024"

text \<open>The comparison of two keys, installed in the database.\<close>

definition lmdb_compare_iid :: "byte list \<Rightarrow> byte list \<Rightarrow> cerror + int" where
  "lmdb_compare_iid lhs rhs =
     (if length lhs \<noteq> 4 \<or> length rhs \<noteq> 4 then Inl AssertFailed
      else let lid = rd32 lhs; rid = rd32 rhs
           in Inr (if lid = rid then 0 else if lid < rid then - 1 else 1))"

definition lmdb_storage_close :: "'w lmdb_api \<Rightarrow> lmdb_storage \<Rightarrow> 'w \<Rightarrow> cerror + 'w" where
  "lmdb_storage_close M s w =
     bindR (if st_txn s \<noteq> 0 then mdb_txn_abort M (st_txn s) w else Inr w) (\<lambda>w1.
     bindR (if st_dbi s \<noteq> 0 then mdb_close M (st_env s) (st_dbi s) w1 else Inr w1) (\<lambda>w2.
     if st_env s \<noteq> 0 then mdb_env_close M (st_env s) w2 else Inr w2))"

text \<open>
  \<open>lmdb_storage_init\<close>. \<open>init_error\<close> is its error label, reached with the local handles as
  they are at that point (0 is NULL); \<open>stored h out\<close> is a variable whose address was passed.
\<close>

definition stored :: "('a :: len) word \<Rightarrow> 'a word option \<Rightarrow> 'a word" where
  "stored h out = (case out of None \<Rightarrow> h | Some x \<Rightarrow> x)"

definition init_error ::
  "'w lmdb_api \<Rightarrow> lmdb_storage \<Rightarrow> u64 \<Rightarrow> u64 \<Rightarrow> u32 \<Rightarrow> 'w \<Rightarrow> cerror + int \<times> lmdb_storage \<times> 'w" where
  "init_error M s env txn dbi w =
     bindR (if txn \<noteq> 0 then mdb_txn_abort M txn w else Inr w) (\<lambda>w1.
     bindR (if dbi \<noteq> 0 then mdb_close M env dbi w1 else Inr w1) (\<lambda>w2.
     bindR (if env \<noteq> 0 then mdb_env_close M env w2 else Inr w2) (\<lambda>w3. Inr (- 1, s, w3))))"

definition lmdb_storage_init ::
  "'w lmdb_api \<Rightarrow> lmdb_storage \<Rightarrow> char list \<Rightarrow> 'w \<Rightarrow> cerror + int \<times> lmdb_storage \<times> 'w" where
  "lmdb_storage_init M s path w =
     (let (mk, w0) = (if dir_exists M path w then (0, w) else make_dir M path w)
      in if mk \<noteq> 0 then init_error M s 0 0 0 w0
      else let (r1, h1, w1) = mdb_env_create M w0; env = stored 0 h1
      in if r1 \<noteq> 0 then init_error M s env 0 0 w1
      else bindR (mdb_env_set_mapsize M env lmdb_mapsize w1) (\<lambda>(r2, w2).
         if r2 \<noteq> 0 then init_error M s env 0 0 w2
         else bindR (mdb_env_open M env path w2) (\<lambda>(r3, w3).
         if r3 \<noteq> 0 then init_error M s env 0 0 w3
         else bindR (mdb_txn_begin M env w3) (\<lambda>(r4, h4, w4).
         let txn = stored 0 h4
         in if r4 \<noteq> 0 then init_error M s env txn 0 w4
         else bindR (mdb_open M txn w4) (\<lambda>(r5, h5, w5).
         let dbi = stored 0 h5
         in if r5 \<noteq> 0 then init_error M s env txn dbi w5
         else bindR (mdb_set_compare M txn dbi w5) (\<lambda>(r6, w6).
         if r6 \<noteq> 0 then init_error M s env txn dbi w6
         else bindR (mdb_txn_commit M txn w6) (\<lambda>(r7, w7).
         if r7 \<noteq> 0 then init_error M s env txn dbi w7
         else Inr (0, s\<lparr>st_env := env, st_dbi := dbi\<rparr>, w7))))))))"

text \<open>\<open>%d\<close> of an \<open>int\<close>, and \<open>snprintf\<close> of a string that may be cut.\<close>

fun digits :: "nat \<Rightarrow> char list" where
  "digits n = (if n < 10 then [char_of (n + 48)] else digits (n div 10) @ [char_of (n mod 10 + 48)])"

declare digits.simps [simp del]

definition show_int :: "int \<Rightarrow> char list" where
  "show_int k = (if k < 0 then CHR ''-'' # digits (nat (- k)) else digits (nat k))"

definition snprintf :: "nat \<Rightarrow> char list \<Rightarrow> char list" where
  "snprintf n s = take (n - 1) s"

definition storage_path :: "u32 \<Rightarrow> char list" where
  "storage_path acceptor = db_env_path @ ''_'' @ show_int (sint acceptor)"

definition lmdb_storage_open ::
  "'w lmdb_api \<Rightarrow> lmdb_storage \<Rightarrow> uenv \<Rightarrow> 'w \<Rightarrow> cerror + int \<times> lmdb_storage \<times> uenv \<times> 'w" where
  "lmdb_storage_open M s e w =
     (let lmdb_env_path_length = length db_env_path + 16;
          (addr, blk, e1) = malloc lmdb_env_path_length e
      in bindR (deref blk) (\<lambda>_.
         let path = snprintf lmdb_env_path_length (storage_path (acceptor_id s));
             (mk, w0) = (if dir_exists M path w then (0, w) else make_dir M path w)
         in if mk \<noteq> 0 then bindR (lmdb_storage_close M s w0) (\<lambda>w1. Inr (- 1, s, e1, w1))
            else bindR (lmdb_storage_init M s path w0) (\<lambda>(r, s1, w1).
                 if r \<noteq> 0 then bindR (lmdb_storage_close M s1 w1) (\<lambda>w2. Inr (1, s1, e1, w2))
                 else Inr (0, s1, e1, w1))))"

definition lmdb_storage_tx_begin ::
  "'w lmdb_api \<Rightarrow> lmdb_storage \<Rightarrow> 'w \<Rightarrow> cerror + int \<times> lmdb_storage \<times> 'w" where
  "lmdb_storage_tx_begin M s w =
     (if st_txn s \<noteq> 0 then Inl AssertFailed
      else bindR (mdb_txn_begin M (st_env s) w) (\<lambda>(r, h, w1). Inr (r, s\<lparr>st_txn := stored (st_txn s) h\<rparr>, w1)))"

definition lmdb_storage_tx_commit ::
  "'w lmdb_api \<Rightarrow> lmdb_storage \<Rightarrow> 'w \<Rightarrow> cerror + int \<times> lmdb_storage \<times> 'w" where
  "lmdb_storage_tx_commit M s w =
     (if st_txn s = 0 then Inl AssertFailed
      else bindR (mdb_txn_commit M (st_txn s) w) (\<lambda>(r, w1). Inr (r, s\<lparr>st_txn := 0\<rparr>, w1)))"

definition lmdb_storage_tx_abort ::
  "'w lmdb_api \<Rightarrow> lmdb_storage \<Rightarrow> 'w \<Rightarrow> cerror + lmdb_storage \<times> 'w" where
  "lmdb_storage_tx_abort M s w =
     (if st_txn s \<noteq> 0 then bindR (mdb_txn_abort M (st_txn s) w) (\<lambda>w1. Inr (s\<lparr>st_txn := 0\<rparr>, w1))
      else Inr (s, w))"

definition lmdb_storage_put ::
  "'w lmdb_api \<Rightarrow> lmdb_storage \<Rightarrow> accepted_obj \<Rightarrow> uenv \<Rightarrow> 'w \<Rightarrow> cerror + int \<times> uenv \<times> 'w" where
  "lmdb_storage_put M s acc e w =
     bindR (paxos_accepted_to_buffer acc e) (\<lambda>(buffer, e1).
     let key = le32 (iid (obj_acc acc));
         mv_size = of_nat sizeof_paxos_accepted + int_to_size (paxos_value_len (acc_value (obj_acc acc)))
     in bindR (deref buffer) (\<lambda>b. bindR (mem_get 0 (unat mv_size) b) (\<lambda>data.
        bindR (mdb_put M (st_txn s) (st_dbi s) key data w) (\<lambda>(result, w1).
        bindR (cfree buffer) (\<lambda>_. Inr (result, e1, w1))))))"

text \<open>\<open>out\<close> is the struct the caller provides; the result is 1 for found and 0 otherwise.\<close>

definition lmdb_storage_get ::
  "'w lmdb_api \<Rightarrow> lmdb_storage \<Rightarrow> u32 \<Rightarrow> accepted_obj \<Rightarrow> uenv \<Rightarrow> 'w \<Rightarrow> cerror + int \<times> accepted_obj \<times> uenv" where
  "lmdb_storage_get M s i out e w =
     bindR (mdb_get M (st_txn s) (st_dbi s) (le32 i) w) (\<lambda>(result, data).
     if result \<noteq> 0 then Inr (0, out, e)
     else bindR (buffer_to_paxos_accepted data e) (\<lambda>(out1, e1).
          if i \<noteq> iid (obj_acc out1) then Inl AssertFailed else Inr (1, out1, e1)))"

section \<open>What is relied on\<close>

definition MDB_NOTFOUND :: int where
  "MDB_NOTFOUND = - 30798"

text \<open>
  The documented behaviour of an open environment and database: \<open>ok w\<close> that they are open
  and no write transaction of this environment is in the way, \<open>db w\<close> what is committed,
  \<open>view w t\<close> what the live transaction \<open>t\<close> sees. Every call may fail; a failed begin
  stores no handle, a commit and an abort end the transaction, only a successful commit
  changes what is committed, and a get without a transaction is an invalid call.
\<close>

definition lmdb_laws ::
  "'w lmdb_api \<Rightarrow> u64 \<Rightarrow> u32 \<Rightarrow> ('w \<Rightarrow> bool) \<Rightarrow> ('w \<Rightarrow> byte list \<rightharpoonup> byte list)
   \<Rightarrow> ('w \<Rightarrow> u64 \<Rightarrow> (byte list \<rightharpoonup> byte list) option) \<Rightarrow> bool" where
  "lmdb_laws M env dbi ok db view \<longleftrightarrow>
     (\<forall>w. ok w \<longrightarrow> (\<exists>r h w'. mdb_txn_begin M env w = Inr (r, h, w') \<and> db w' = db w
        \<and> (if r = 0 then \<exists>t. h = Some t \<and> t \<noteq> 0 \<and> view w' t = Some (db w) else h = None \<and> ok w')))
     \<and> (\<forall>w t m k d. view w t = Some m \<longrightarrow> (\<exists>r w'. mdb_put M t dbi k d w = Inr (r, w') \<and> db w' = db w
        \<and> (if r = 0 then view w' t = Some (m(k \<mapsto> d)) else view w' t \<noteq> None)))
     \<and> (\<forall>w t m k. view w t = Some m \<longrightarrow> (\<exists>r d. mdb_get M t dbi k w = Inr (r, d)
        \<and> (case m k of Some d' \<Rightarrow> r = 0 \<and> d = d' | None \<Rightarrow> r = MDB_NOTFOUND)))
     \<and> (\<forall>w t m. view w t = Some m \<longrightarrow> (\<exists>r w'. mdb_txn_commit M t w = Inr (r, w') \<and> ok w'
        \<and> db w' = (if r = 0 then m else db w)))
     \<and> (\<forall>w t. view w t \<noteq> None \<longrightarrow> (\<exists>w'. mdb_txn_abort M t w = Inr w' \<and> ok w' \<and> db w' = db w))
     \<and> (\<forall>w k. \<exists>r d. mdb_get M 0 dbi k w = Inr (r, d) \<and> r \<noteq> 0)"

lemma lmdb_lawsD:
  assumes "lmdb_laws M env dbi ok db view"
  shows lmdb_begin: "ok w \<Longrightarrow> \<exists>r h w'. mdb_txn_begin M env w = Inr (r, h, w') \<and> db w' = db w
        \<and> (if r = 0 then \<exists>t. h = Some t \<and> t \<noteq> 0 \<and> view w' t = Some (db w) else h = None \<and> ok w')"
    and lmdb_put: "view w t = Some m \<Longrightarrow> \<exists>r w'. mdb_put M t dbi k d w = Inr (r, w') \<and> db w' = db w
        \<and> (if r = 0 then view w' t = Some (m(k \<mapsto> d)) else view w' t \<noteq> None)"
    and lmdb_get: "view w t = Some m \<Longrightarrow> \<exists>r d. mdb_get M t dbi k w = Inr (r, d)
        \<and> (case m k of Some d' \<Rightarrow> r = 0 \<and> d = d' | None \<Rightarrow> r = MDB_NOTFOUND)"
    and lmdb_commit: "view w t = Some m \<Longrightarrow> \<exists>r w'. mdb_txn_commit M t w = Inr (r, w') \<and> ok w'
        \<and> db w' = (if r = 0 then m else db w)"
    and lmdb_abort: "view w t \<noteq> None \<Longrightarrow> \<exists>w'. mdb_txn_abort M t w = Inr w' \<and> ok w' \<and> db w' = db w"
    and lmdb_get_null: "\<exists>r d. mdb_get M 0 dbi k w = Inr (r, d) \<and> r \<noteq> 0"
  using assms unfolding lmdb_laws_def by simp_all

section \<open>Putting and getting in a transaction\<close>

text \<open>A stored record: the image of the struct and as much value as its length field says.\<close>

definition record_of :: "paxos_accepted \<Rightarrow> byte list \<Rightarrow> byte list" where
  "record_of a v = accepted_image a @ v"

lemma storage_put_result:
  assumes "lmdb_laws M env dbi ok db view" and "view w (st_txn s) = Some m" and "st_dbi s = dbi"
    and "holds acc v" and "mallocs_ok e"
  shows "\<exists>r e1 w1. lmdb_storage_put M s acc e w = Inr (r, e1, w1) \<and> mallocs_ok e1 \<and> db w1 = db w
    \<and> (if r = 0 then view w1 (st_txn s) = Some (m(le32 (iid (obj_acc acc)) \<mapsto> record_of (obj_acc acc) v))
       else view w1 (st_txn s) \<noteq> None)"
proof -
  obtain e1 where b: "paxos_accepted_to_buffer acc e = Inr (Live (accepted_image (obj_acc acc) @ v), e1)"
    "mallocs_ok e1" by (rule to_buffer_result [OF assms(4,5)])
  have s: "sint (paxos_value_len (acc_value (obj_acc acc))) = int (length v)" using assms(4) by (simp add: holds_def)
  have g: "mem_get 0 (40 + length v) (accepted_image (obj_acc acc) @ v) = Inr (record_of (obj_acc acc) v)"
    by (simp add: mem_get_def record_of_def)
  obtain r w1 where p: "mdb_put M (st_txn s) dbi (le32 (iid (obj_acc acc))) (record_of (obj_acc acc) v) w = Inr (r, w1)"
    "db w1 = db w" "if r = 0 then view w1 (st_txn s) = Some (m(le32 (iid (obj_acc acc)) \<mapsto> record_of (obj_acc acc) v))
       else view w1 (st_txn s) \<noteq> None"
    using lmdb_put [OF assms(1,2), of "le32 (iid (obj_acc acc))" "record_of (obj_acc acc) v"] by blast
  have "lmdb_storage_put M s acc e w = Inr (r, e1, w1)"
    using p(1) b(1) g buffer_sizes(1) [OF s] assms(3) by (simp add: lmdb_storage_put_def size_defs)
  with p(2,3) b(2) show ?thesis by blast
qed

lemma storage_get_missing:
  assumes "lmdb_laws M env dbi ok db view" and "view w (st_txn s) = Some m" and "st_dbi s = dbi"
    and "m (le32 i) = None"
  shows "lmdb_storage_get M s i out e w = Inr (0, out, e)"
  using lmdb_get [OF assms(1,2), of "le32 i"] assms(3,4)
  by (auto simp: lmdb_storage_get_def MDB_NOTFOUND_def)

lemma storage_get_found:
  assumes "lmdb_laws M env dbi ok db view" and "view w (st_txn s) = Some m" and "st_dbi s = dbi"
    and "m (le32 i) = Some (record_of a v)" and "sint (paxos_value_len (acc_value a)) = int (length v)"
    and "iid a = i" and "mallocs_ok e"
  shows "\<exists>addr e1. lmdb_storage_get M s i out e w =
      Inr (1, \<lparr>obj_acc = a\<lparr>acc_value := (acc_value a)\<lparr>paxos_value_val := addr\<rparr>\<rparr>,
              obj_val = (if v = [] then Null else Live v)\<rparr>, e1) \<and> mallocs_ok e1"
proof -
  obtain addr e1 where b: "buffer_to_paxos_accepted (accepted_image a @ v @ []) e =
      Inr (\<lparr>obj_acc = a\<lparr>acc_value := (acc_value a)\<lparr>paxos_value_val := addr\<rparr>\<rparr>,
            obj_val = (if v = [] then Null else Live v)\<rparr>, e1)" "mallocs_ok e1"
    by (rule from_buffer_result [OF assms(5,7)])
  have "mdb_get M (st_txn s) (st_dbi s) (le32 i) w = Inr (0, record_of a v)"
    using lmdb_get [OF assms(1,2), of "le32 i"] assms(3,4) by auto
  with b assms(6) show ?thesis by (auto simp: lmdb_storage_get_def record_of_def)
qed

section \<open>A library that follows the laws, for the witnesses\<close>

text \<open>One database, one transaction at a time under the handle 1; \<open>full\<close> makes every put fail.\<close>

type_synonym demo_world = "(byte list \<rightharpoonup> byte list) \<times> (byte list \<rightharpoonup> byte list) option"

definition demo_lmdb :: "bool \<Rightarrow> demo_world lmdb_api" where
  "demo_lmdb full =
     \<lparr>dir_exists = (\<lambda>_ _. True), make_dir = (\<lambda>_ w. (0, w)), mdb_env_create = (\<lambda>w. (0, Some 4096, w)),
      mdb_env_set_mapsize = (\<lambda>_ _ w. Inr (0, w)), mdb_env_open = (\<lambda>_ _ w. Inr (0, w)),
      mdb_txn_begin = (\<lambda>_ (d, a). Inr (if a = None then (0, Some 1, d, Some d) else (16, None, d, a))),
      mdb_open = (\<lambda>_ w. Inr (0, Some 1, w)), mdb_set_compare = (\<lambda>_ _ w. Inr (0, w)),
      mdb_txn_commit = (\<lambda>t (d, a). case a of Some m \<Rightarrow> if t = 1 then Inr (0, m, None) else Inl BadPointer
                                    | None \<Rightarrow> Inl BadPointer),
      mdb_txn_abort = (\<lambda>t (d, a). if t = 1 \<and> a \<noteq> None then Inr (d, None) else Inl BadPointer),
      mdb_close = (\<lambda>_ _ w. Inr w), mdb_env_close = (\<lambda>_ w. Inr w),
      mdb_put = (\<lambda>t _ k x (d, a). case a of
          Some m \<Rightarrow> if t \<noteq> 1 then Inl BadPointer else if full then Inr (- 30792, d, a) else Inr (0, d, Some (m(k \<mapsto> x)))
        | None \<Rightarrow> Inl BadPointer),
      mdb_get = (\<lambda>t _ k (d, a). if t = 0 then Inr (22, []) else case a of
          Some m \<Rightarrow> if t \<noteq> 1 then Inl BadPointer
                    else Inr (case m k of Some x \<Rightarrow> (0, x) | None \<Rightarrow> (MDB_NOTFOUND, []))
        | None \<Rightarrow> Inl BadPointer)\<rparr>"

abbreviation demo_idle :: "demo_world \<Rightarrow> bool" where
  "demo_idle w \<equiv> snd w = None"

definition demo_view :: "demo_world \<Rightarrow> u64 \<Rightarrow> (byte list \<rightharpoonup> byte list) option" where
  "demo_view w t = (if t = 1 then snd w else None)"

lemma demo_laws: "lmdb_laws (demo_lmdb full) env dbi demo_idle fst demo_view"
  unfolding lmdb_laws_def demo_lmdb_def demo_view_def
  by (auto split: option.splits if_splits)

definition demo_handle :: lmdb_storage where
  "demo_handle = \<lparr>st_env = 4096, st_txn = 0, st_dbi = 1, acceptor_id = 0\<rparr>"

section \<open>Properties\<close>

lemma digits_length: "n < 10 ^ Suc k \<Longrightarrow> length (digits n) \<le> Suc k"
proof (induction k arbitrary: n)
  case 0
  then show ?case by (subst digits.simps) simp
next
  case (Suc k)
  then have "n div 10 < 10 ^ Suc k" by simp
  from Suc.IH [OF this] show ?case by (subst digits.simps) simp
qed

text \<open>The path of the database always fits its buffer: the 16 bytes that are added to the
  base path hold the separator, any 32-bit acceptor id with its sign, and the NUL, so
  \<open>snprintf\<close> never cuts it.\<close>

lemma storage_path_fits:
  "snprintf (length db_env_path + 16) (storage_path acceptor) = storage_path acceptor"
proof -
  have "- (2 ^ 31) \<le> sint acceptor \<and> sint acceptor < 2 ^ 31"
    using sint_range_size [of acceptor] by (simp add: word_size)
  then have "nat (sint acceptor) < 10 ^ Suc 9" "nat (- sint acceptor) < 10 ^ Suc 9" by auto
  then have "length (digits (nat (sint acceptor))) \<le> Suc 9" "length (digits (nat (- sint acceptor))) \<le> Suc 9"
    using digits_length by blast+
  then have "length (show_int (sint acceptor)) \<le> 11" by (simp add: show_int_def)
  then show ?thesis by (simp add: snprintf_def storage_path_def db_env_path_def)
qed

text \<open>Different ids have different paths: the decimal notation can be read back.\<close>

definition undigits :: "char list \<Rightarrow> nat" where
  "undigits cs = foldl (\<lambda>n c. 10 * n + (of_char c - 48)) 0 cs"

lemma undigits_digits: "undigits (digits n) = n"
proof (induction n rule: digits.induct)
  case (1 n)
  have c: "of_char (char_of (k + 48) :: char) - 48 = k" if "k < 10" for k :: nat using that by simp
  show ?case
  proof (cases "n < 10")
    case True
    then show ?thesis by (subst digits.simps) (simp add: undigits_def)
  next
    case False
    with 1 have "undigits (digits (n div 10)) = n div 10" by simp
    with False c [of "n mod 10"] show ?thesis by (subst digits.simps) (simp add: undigits_def)
  qed
qed

lemma digits_not_minus: "hd (digits n) \<noteq> CHR ''-'' \<and> digits n \<noteq> []"
proof (induction n rule: digits.induct)
  case (1 n)
  show ?case
  proof (cases "n < 10")
    case True
    have "char_of (n + 48) \<noteq> CHR ''-''"
    proof
      assume "char_of (n + 48) = CHR ''-''"
      then have "(of_char (char_of (n + 48) :: char) :: nat) = of_char CHR ''-''" by (rule arg_cong)
      with True show False by simp
    qed
    moreover have "digits n = [char_of (n + 48)]" using True by (subst digits.simps) simp
    ultimately show ?thesis by simp
  next
    case False
    then have "digits n = digits (n div 10) @ [char_of (n mod 10 + 48)]" by (subst digits.simps) simp
    with 1 False show ?thesis by simp
  qed
qed

lemma digits_sign: "digits n \<noteq> CHR ''-'' # cs" "CHR ''-'' # cs \<noteq> digits n"
  using digits_not_minus [of n] by (metis list.sel(1))+

lemma digits_inj: "digits m = digits n \<Longrightarrow> m = n"
  by (metis undigits_digits)

lemma show_int_inj:
  assumes "show_int j = show_int k"
  shows "j = k"
proof -
  have s: "show_int i = (if i < 0 then CHR ''-'' # digits (nat (- i)) else digits (nat i))" for i
    by (rule show_int_def)
  have "j < 0 \<longleftrightarrow> k < 0"
    using assms by (auto simp: s digits_sign split: if_splits)
  moreover have "nat (- j) = nat (- k)" if "j < 0" "k < 0" using assms that by (intro digits_inj) (simp add: s)
  moreover have "nat j = nat k" if "\<not> j < 0" "\<not> k < 0" using assms that by (intro digits_inj) (simp add: s)
  ultimately show ?thesis by (cases "j < 0") auto
qed

lemma storage_path_inj: "storage_path a = storage_path b \<Longrightarrow> a = b"
  using show_int_inj [of "sint a" "sint b"] by (auto simp: storage_path_def intro: signed_word_eqI)

text \<open>The comparison installed in the database is a total order of the keys: on 4-byte keys
  it answers 0 exactly for equal keys, it agrees with the numeric order of the instance
  numbers, swapping the arguments swaps the answer, and it is transitive.\<close>

lemma compare_iid_order:
  "lmdb_compare_iid (le32 a) (le32 b) = Inr (if a = b then 0 else if unat a < unat b then - 1 else 1)
   \<and> (lmdb_compare_iid k l = Inr 0 \<longleftrightarrow> length k = 4 \<and> k = l)
   \<and> (lmdb_compare_iid k l = Inr c \<longrightarrow> lmdb_compare_iid l k = Inr (- c))
   \<and> (lmdb_compare_iid k l = Inr (- 1) \<and> lmdb_compare_iid l m = Inr (- 1) \<longrightarrow> lmdb_compare_iid k m = Inr (- 1))"
proof -
  have inj: "length k = 4 \<Longrightarrow> length l = 4 \<Longrightarrow> rd32 k = rd32 l \<longleftrightarrow> k = l"
    using le32_rd32 [of k] le32_rd32 [of l] by metis
  have "lmdb_compare_iid (le32 a) (le32 b) = Inr (if a = b then 0 else if unat a < unat b then - 1 else 1)"
    by (simp add: lmdb_compare_iid_def word_less_nat_alt)
  moreover have "lmdb_compare_iid k l = Inr 0 \<longleftrightarrow> length k = 4 \<and> k = l"
    using inj by (auto simp: lmdb_compare_iid_def Let_def)
  moreover have "lmdb_compare_iid k l = Inr c \<longrightarrow> lmdb_compare_iid l k = Inr (- c)"
    by (auto simp: lmdb_compare_iid_def Let_def)
  moreover have "lmdb_compare_iid k l = Inr (- 1) \<and> lmdb_compare_iid l m = Inr (- 1) \<longrightarrow> lmdb_compare_iid k m = Inr (- 1)"
    by (auto simp: lmdb_compare_iid_def Let_def split: if_splits)
  ultimately show ?thesis by blast
qed

definition keeps :: "lmdb_storage \<Rightarrow> cerror + int \<times> lmdb_storage \<times> 'w \<Rightarrow> bool" where
  "keeps s r \<longleftrightarrow> (\<forall>q t v. r = Inr (q, t, v) \<longrightarrow> st_txn t = st_txn s \<and> acceptor_id t = acceptor_id s
     \<and> (q \<noteq> 0 \<longrightarrow> t = s))"

lemma keeps_bind: "(\<And>x. keeps s (f x)) \<Longrightarrow> keeps s (bindR m f)"
  by (cases m) (auto simp: keeps_def)

lemma keeps_if: "keeps s x \<Longrightarrow> keeps s y \<Longrightarrow> keeps s (if c then x else y)"
  by simp

lemma keeps_error: "keeps s (init_error M s env txn dbi w)"
  by (auto simp: keeps_def init_error_def bindR_eq_Inr split: if_splits)

lemmas keeps_intros = keeps_bind keeps_if keeps_error

text \<open>C28. Opening the store does not initialise its handle: whatever the outcome, the transaction
  pointer stays what the memory held, so unless that happened to be NULL the first
  transaction of a freshly opened store fails the assertion; and when opening fails, it closes
  the handle with whatever the memory held as transaction, database and environment.\<close>

theorem open_leaves_txn:
  assumes "lmdb_storage_open M s e w = Inr (r, s', e', w')"
  shows "st_txn s' = st_txn s \<and> acceptor_id s' = acceptor_id s
    \<and> (st_txn s \<noteq> 0 \<longrightarrow> lmdb_storage_tx_begin M s' w'' = Inl AssertFailed)
    \<and> (r \<noteq> 0 \<longrightarrow> s' = s \<and> (\<exists>w1. lmdb_storage_close M s w1 = Inr w'))"
proof -
  have "keeps s (lmdb_storage_init M s path v)" for path v
    unfolding lmdb_storage_init_def Let_def case_prod_beta
    by (intro keeps_intros) (simp_all add: keeps_def)
  then have init: "st_txn t = st_txn s \<and> acceptor_id t = acceptor_id s \<and> (q \<noteq> 0 \<longrightarrow> t = s)"
    if "lmdb_storage_init M s path v = Inr (q, t, v')" for path v q t v'
    using that unfolding keeps_def by blast
  from assms have "st_txn s' = st_txn s \<and> acceptor_id s' = acceptor_id s"
    unfolding lmdb_storage_open_def Let_def case_prod_beta by (auto simp: bindR_eq_Inr dest: init split: if_splits)
  moreover have "s' = s \<and> (\<exists>w1. lmdb_storage_close M s w1 = Inr w')" if "r \<noteq> 0"
    using assms that unfolding lmdb_storage_open_def Let_def case_prod_beta
    by (auto simp: bindR_eq_Inr dest: init split: if_splits)
  ultimately show ?thesis by (simp add: lmdb_storage_tx_begin_def)
qed

theorem open_leaves_txn_witness:
  "\<exists>s' e' w'. lmdb_storage_open (demo_lmdb False) (demo_handle\<lparr>st_txn := 0xBAD\<rparr>) demo_uenv (Map.empty, None)
      = Inr (0, s', e', w')
    \<and> st_txn s' = 0xBAD \<and> lmdb_storage_tx_begin (demo_lmdb False) s' w' = Inl AssertFailed"
proof -
  have "\<exists>s' e' w'. lmdb_storage_open (demo_lmdb False) (demo_handle\<lparr>st_txn := 0xBAD\<rparr>) demo_uenv (Map.empty, None)
      = Inr (0, s', e', w')"
    by (simp add: lmdb_storage_open_def lmdb_storage_init_def malloc_def demo_uenv_def demo_lmdb_def stored_def Let_def)
  then obtain s' e' w' where o: "lmdb_storage_open (demo_lmdb False) (demo_handle\<lparr>st_txn := 0xBAD\<rparr>) demo_uenv
      (Map.empty, None) = Inr (0, s', e', w')" by blast
  from open_leaves_txn [OF o, of w'] o show ?thesis by simp
qed

text \<open>A commit ends its transaction even if it fails; the error exit aborts the transaction once
  more. Where that is a use of a freed handle, opening the store ends with it.\<close>

lemma init_commit_failure:
  assumes "dir_exists M path w" and "mdb_env_create M w = (0, Some env, w1)"
    and "mdb_env_set_mapsize M env lmdb_mapsize w1 = Inr (0, w2)" and "mdb_env_open M env path w2 = Inr (0, w3)"
    and "mdb_txn_begin M env w3 = Inr (0, Some txn, w4)" and "txn \<noteq> 0"
    and "mdb_open M txn w4 = Inr (0, h5, w5)" and "mdb_set_compare M txn (stored 0 h5) w5 = Inr (0, w6)"
    and "mdb_txn_commit M txn w6 = Inr (r, w7)" and "r \<noteq> 0" and "mdb_txn_abort M txn w7 = Inl UseAfterFree"
  shows "lmdb_storage_init M s path w = Inl UseAfterFree"
  using assms by (simp add: lmdb_storage_init_def init_error_def stored_def)

text \<open>A store that was opened has an environment at the path it was given.\<close>

lemma init_opens:
  assumes "lmdb_storage_init M s path w = Inr (0, s', w')"
  shows "\<exists>env v v'. mdb_env_open M env path v = Inr (0, v')"
  using assms unfolding lmdb_storage_init_def Let_def case_prod_beta init_error_def
  by (auto simp: bindR_eq_Inr split: if_splits)

lemma open_opens:
  assumes "lmdb_storage_open M s e w = Inr (0, s', e', w')"
  shows "\<exists>env v v'. mdb_env_open M env (storage_path (acceptor_id s)) v = Inr (0, v')"
  using assms unfolding lmdb_storage_open_def Let_def case_prod_beta
  by (auto simp: bindR_eq_Inr storage_path_fits intro: init_opens split: if_splits)



end
