(* ===== verification/User_Storage.thy ===== *)
theory User_Storage
  imports Lmdb_Storage "HOL-Library.Multiset"
begin

text \<open>
  \<open>kpaxos/user_storage.c\<close>: the storage process. Two threads run the same loop, one per
  persistence device: the write thread stores each message it reads, the read thread looks
  each query up and writes the answer to the device. The store handle is passed by value,
  so what an operation does to the transaction pointer ends with the call. The contract of
  the store is the locale \<open>kv_store\<close>.
\<close>

section \<open>Arguments\<close>

text \<open>What \<open>getopt_long\<close> returns, one option after the other; other options end the program.\<close>

datatype storage_option = Opt_w "char list" | Opt_r "char list" | Opt_v | Opt_other

record storage_args =
  read_device_path :: "char list option"
  write_device_path :: "char list option"
  verbose :: bool

text \<open>\<open>None\<close> is the exit in \<open>usage\<close>.\<close>

fun check_args :: "storage_option list \<Rightarrow> storage_args \<Rightarrow> storage_args option" where
  "check_args [] a = Some a"
| "check_args (Opt_w p # os) a = check_args os (a\<lparr>write_device_path := Some p\<rparr>)"
| "check_args (Opt_r p # os) a = check_args os (a\<lparr>read_device_path := Some p\<rparr>)"
| "check_args (Opt_v # os) a = check_args os (a\<lparr>verbose := True\<rparr>)"
| "check_args (Opt_other # os) a = None"

definition get_device_path :: "bool \<Rightarrow> storage_args \<Rightarrow> char list option" where
  "get_device_path isRead a = (if isRead then read_device_path a else write_device_path a)"

text \<open>\<open>main\<close> up to the creation of the threads: the paths of the read and the write thread.\<close>

definition storage_main :: "storage_option list \<Rightarrow> (char list option \<times> char list option) option" where
  "storage_main os =
     (case check_args os \<lparr>read_device_path = None, write_device_path = None, verbose = False\<rparr> of
        None \<Rightarrow> None
      | Some a \<Rightarrow> if read_device_path a = None \<or> write_device_path a = None then None
                  else Some (get_device_path True a, get_device_path False a))"

section \<open>Storing and fetching a message\<close>

definition zero_accepted :: accepted_obj where
  "zero_accepted = \<lparr>obj_acc = accepted_of_image (replicate sizeof_paxos_accepted 0), obj_val = Null\<rparr>"

definition storage_get ::
  "'w lmdb_api \<Rightarrow> lmdb_storage \<Rightarrow> u32 \<Rightarrow> uenv \<Rightarrow> 'w \<Rightarrow> cerror + accepted_obj cptr \<times> uenv \<times> 'w" where
  "storage_get M s i e w =
     bindR (lmdb_storage_tx_begin M s w) (\<lambda>(r, s1, w1).
     let (addr, blk, e1) = malloc sizeof_paxos_accepted e
     in bindR (deref blk) (\<lambda>_.
        bindR (lmdb_storage_get M s1 i zero_accepted e1 w1) (\<lambda>(g, out, e2).
        if g \<noteq> 1 then bindR (lmdb_storage_tx_abort M s1 w1) (\<lambda>(s2, w2). Inr (Null, e2, w2))
        else bindR (lmdb_storage_tx_commit M s1 w1) (\<lambda>(c, s2, w2). Inr (Live out, e2, w2)))))"

definition storage_put ::
  "'w lmdb_api \<Rightarrow> lmdb_storage \<Rightarrow> accepted_obj \<Rightarrow> uenv \<Rightarrow> 'w \<Rightarrow> cerror + int \<times> uenv \<times> 'w" where
  "storage_put M s accepted e w =
     bindR (lmdb_storage_tx_begin M s w) (\<lambda>(r, s1, w1).
     if r \<noteq> 0 then Inr (1, e, w1)
     else bindR (lmdb_storage_put M s1 accepted e w1) (\<lambda>(p, e1, w2).
          bindR (if p \<noteq> 0 then lmdb_storage_tx_abort M s1 w2 else Inr (s1, w2)) (\<lambda>(s2, w3).
          bindR (lmdb_storage_tx_commit M s2 w3) (\<lambda>(c, s3, w4).
          if c \<noteq> 0 then Inr (1, e1, w4) else Inr (0, e1, w4)))))"

section \<open>Processing a message\<close>

definition process_write_message ::
  "'w lmdb_api \<Rightarrow> lmdb_storage \<Rightarrow> client_value \<Rightarrow> uenv \<Rightarrow> 'w \<Rightarrow> cerror + uenv \<times> 'w" where
  "process_write_message M s message e w =
     bindR (deref (cv_value message)) (\<lambda>acc.
     bindR (storage_put M s acc e w) (\<lambda>(r, e1, w1). Inr (e1, w1)))"

text \<open>
  The end of both branches of \<open>process_read_message\<close>: the buffer and the size passed to
  \<open>write\<close> are the result; then the buffer, the value and the struct are freed.
\<close>

definition send_answer ::
  "u32 \<Rightarrow> accepted_obj \<Rightarrow> uenv \<Rightarrow> cerror + (byte list cptr \<times> u64) \<times> uenv" where
  "send_answer i out e =
     bindR (client_value_to_buffer \<lparr>bufferId = i, cv_value = Live out\<rparr> e) (\<lambda>(msg, e1).
     let size = 4 + of_nat sizeof_paxos_accepted + int_to_size (paxos_value_len (acc_value (obj_acc out)))
     in bindR (cfree msg) (\<lambda>_.
        bindR (nonnull (obj_val out)) (\<lambda>b.
        bindR (if b then cfree (obj_val out) else Inr (obj_val out)) (\<lambda>v.
        bindR (cfree (Live (out\<lparr>obj_val := v\<rparr>))) (\<lambda>_. Inr ((msg, size), e1))))))"

definition process_read_message ::
  "'w lmdb_api \<Rightarrow> lmdb_storage \<Rightarrow> client_value \<Rightarrow> uenv \<Rightarrow> 'w
   \<Rightarrow> cerror + (byte list cptr \<times> u64) \<times> uenv \<times> 'w" where
  "process_read_message M s message e w =
     bindR (deref (cv_value message)) (\<lambda>acc.
     bindR (storage_get M s (iid (obj_acc acc)) e w) (\<lambda>(out, e1, w1).
     bindR (nonnull out) (\<lambda>b.
     if b then bindR (deref out) (\<lambda>o1. bindR (send_answer (bufferId message) o1 e1) (\<lambda>(ans, e2).
          Inr (ans, e2, w1)))
     else let (addr, blk, e2) = malloc sizeof_paxos_accepted e1
          in bindR (deref blk) (\<lambda>_. bindR (send_answer (bufferId message) zero_accepted e2) (\<lambda>(ans, e3).
             Inr (ans, e3, w1))))))"

section \<open>The loop of the threads\<close>

text \<open>
  \<open>recv\<close> and \<open>accepted\<close> are two blocks of the thread; the second holds the struct that a
  message is read into, and its pointer is all that is kept of it here.
  One round: the result of \<open>poll\<close>, and when there is something to read, the result of
  \<open>read\<close> and what the receive block holds then. The answers written to the device and the
  count of messages are accumulated.
\<close>

datatype poll_round = No_event | Event int "byte list"

definition handle_message ::
  "'w lmdb_api \<Rightarrow> bool \<Rightarrow> lmdb_storage \<Rightarrow> 'a cptr \<Rightarrow> byte list \<Rightarrow> uenv \<Rightarrow> 'w
   \<Rightarrow> cerror + (byte list cptr \<times> u64) list \<times> uenv \<times> 'w" where
  "handle_message M isRead s accepted_blk recv e w =
     bindR (mem_get 0 4 recv) (\<lambda>id_bytes.
     bindR (deref accepted_blk) (\<lambda>_.
     bindR (buffer_to_paxos_accepted (drop 4 recv) e) (\<lambda>(accepted, e1).
     let (addr, blk, e2) = malloc sizeof_client_value e1
     in bindR (deref blk) (\<lambda>_.
        let message = \<lparr>bufferId = rd32 id_bytes, cv_value = Live accepted\<rparr>
        in bindR (if isRead
                  then bindR (process_read_message M s message e2 w) (\<lambda>(ans, e3, w1). Inr ([ans], e3, w1))
                  else bindR (process_write_message M s message e2 w) (\<lambda>(e3, w1). Inr ([], e3, w1)))
             (\<lambda>(out, e3, w1).
             bindR (cfree (obj_val accepted)) (\<lambda>_. Inr (out, e3, w1)))))))"

definition storage_round ::
  "'w lmdb_api \<Rightarrow> bool \<Rightarrow> lmdb_storage \<Rightarrow> byte list cptr \<Rightarrow> 'a cptr \<Rightarrow> poll_round \<Rightarrow> uenv \<Rightarrow> 'w
   \<Rightarrow> cerror + nat \<times> (byte list cptr \<times> u64) list \<times> uenv \<times> 'w" where
  "storage_round M isRead s recv_blk accepted_blk r e w =
     (case r of
        No_event \<Rightarrow> Inr (0, [], e, w)
      | Event len recv \<Rightarrow>
          if len = 0 then Inr (0, [], e, w)
          else bindR (deref recv_blk) (\<lambda>_.
               bindR (handle_message M isRead s accepted_blk recv e w) (\<lambda>(out, e1, w1). Inr (1, out, e1, w1))))"

primrec storage_loop ::
  "'w lmdb_api \<Rightarrow> bool \<Rightarrow> lmdb_storage \<Rightarrow> byte list cptr \<Rightarrow> 'a cptr \<Rightarrow> poll_round list \<Rightarrow> uenv \<Rightarrow> 'w
   \<Rightarrow> cerror + nat \<times> (byte list cptr \<times> u64) list \<times> uenv \<times> 'w" where
  "storage_loop M isRead s recv_blk accepted_blk [] e w = Inr (0, [], e, w)"
| "storage_loop M isRead s recv_blk accepted_blk (r # rs) e w =
     bindR (storage_round M isRead s recv_blk accepted_blk r e w) (\<lambda>(n1, out1, e1, w1).
     bindR (storage_loop M isRead s recv_blk accepted_blk rs e1 w1) (\<lambda>(n2, out2, e2, w2). Inr (n1 + n2, out1 @ out2, e2, w2)))"

text \<open>
  The thread: \<open>fd\<close> is what \<open>open\<close> returns for the device, \<open>rounds\<close> what its loop meets
  until \<open>stop\<close> is set. The result is the count of messages it prints and what it wrote.
\<close>

definition generic_storage_thread ::
  "'w lmdb_api \<Rightarrow> bool \<Rightarrow> lmdb_storage \<Rightarrow> int \<Rightarrow> poll_round list \<Rightarrow> uenv \<Rightarrow> 'w
   \<Rightarrow> cerror + nat \<times> (byte list cptr \<times> u64) list \<times> uenv \<times> 'w" where
  "generic_storage_thread M isRead s fd rounds e w =
     bindR (lmdb_storage_open M s e w) (\<lambda>(r, s1, e1, w1).
     if r \<noteq> 0 then Inr (0, [], e1, w1)
     else let (addr1, recv, e2) = malloc (sizeof_paxos_accepted + MAX_PAXOS_VALUE_SIZE) e1;
              (addr2, accepted, e3) = malloc (sizeof_paxos_accepted + MAX_PAXOS_VALUE_SIZE) e2
          in bindR (if 0 < fd
                    then bindR (storage_loop M isRead s1 recv accepted rounds e3 w1) (\<lambda>(n, out, e4, w2).
                         bindR (lmdb_storage_close M s1 w2) (\<lambda>w3. Inr (n, out, e4, w3)))
                    else Inr (0, [], e3, w1)) (\<lambda>(n, out, e4, w3).
             bindR (cfree recv) (\<lambda>_. bindR (cfree accepted) (\<lambda>_. Inr (n, out, e4, w3)))))"

section \<open>What the store holds\<close>

text \<open>
  A stored message is its struct, without the address that its value had in some process,
  and its value.
\<close>

type_synonym message = "paxos_accepted \<times> byte list"

definition strip :: "paxos_accepted \<Rightarrow> paxos_accepted" where
  "strip a = a\<lparr>acc_value := (acc_value a)\<lparr>paxos_value_val := 0\<rparr>\<rparr>"

definition decode :: "byte list \<Rightarrow> message" where
  "decode d = (strip (accepted_of_image d), drop 40 d)"

definition contents :: "(byte list \<rightharpoonup> byte list) \<Rightarrow> u32 \<rightharpoonup> message" where
  "contents m i = map_option decode (m (le32 i))"

text \<open>Every record of the database was written by \<open>lmdb_storage_put\<close> under its own number.\<close>

definition db_wf :: "(byte list \<rightharpoonup> byte list) \<Rightarrow> bool" where
  "db_wf m \<longleftrightarrow> (\<forall>i d. m (le32 i) = Some d \<longrightarrow> (\<exists>a v. d = record_of a v
     \<and> sint (paxos_value_len (acc_value a)) = int (length v) \<and> iid a = i))"

definition storage_inv ::
  "'w lmdb_api \<Rightarrow> lmdb_storage \<Rightarrow> ('w \<Rightarrow> bool) \<Rightarrow> ('w \<Rightarrow> byte list \<rightharpoonup> byte list)
   \<Rightarrow> ('w \<Rightarrow> u64 \<Rightarrow> (byte list \<rightharpoonup> byte list) option) \<Rightarrow> uenv \<times> 'w \<Rightarrow> bool" where
  "storage_inv M s ok db view = (\<lambda>(e, w). lmdb_laws M (st_env s) (st_dbi s) ok db view
     \<and> st_txn s = 0 \<and> ok w \<and> mallocs_ok e \<and> db_wf (db w))"

lemma decode_record [simp]: "decode (record_of a v) = (strip a, v)"
  by (simp add: decode_def record_of_def accepted_of_image_append)

lemma le32_inject [simp]: "le32 a = le32 b \<longleftrightarrow> a = b"
  by (metis rd32_le32)

lemma contents_update: "contents (m(le32 i \<mapsto> record_of a v)) = (contents m)(i \<mapsto> (strip a, v))"
  by (auto simp: contents_def fun_eq_iff)

lemma strip_pointer [simp]:
  "strip (a\<lparr>acc_value := (acc_value a)\<lparr>paxos_value_val := p\<rparr>\<rparr>) = strip a"
  by (simp add: strip_def)

lemma db_wf_update:
  "db_wf m \<Longrightarrow> sint (paxos_value_len (acc_value a)) = int (length v) \<Longrightarrow> db_wf (m(le32 (iid a) \<mapsto> record_of a v))"
  by (auto simp: db_wf_def)

lemma db_wf_contents:
  assumes "db_wf m" and "m (le32 i) = Some d"
  obtains a v where "d = record_of a v" and "sint (paxos_value_len (acc_value a)) = int (length v)" and "iid a = i"
    and "contents m i = Some (strip a, v)"
  using assms by (force simp: db_wf_def contents_def)

text \<open>Beginning a transaction: refused, or a fresh one that sees the database.\<close>

lemma tx_begin_ends:
  assumes "storage_inv M s ok db view (e, w)"
  obtains (refused) r h w1 where "mdb_txn_begin M (st_env s) w = Inr (r, h, w1)" and "r \<noteq> 0"
      and "lmdb_storage_tx_begin M s w = Inr (r, s, w1)" and "ok w1" and "db w1 = db w"
  | (begun) t w1 where "mdb_txn_begin M (st_env s) w = Inr (0, Some t, w1)" and "t \<noteq> 0"
      and "lmdb_storage_tx_begin M s w = Inr (0, s\<lparr>st_txn := t\<rparr>, w1)" and "view w1 t = Some (db w)"
      and "db w1 = db w"
proof -
  have laws: "lmdb_laws M (st_env s) (st_dbi s) ok db view" and t0: "st_txn s = 0" and okw: "ok w"
    using assms by (simp_all add: storage_inv_def)
  obtain r h w1 where b: "mdb_txn_begin M (st_env s) w = Inr (r, h, w1)" "db w1 = db w"
    "if r = 0 then \<exists>t. h = Some t \<and> t \<noteq> 0 \<and> view w1 t = Some (db w) else h = None \<and> ok w1"
    using lmdb_begin [OF laws okw] by blast
  show ?thesis
  proof (cases "r = 0")
    case True
    with b(3) obtain t where "h = Some t" "t \<noteq> 0" "view w1 t = Some (db w)" by auto
    with True b t0 show ?thesis by (intro begun [of t w1]) (simp_all add: lmdb_storage_tx_begin_def stored_def)
  next
    case False
    moreover have "s\<lparr>st_txn := 0\<rparr> = s" using t0 by (cases s) simp
    ultimately show ?thesis
      using b t0 by (intro refused [of r h w1]) (simp_all add: lmdb_storage_tx_begin_def stored_def)
  qed
qed

text \<open>Storing: the three ways it can end.\<close>

lemma storage_put_ends:
  assumes "storage_inv M s ok db view (e, w)" and "holds acc v"
  obtains (failed) "storage_put M s acc e w = Inl AssertFailed"
  | (refused) r e1 w1 where "storage_put M s acc e w = Inr (r, e1, w1)" and "r \<noteq> 0"
      and "storage_inv M s ok db view (e1, w1)" and "db w1 = db w"
  | (success) e1 w1 where "storage_put M s acc e w = Inr (0, e1, w1)"
      and "storage_inv M s ok db view (e1, w1)"
      and "contents (db w1) = (contents (db w))(iid (obj_acc acc) \<mapsto> (strip (obj_acc acc), v))"
proof -
  have laws: "lmdb_laws M (st_env s) (st_dbi s) ok db view" and t0: "st_txn s = 0" and okw: "ok w"
    and me: "mallocs_ok e" and wf: "db_wf (db w)" using assms(1) by (simp_all add: storage_inv_def)
  from assms(1) show ?thesis
  proof (cases rule: tx_begin_ends)
    case (refused r h w1)
    then have "storage_put M s acc e w = Inr (1, e, w1)" by (simp add: storage_put_def)
    with refused laws t0 me wf show ?thesis by (intro that(2) [of 1 e w1]) (simp_all add: storage_inv_def)
  next
    case (begun t w1)
    let ?s1 = "s\<lparr>st_txn := t\<rparr>" and ?m = "(db w)(le32 (iid (obj_acc acc)) \<mapsto> record_of (obj_acc acc) v)"
    have v1: "view w1 (st_txn ?s1) = Some (db w)" and d1: "st_dbi ?s1 = st_dbi s" using begun by simp_all
    from storage_put_result [OF laws v1 d1 assms(2) me] obtain p e1 w2 where
      p: "lmdb_storage_put M ?s1 acc e w1 = Inr (p, e1, w2)" "mallocs_ok e1" "db w2 = db w1"
      "if p = 0 then view w2 (st_txn ?s1) = Some ?m else view w2 (st_txn ?s1) \<noteq> None" by blast
    show ?thesis
    proof (cases "p = 0")
      case False
      with p(4) obtain w3 where "mdb_txn_abort M t w2 = Inr w3" using lmdb_abort [OF laws, of w2 t] by auto
      then have "storage_put M s acc e w = Inl AssertFailed"
        using False begun(2,3) p(1)
        by (simp add: storage_put_def lmdb_storage_tx_abort_def lmdb_storage_tx_commit_def)
      then show ?thesis by (rule failed)
    next
      case True
      then have "view w2 t = Some ?m" using p(4) by simp
      from lmdb_commit [OF laws this] obtain c w4 where c: "mdb_txn_commit M t w2 = Inr (c, w4)" "ok w4"
        "db w4 = (if c = 0 then ?m else db w2)" by blast
      have put: "storage_put M s acc e w = Inr (if c = 0 then 0 else 1, e1, w4)"
        using True begun(2,3) p(1) c(1) by (simp add: storage_put_def lmdb_storage_tx_commit_def)
      have "db_wf ?m" using wf assms(2) by (intro db_wf_update) (auto simp: holds_def)
      then have "storage_inv M s ok db view (e1, w4)"
        using laws t0 c(2,3) p(2,3) begun(5) wf by (simp add: storage_inv_def)
      with put c(3) p(3) begun(5) show ?thesis
        by (cases "c = 0") (auto simp: contents_update intro: that success)
    qed
  qed
qed

text \<open>A library that refuses nothing: begin, put and commit all succeed.\<close>

definition grants ::
  "'w lmdb_api \<Rightarrow> lmdb_storage \<Rightarrow> ('w \<Rightarrow> bool) \<Rightarrow> ('w \<Rightarrow> u64 \<Rightarrow> (byte list \<rightharpoonup> byte list) option) \<Rightarrow> bool" where
  "grants M s ok view \<longleftrightarrow>
     (\<forall>w. ok w \<longrightarrow> (\<exists>t w'. mdb_txn_begin M (st_env s) w = Inr (0, Some t, w')))
     \<and> (\<forall>w t k d. view w t \<noteq> None \<longrightarrow> (\<exists>w'. mdb_put M t (st_dbi s) k d w = Inr (0, w')))
     \<and> (\<forall>w t. view w t \<noteq> None \<longrightarrow> (\<exists>w'. mdb_txn_commit M t w = Inr (0, w')))"

lemma storage_put_granted:
  assumes "storage_inv M s ok db view (e, w)" and "holds acc v" and "grants M s ok view"
  shows "\<exists>e1 w1. storage_put M s acc e w = Inr (0, e1, w1)"
proof -
  have laws: "lmdb_laws M (st_env s) (st_dbi s) ok db view" and t0: "st_txn s = 0" and okw: "ok w"
    and me: "mallocs_ok e" using assms(1) by (simp_all add: storage_inv_def)
  obtain t w1 where b: "mdb_txn_begin M (st_env s) w = Inr (0, Some t, w1)"
    using assms(3) okw unfolding grants_def by blast
  then have t: "t \<noteq> 0" "view w1 t = Some (db w)" using lmdb_begin [OF laws okw] by auto
  let ?s1 = "s\<lparr>st_txn := t\<rparr>"
  obtain e1 where buf: "paxos_accepted_to_buffer acc e = Inr (Live (record_of (obj_acc acc) v), e1)"
    using to_buffer_result [OF assms(2) me] unfolding record_of_def by metis
  obtain w2 where p: "mdb_put M t (st_dbi s) (le32 (iid (obj_acc acc))) (record_of (obj_acc acc) v) w1 = Inr (0, w2)"
    using assms(3) t(2) unfolding grants_def by blast
  then have "view w2 t \<noteq> None"
    using lmdb_put [OF laws t(2), of "le32 (iid (obj_acc acc))" "record_of (obj_acc acc) v"] by auto
  then obtain w3 where c: "mdb_txn_commit M t w2 = Inr (0, w3)" using assms(3) unfolding grants_def by blast
  have s: "sint (paxos_value_len (acc_value (obj_acc acc))) = int (length v)" using assms(2) by (simp add: holds_def)
  have "mem_get 0 (40 + length v) (record_of (obj_acc acc) v) = Inr (record_of (obj_acc acc) v)"
    by (simp add: mem_get_def record_of_def)
  with buf p b c t(1) t0 buffer_sizes(1) [OF s] show ?thesis
    by (simp add: storage_put_def lmdb_storage_tx_begin_def stored_def lmdb_storage_put_def size_defs
        lmdb_storage_tx_commit_def)
qed

lemma storage_get_stored:
  assumes "storage_inv M s ok db view (e, w)" and "malloc 40 e = (addr, Live (map (garbage e) [0..<40]), e1)"
    and "mallocs_ok e1" and "t \<noteq> 0" and "lmdb_storage_tx_begin M s w = Inr (0, s\<lparr>st_txn := t\<rparr>, w1)"
    and "view w1 t = Some (db w)" and "db w1 = db w" and "db w (le32 i) = Some d"
  shows "\<exists>acc v e2 w3. storage_get M s i e w = Inr (Live acc, e2, w3) \<and> ok w3 \<and> db w3 = db w \<and> mallocs_ok e2
    \<and> holds acc v \<and> obj_val acc = (if v = [] then Null else Live v) \<and> contents (db w) i = Some (strip (obj_acc acc), v)"
proof -
  have laws: "lmdb_laws M (st_env s) (st_dbi s) ok db view" and wf: "db_wf (db w)"
    using assms(1) by (simp_all add: storage_inv_def)
  let ?s1 = "s\<lparr>st_txn := t\<rparr>"
  have v1: "view w1 (st_txn ?s1) = Some (db w)" and d1: "st_dbi ?s1 = st_dbi s" using assms(6) by simp_all
  obtain x v where x: "d = record_of x v" "sint (paxos_value_len (acc_value x)) = int (length v)" "iid x = i"
    "contents (db w) i = Some (strip x, v)" by (rule db_wf_contents [OF wf assms(8)])
  obtain addr' e2 where g: "lmdb_storage_get M ?s1 i zero_accepted e1 w1 =
      Inr (1, \<lparr>obj_acc = x\<lparr>acc_value := (acc_value x)\<lparr>paxos_value_val := addr'\<rparr>\<rparr>,
          obj_val = (if v = [] then Null else Live v)\<rparr>, e2)" "mallocs_ok e2"
    using storage_get_found [OF laws v1 d1 assms(8) [unfolded x(1)] x(2,3) assms(3)] by blast
  from lmdb_commit [OF laws assms(6)] obtain c w3 where c: "mdb_txn_commit M t w1 = Inr (c, w3)" "ok w3" "db w3 = db w"
    using assms(7) by (auto split: if_splits)
  let ?o = "\<lparr>obj_acc = x\<lparr>acc_value := (acc_value x)\<lparr>paxos_value_val := addr'\<rparr>\<rparr>,
          obj_val = (if v = [] then Null else Live v)\<rparr>"
  have "storage_get M s i e w = Inr (Live ?o, e2, w3)"
    using assms(2,4,5) g(1) c(1) by (simp add: storage_get_def size_defs lmdb_storage_tx_commit_def)
  moreover have "holds ?o v" using x(2) by (simp add: holds_def)
  moreover have "contents (db w) i = Some (strip (obj_acc ?o), v)" using x(4) by simp
  ultimately show ?thesis using c(2,3) g(2) by fastforce
qed

text \<open>Fetching always returns; what it returns is what is stored, or nothing.\<close>

lemma storage_get_ends:
  assumes "storage_inv M s ok db view (e, w)"
  shows "\<exists>out e1 w1. storage_get M s i e w = Inr (out, e1, w1) \<and> storage_inv M s ok db view (e1, w1)
    \<and> db w1 = db w
    \<and> (out = Null \<or> (\<exists>acc v. out = Live acc \<and> holds acc v \<and> obj_val acc = (if v = [] then Null else Live v)
          \<and> contents (db w) i = Some (strip (obj_acc acc), v)))
    \<and> (\<forall>h w2. mdb_txn_begin M (st_env s) w = Inr (0, h, w2) \<longrightarrow> (out = Null \<longleftrightarrow> contents (db w) i = None))"
proof -
  have laws: "lmdb_laws M (st_env s) (st_dbi s) ok db view" and t0: "st_txn s = 0"
    and me: "mallocs_ok e" and wf: "db_wf (db w)" using assms(1) by (simp_all add: storage_inv_def)
  obtain addr e1 where m: "malloc 40 e = (addr, Live (map (garbage e) [0..<40]), e1)" "mallocs_ok e1"
    by (rule malloc_all [OF me])
  have inv: "storage_inv M s ok db view (e', w')" if "ok w'" "db w' = db w" "mallocs_ok e'" for e' w'
    using that laws t0 wf by (simp add: storage_inv_def)
  from assms show ?thesis
  proof (cases rule: tx_begin_ends)
    case (refused r h w1)
    obtain r' d where "mdb_get M 0 (st_dbi s) (le32 i) w1 = Inr (r', d)" "r' \<noteq> 0"
      using lmdb_get_null [OF laws] by blast
    then have "storage_get M s i e w = Inr (Null, e1, w1)"
      using refused t0 m(1) by (simp add: storage_get_def size_defs lmdb_storage_get_def lmdb_storage_tx_abort_def)
    with refused inv m(2) show ?thesis by auto
  next
    case (begun t w1)
    have v1: "view w1 (st_txn (s\<lparr>st_txn := t\<rparr>)) = Some (db w)" and d1: "st_dbi (s\<lparr>st_txn := t\<rparr>) = st_dbi s"
      using begun by simp_all
    show ?thesis
    proof (cases "db w (le32 i)")
      case None
      from lmdb_abort [OF laws, of w1 t] begun obtain w3 where a: "mdb_txn_abort M t w1 = Inr w3" "ok w3" "db w3 = db w1"
        by auto
      have "storage_get M s i e w = Inr (Null, e1, w3)"
        using storage_get_missing [OF laws v1 d1 None, of zero_accepted e1] begun(2,3) m(1) a(1)
        by (simp add: storage_get_def size_defs lmdb_storage_tx_abort_def)
      with None begun inv m(2) a show ?thesis by (auto simp: contents_def)
    next
      case (Some d)
      from storage_get_stored [OF assms m begun(2-5) Some] obtain acc v e2 w3 where
        "storage_get M s i e w = Inr (Live acc, e2, w3)" "ok w3" "db w3 = db w" "mallocs_ok e2" "holds acc v"
        "obj_val acc = (if v = [] then Null else Live v)" "contents (db w) i = Some (strip (obj_acc acc), v)" by blast
      with inv begun(1) show ?thesis by fastforce
    qed
  qed
qed

section \<open>The contract of the store\<close>

text \<open>
  A store that may refuse to store and may fail to find, but that never returns anything
  else than what was stored last under the key. A run of operations yields what they
  returned, and \<open>explains\<close> says what a map makes of such a run.
\<close>

datatype ('k, 'v) kv_op = Store 'v | Fetch 'k

datatype 'v kv_result = Stored bool | Fetched "'v option"

fun explains ::
  "('v \<Rightarrow> 'k) \<Rightarrow> ('v \<Rightarrow> 'v) \<Rightarrow> ('k, 'v) kv_op list \<Rightarrow> 'v kv_result list \<Rightarrow> ('k \<rightharpoonup> 'v) \<Rightarrow> ('k \<rightharpoonup> 'v) \<Rightarrow> bool" where
  "explains key norm [] [] m m' = (m = m')"
| "explains key norm (Store x # ops) (Stored b # rs) m m' =
     explains key norm ops rs (if b then m(key x \<mapsto> norm x) else m) m'"
| "explains key norm (Fetch k # ops) (Fetched r # rs) m m' =
     ((r = None \<or> r = m k) \<and> explains key norm ops rs m m')"
| "explains key norm _ _ m m' = False"

primrec kv_run ::
  "('v \<Rightarrow> 's \<Rightarrow> cerror + bool \<times> 's) \<Rightarrow> ('k \<Rightarrow> 's \<Rightarrow> cerror + 'v option \<times> 's) \<Rightarrow> ('k, 'v) kv_op list \<Rightarrow> 's
   \<Rightarrow> cerror + 'v kv_result list \<times> 's" where
  "kv_run put get [] s = Inr ([], s)"
| "kv_run put get (x # xs) s =
     (case x of
        Store v \<Rightarrow> bindR (put v s) (\<lambda>(b, s1). bindR (kv_run put get xs s1) (\<lambda>(rs, s2). Inr (Stored b # rs, s2)))
      | Fetch k \<Rightarrow> bindR (get k s) (\<lambda>(r, s1). bindR (kv_run put get xs s1) (\<lambda>(rs, s2). Inr (Fetched r # rs, s2))))"

locale kv_store =
  fixes put :: "'v \<Rightarrow> 's \<Rightarrow> cerror + bool \<times> 's"
    and get :: "'k \<Rightarrow> 's \<Rightarrow> cerror + 'v option \<times> 's"
    and key :: "'v \<Rightarrow> 'k"
    and norm :: "'v \<Rightarrow> 'v"
    and good :: "'v \<Rightarrow> bool"
    and kv_inv :: "'s \<Rightarrow> bool"
    and content :: "'s \<Rightarrow> 'k \<rightharpoonup> 'v"
  assumes put_law: "kv_inv s \<Longrightarrow> good x \<Longrightarrow> put x s = Inl AssertFailed \<or> (\<exists>b s'. put x s = Inr (b, s') \<and> kv_inv s'
      \<and> content s' = (if b then (content s)(key x \<mapsto> norm x) else content s))"
    and get_law: "kv_inv s \<Longrightarrow> \<exists>r s'. get k s = Inr (r, s') \<and> kv_inv s' \<and> content s' = content s
      \<and> (r = None \<or> r = content s k)"
begin

lemma run_explained:
  assumes "kv_inv s" and "\<forall>x. Store x \<in> set ops \<longrightarrow> good x"
  shows "kv_run put get ops s = Inl AssertFailed
    \<or> (\<exists>rs s'. kv_run put get ops s = Inr (rs, s') \<and> kv_inv s'
         \<and> explains key norm ops rs (content s) (content s'))"
  using assms
proof (induction ops arbitrary: s)
  case (Cons x xs)
  show ?case
  proof (cases x)
    case (Store v)
    with Cons.prems have "good v" by simp
    from put_law [OF Cons.prems(1) this] show ?thesis
    proof
      assume "put v s = Inl AssertFailed"
      with Store show ?thesis by simp
    next
      assume "\<exists>b s'. put v s = Inr (b, s') \<and> kv_inv s'
        \<and> content s' = (if b then (content s)(key v \<mapsto> norm v) else content s)"
      then obtain b s1 where s1: "put v s = Inr (b, s1)" "kv_inv s1"
        "content s1 = (if b then (content s)(key v \<mapsto> norm v) else content s)" by blast
      from Cons.IH [OF s1(2)] Cons.prems(2) show ?thesis using s1(1,3) Store by fastforce
    qed
  next
    case (Fetch k)
    from get_law [OF Cons.prems(1)] obtain r s1 where s1: "get k s = Inr (r, s1)" "kv_inv s1"
      "content s1 = content s" "r = None \<or> r = content s k" by blast
    from Cons.IH [OF s1(2)] Cons.prems(2) show ?thesis using s1 Fetch by fastforce
  qed
qed simp

end

text \<open>The operations of the storage process on abstract messages.\<close>

definition message_obj :: "message \<Rightarrow> accepted_obj" where
  "message_obj m = \<lparr>obj_acc = fst m, obj_val = Live (snd m)\<rparr>"

definition message_good :: "message \<Rightarrow> bool" where
  "message_good m \<longleftrightarrow> sint (paxos_value_len (acc_value (fst m))) = int (length (snd m))"

definition value_of :: "accepted_obj \<Rightarrow> byte list" where
  "value_of acc = (case obj_val acc of Live v \<Rightarrow> v | _ \<Rightarrow> [])"

definition put_message ::
  "'w lmdb_api \<Rightarrow> lmdb_storage \<Rightarrow> message \<Rightarrow> uenv \<times> 'w \<Rightarrow> cerror + bool \<times> uenv \<times> 'w" where
  "put_message M s m = (\<lambda>(e, w). bindR (storage_put M s (message_obj m) e w) (\<lambda>(r, e1, w1). Inr (r = 0, e1, w1)))"

definition get_message ::
  "'w lmdb_api \<Rightarrow> lmdb_storage \<Rightarrow> u32 \<Rightarrow> uenv \<times> 'w \<Rightarrow> cerror + message option \<times> uenv \<times> 'w" where
  "get_message M s i = (\<lambda>(e, w). bindR (storage_get M s i e w) (\<lambda>(out, e1, w1).
     Inr (case out of Live acc \<Rightarrow> Some (strip (obj_acc acc), value_of acc) | _ \<Rightarrow> None, e1, w1)))"

interpretation lmdb_kv: kv_store "put_message M s" "get_message M s" "\<lambda>m. iid (fst m)"
    "\<lambda>m. (strip (fst m), snd m)" message_good "storage_inv M s ok db view" "\<lambda>(e, w). contents (db w)"
  for M s ok db view
proof unfold_locales
  fix st and x :: message
  assume inv: "storage_inv M s ok db view st" and good: "message_good x"
  obtain e w where st: "st = (e, w)" by (cases st)
  have "holds (message_obj x) (snd x)" using good by (simp add: holds_def message_obj_def message_good_def)
  with inv [unfolded st] show "put_message M s x st = Inl AssertFailed \<or> (\<exists>b s'. put_message M s x st = Inr (b, s')
      \<and> storage_inv M s ok db view s' \<and> (case s' of (e, w) \<Rightarrow> contents (db w)) =
        (if b then (case st of (e, w) \<Rightarrow> contents (db w))(iid (fst x) \<mapsto> (strip (fst x), snd x))
         else (case st of (e, w) \<Rightarrow> contents (db w))))"
    by (cases rule: storage_put_ends) (auto simp: st put_message_def message_obj_def)
next
  fix st i assume inv: "storage_inv M s ok db view st"
  obtain e w where st: "st = (e, w)" by (cases st)
  from storage_get_ends [OF inv [unfolded st], of i]
  show "\<exists>r s'. get_message M s i st = Inr (r, s') \<and> storage_inv M s ok db view s'
      \<and> (case s' of (e, w) \<Rightarrow> contents (db w)) = (case st of (e, w) \<Rightarrow> contents (db w))
      \<and> (r = None \<or> r = (case st of (e, w) \<Rightarrow> contents (db w)) i)"
    by (auto simp: st get_message_def value_of_def split: if_splits)
qed

section \<open>Messages from the devices\<close>

text \<open>What a receive block holds after a read: the slot number, the struct, its value.\<close>

definition received :: "u32 \<Rightarrow> message \<Rightarrow> byte list \<Rightarrow> byte list" where
  "received i m rest = le32 i @ accepted_image (fst m) @ snd m @ rest"

definition not_found :: message where
  "not_found = (obj_acc zero_accepted, [])"

lemma mem_get_received: "mem_get 0 4 (received i m rest) = Inr (le32 i)"
  by (simp add: mem_get_def received_def)

lemma received_accepted:
  assumes "message_good m" and "mallocs_ok e"
  obtains addr e1 where "buffer_to_paxos_accepted (drop 4 (received i m rest)) e =
      Inr (\<lparr>obj_acc = (fst m)\<lparr>acc_value := (acc_value (fst m))\<lparr>paxos_value_val := addr\<rparr>\<rparr>,
            obj_val = (if snd m = [] then Null else Live (snd m))\<rparr>, e1)"
    and "mallocs_ok e1"
proof -
  have "sint (paxos_value_len (acc_value (fst m))) = int (length (snd m))"
    using assms(1) by (simp add: message_good_def)
  then obtain addr e1 where "buffer_to_paxos_accepted (accepted_image (fst m) @ snd m @ rest) e =
      Inr (\<lparr>obj_acc = (fst m)\<lparr>acc_value := (acc_value (fst m))\<lparr>paxos_value_val := addr\<rparr>\<rparr>,
            obj_val = (if snd m = [] then Null else Live (snd m))\<rparr>, e1)" "mallocs_ok e1"
    by (rule from_buffer_result [OF _ assms(2)])
  then show ?thesis by (intro that) (simp_all add: received_def)
qed

lemma handle_write_put:
  assumes "storage_inv M s ok db view (e, w)" and "message_good m"
  obtains acc e1 where "holds acc (snd m)" and "iid (obj_acc acc) = iid (fst m)" and "strip (obj_acc acc) = strip (fst m)"
    and "storage_inv M s ok db view (e1, w)"
    and "handle_message M False s (Live x) (received i m rest) e w =
      bindR (storage_put M s acc e1 w) (\<lambda>(r, e2, w1). Inr ([], e2, w1))"
proof -
  have me: "mallocs_ok e" using assms(1) by (simp add: storage_inv_def)
  let ?a = "\<lambda>addr. (fst m)\<lparr>acc_value := (acc_value (fst m))\<lparr>paxos_value_val := addr\<rparr>\<rparr>"
  let ?o = "\<lambda>addr. \<lparr>obj_acc = ?a addr, obj_val = (if snd m = [] then Null else Live (snd m))\<rparr>"
  obtain addr e1 where b: "buffer_to_paxos_accepted (drop 4 (received i m rest)) e = Inr (?o addr, e1)"
    "mallocs_ok e1" by (rule received_accepted [OF assms(2) me])
  obtain addr2 e2 where a2: "malloc 16 e1 = (addr2, Live (map (garbage e1) [0..<16]), e2)" "mallocs_ok e2"
    by (rule malloc_all [OF b(2)])
  have inv: "storage_inv M s ok db view (e2, w)" using assms(1) a2(2) by (simp add: storage_inv_def)
  have h: "holds (?o addr) (snd m)" using assms(2) by (simp add: holds_def message_good_def)
  have step: "handle_message M False s (Live x) (received i m rest) e w =
      bindR (storage_put M s (?o addr) e2 w) (\<lambda>(r, e3, w1). Inr ([], e3, w1))"
    using b(1) a2(1)
    by (cases "storage_put M s (?o addr) e2 w")
       (auto simp: handle_message_def mem_get_received sizeof_client_value_def process_write_message_def)
  show ?thesis by (rule that [OF h _ _ inv step]) simp_all
qed

lemma handle_write:
  assumes "storage_inv M s ok db view (e, w)" and "message_good m"
  shows "handle_message M False s (Live x) (received i m rest) e w = Inl AssertFailed
    \<or> (\<exists>b e1 w1. handle_message M False s (Live x) (received i m rest) e w = Inr ([], e1, w1)
        \<and> storage_inv M s ok db view (e1, w1) \<and> contents (db w1) =
          (if b then (contents (db w))(iid (fst m) \<mapsto> (strip (fst m), snd m)) else contents (db w)))"
proof -
  obtain acc e1 where acc: "holds acc (snd m)" "iid (obj_acc acc) = iid (fst m)" "strip (obj_acc acc) = strip (fst m)"
    and inv: "storage_inv M s ok db view (e1, w)"
    and step: "handle_message M False s (Live x) (received i m rest) e w =
      bindR (storage_put M s acc e1 w) (\<lambda>(r, e2, w1). Inr ([], e2, w1))" by (rule handle_write_put [OF assms])
  from inv acc(1) show ?thesis
  proof (cases rule: storage_put_ends)
    case failed
    then show ?thesis by (simp add: step)
  next
    case (refused r e3 w1)
    then show ?thesis unfolding step by (intro disjI2 exI [of _ False]) simp
  next
    case (success e3 w1)
    then show ?thesis unfolding step by (intro disjI2 exI [of _ True]) (simp add: acc)
  qed
qed

lemma handle_write_granted:
  assumes "storage_inv M s ok db view (e, w)" and "message_good m" and "grants M s ok view"
  shows "\<exists>e1 w1. handle_message M False s (Live x) (received i m rest) e w = Inr ([], e1, w1)
    \<and> storage_inv M s ok db view (e1, w1)
    \<and> contents (db w1) = (contents (db w))(iid (fst m) \<mapsto> (strip (fst m), snd m))"
proof -
  obtain acc e1 where acc: "holds acc (snd m)" "iid (obj_acc acc) = iid (fst m)" "strip (obj_acc acc) = strip (fst m)"
    and inv: "storage_inv M s ok db view (e1, w)"
    and step: "handle_message M False s (Live x) (received i m rest) e w =
      bindR (storage_put M s acc e1 w) (\<lambda>(r, e2, w1). Inr ([], e2, w1))" by (rule handle_write_put [OF assms(1,2)])
  obtain e2 w1 where put: "storage_put M s acc e1 w = Inr (0, e2, w1)"
    using storage_put_granted [OF inv acc(1) assms(3)] by blast
  from inv acc(1) show ?thesis
    by (cases rule: storage_put_ends) (use put in \<open>auto simp: step acc\<close>)
qed

text \<open>An answer: the buffer that is written and the size that is written of it.\<close>

definition answer_for :: "u32 \<Rightarrow> message \<Rightarrow> byte list cptr \<times> u64 \<Rightarrow> bool" where
  "answer_for i m ans \<longleftrightarrow> (\<exists>a pad. strip a = strip (fst m) \<and> fst ans = Live (received i (a, snd m) pad)
     \<and> unat (snd ans) = 44 + length (snd m))"

lemma send_answer_result:
  assumes "holds out v" and "obj_val out = (if v = [] then Null else Live v)" and "mallocs_ok e"
  obtains ans e1 where "send_answer i out e = Inr (ans, e1)" and "answer_for i (obj_acc out, v) ans" and "mallocs_ok e1"
proof -
  let ?len = "paxos_value_len (acc_value (obj_acc out))"
  have s: "sint ?len = int (length v)" using assms(1) by (simp add: holds_def)
  obtain e1 pad where c: "client_value_to_buffer \<lparr>bufferId = i, cv_value = Live out\<rparr> e =
      Inr (Live (le32 i @ accepted_image (obj_acc out) @ v @ pad), e1)" "mallocs_ok e1"
    by (rule client_buffer_result [OF assms(1,3)])
  have w: "4 + of_nat 40 + int_to_size ?len = (of_nat (44 + length v) :: u64)"
    using value_len_sizes(3) [OF s] by simp
  have "unat (of_nat (44 + length v) :: u64) = 44 + length v"
    using value_len_sizes(2) [OF s] by (intro unat_of_nat64) simp
  then have u: "unat (4 + of_nat 40 + int_to_size ?len) = 44 + length v" by (simp only: w)
  then have "answer_for i (obj_acc out, v)
      (Live (le32 i @ accepted_image (obj_acc out) @ v @ pad), 4 + of_nat 40 + int_to_size ?len)"
    unfolding answer_for_def received_def by (intro exI [of _ "obj_acc out"] exI [of _ pad]) simp
  moreover have "send_answer i out e = Inr ((Live (le32 i @ accepted_image (obj_acc out) @ v @ pad),
      4 + of_nat 40 + int_to_size ?len), e1)"
    using c(1) assms(2) by (simp add: send_answer_def size_defs)
  ultimately show ?thesis using c(2) that by blast
qed

lemma zero_accepted_holds: "holds zero_accepted []"
  by (simp add: holds_def zero_accepted_def accepted_of_image_def rd32_def size_defs)

lemma zero_accepted_val [simp]: "obj_val zero_accepted = Null"
  by (simp add: zero_accepted_def)

lemma process_read_ends:
  assumes "storage_inv M s ok db view (e, w)" and "cv_value message = Live acc"
  shows "\<exists>ans e1 w1. process_read_message M s message e w = Inr (ans, e1, w1)
    \<and> storage_inv M s ok db view (e1, w1) \<and> db w1 = db w
    \<and> (answer_for (bufferId message) not_found ans
       \<or> (\<exists>m. contents (db w) (iid (obj_acc acc)) = Some m \<and> message_good m \<and> answer_for (bufferId message) m ans))
    \<and> (\<forall>h w2 m. mdb_txn_begin M (st_env s) w = Inr (0, h, w2) \<and> contents (db w) (iid (obj_acc acc)) = Some m \<longrightarrow>
         message_good m \<and> answer_for (bufferId message) m ans)"
proof -
  let ?i = "bufferId message" and ?k = "iid (obj_acc acc)"
  obtain out e1 w1 where g: "storage_get M s ?k e w = Inr (out, e1, w1)" "storage_inv M s ok db view (e1, w1)" "db w1 = db w"
    "out = Null \<or> (\<exists>acc v. out = Live acc \<and> holds acc v \<and> obj_val acc = (if v = [] then Null else Live v)
          \<and> contents (db w) ?k = Some (strip (obj_acc acc), v))"
    "\<forall>h w2. mdb_txn_begin M (st_env s) w = Inr (0, h, w2) \<longrightarrow> (out = Null \<longleftrightarrow> contents (db w) ?k = None)"
    using storage_get_ends [OF assms(1), of ?k] by blast
  have me: "mallocs_ok e1" using g(2) by (simp add: storage_inv_def)
  have inv: "storage_inv M s ok db view (e', w1)" if "mallocs_ok e'" for e'
    using g(2) that by (simp add: storage_inv_def)
  from g(4) show ?thesis
  proof
    assume n: "out = Null"
    obtain addr e2 where m: "malloc 40 e1 = (addr, Live (map (garbage e1) [0..<40]), e2)" "mallocs_ok e2"
      by (rule malloc_all [OF me])
    obtain ans e3 where a: "send_answer ?i zero_accepted e2 = Inr (ans, e3)" "answer_for ?i not_found ans" "mallocs_ok e3"
      using send_answer_result [OF zero_accepted_holds _ m(2), of ?i] by (auto simp: not_found_def)
    have "process_read_message M s message e w = Inr (ans, e3, w1)"
      using assms(2) g(1) n m(1) a(1) by (simp add: process_read_message_def size_defs)
    with a(2,3) g(3,5) inv n show ?thesis by auto
  next
    assume "\<exists>acc v. out = Live acc \<and> holds acc v \<and> obj_val acc = (if v = [] then Null else Live v)
      \<and> contents (db w) ?k = Some (strip (obj_acc acc), v)"
    then obtain x v where x: "out = Live x" "holds x v" "obj_val x = (if v = [] then Null else Live v)"
      "contents (db w) ?k = Some (strip (obj_acc x), v)" by blast
    obtain ans e3 where a: "send_answer ?i x e1 = Inr (ans, e3)" "answer_for ?i (obj_acc x, v) ans" "mallocs_ok e3"
      by (rule send_answer_result [OF x(2,3) me])
    have "process_read_message M s message e w = Inr (ans, e3, w1)"
      using assms(2) g(1) x(1) a(1) by (simp add: process_read_message_def)
    moreover have "answer_for ?i (strip (obj_acc x), v) ans"
      using a(2) by (auto simp: answer_for_def strip_def)
    moreover have "message_good (strip (obj_acc x), v)"
      using x(2) by (simp add: message_good_def holds_def strip_def)
    ultimately show ?thesis using a(3) g(3) inv x(4) by auto
  qed
qed

lemma handle_read:
  assumes "storage_inv M s ok db view (e, w)" and "message_good q"
  shows "\<exists>ans e1 w1. handle_message M True s (Live x) (received i q rest) e w = Inr ([ans], e1, w1)
    \<and> storage_inv M s ok db view (e1, w1) \<and> db w1 = db w
    \<and> (answer_for i not_found ans
       \<or> (\<exists>m. contents (db w) (iid (fst q)) = Some m \<and> message_good m \<and> answer_for i m ans))
    \<and> (\<forall>h w2 m. mdb_txn_begin M (st_env s) w = Inr (0, h, w2) \<and> contents (db w) (iid (fst q)) = Some m \<longrightarrow>
         message_good m \<and> answer_for i m ans)"
proof -
  have me: "mallocs_ok e" using assms(1) by (simp add: storage_inv_def)
  let ?a = "\<lambda>addr. (fst q)\<lparr>acc_value := (acc_value (fst q))\<lparr>paxos_value_val := addr\<rparr>\<rparr>"
  let ?o = "\<lambda>addr. \<lparr>obj_acc = ?a addr, obj_val = (if snd q = [] then Null else Live (snd q))\<rparr>"
  obtain addr e1 where b: "buffer_to_paxos_accepted (drop 4 (received i q rest)) e = Inr (?o addr, e1)"
    "mallocs_ok e1" by (rule received_accepted [OF assms(2) me])
  obtain addr2 e2 where a2: "malloc 16 e1 = (addr2, Live (map (garbage e1) [0..<16]), e2)" "mallocs_ok e2"
    by (rule malloc_all [OF b(2)])
  have inv: "storage_inv M s ok db view (e2, w)" using assms(1) a2(2) by (simp add: storage_inv_def)
  have cv: "cv_value \<lparr>bufferId = i, cv_value = Live (?o addr)\<rparr> = Live (?o addr)" by simp
  from process_read_ends [OF inv cv] obtain ans e3 w1 where
    p: "process_read_message M s \<lparr>bufferId = i, cv_value = Live (?o addr)\<rparr> e2 w = Inr (ans, e3, w1)" and
    r: "storage_inv M s ok db view (e3, w1) \<and> db w1 = db w
    \<and> (answer_for i not_found ans
       \<or> (\<exists>m. contents (db w) (iid (fst q)) = Some m \<and> message_good m \<and> answer_for i m ans))
    \<and> (\<forall>h w2 m. mdb_txn_begin M (st_env s) w = Inr (0, h, w2) \<and> contents (db w) (iid (fst q)) = Some m \<longrightarrow>
         message_good m \<and> answer_for i m ans)" by auto
  have "handle_message M True s (Live x) (received i q rest) e w = Inr ([ans], e3, w1)"
    using b(1) a2(1) p by (auto simp: handle_message_def mem_get_received sizeof_client_value_def)
  with r show ?thesis by blast
qed

section \<open>The write thread\<close>

definition round_of :: "int \<times> u32 \<times> message \<times> byte list \<Rightarrow> poll_round" where
  "round_of r = (case r of (len, i, m, rest) \<Rightarrow> Event len (received i m rest))"

definition store_if :: "bool \<times> message \<Rightarrow> (u32 \<rightharpoonup> message) \<Rightarrow> u32 \<rightharpoonup> message" where
  "store_if bm c = (if fst bm then c(iid (fst (snd bm)) \<mapsto> (strip (fst (snd bm)), snd (snd bm))) else c)"

lemma write_loop:
  assumes "storage_inv M s ok db view (e, w)"
    and "\<forall>(len, i, m, rest) \<in> set rs. len \<noteq> 0 \<and> message_good m"
  shows "storage_loop M False s (Live r) (Live x) (map round_of rs) e w = Inl AssertFailed
    \<or> (\<exists>bs e1 w1. storage_loop M False s (Live r) (Live x) (map round_of rs) e w = Inr (length rs, [], e1, w1)
        \<and> length bs = length rs \<and> storage_inv M s ok db view (e1, w1)
        \<and> contents (db w1) = fold store_if (zip bs (map (\<lambda>(len, i, m, rest). m) rs)) (contents (db w)))"
  using assms
proof (induction rs arbitrary: e w)
  case (Cons a rs)
  obtain len i m rest where a: "a = (len, i, m, rest)" by (cases a)
  with Cons.prems(2) have len: "len \<noteq> 0" and good: "message_good m" by auto
  have round: "storage_round M False s (Live r) (Live x) (round_of a) e w =
      bindR (handle_message M False s (Live x) (received i m rest) e w) (\<lambda>(out, e1, w1). Inr (1, out, e1, w1))"
    using len by (simp add: storage_round_def round_of_def a)
  from handle_write [OF Cons.prems(1) good, of x i rest] show ?case
  proof
    assume "handle_message M False s (Live x) (received i m rest) e w = Inl AssertFailed"
    with round show ?thesis by simp
  next
    assume "\<exists>b e1 w1. handle_message M False s (Live x) (received i m rest) e w = Inr ([], e1, w1)
      \<and> storage_inv M s ok db view (e1, w1) \<and> contents (db w1) =
        (if b then (contents (db w))(iid (fst m) \<mapsto> (strip (fst m), snd m)) else contents (db w))"
    then obtain b e1 w1 where h: "handle_message M False s (Live x) (received i m rest) e w = Inr ([], e1, w1)"
      "storage_inv M s ok db view (e1, w1)" "contents (db w1) = store_if (b, m) (contents (db w))"
      unfolding store_if_def fst_conv snd_conv by blast
    have "\<forall>(len, i, m, rest) \<in> set rs. len \<noteq> 0 \<and> message_good m" using Cons.prems(2) by simp
    from Cons.IH [OF h(2) this] show ?thesis
    proof
      assume "storage_loop M False s (Live r) (Live x) (map round_of rs) e1 w1 = Inl AssertFailed"
      with round h(1) show ?thesis by simp
    next
      assume "\<exists>bs e2 w2. storage_loop M False s (Live r) (Live x) (map round_of rs) e1 w1 = Inr (length rs, [], e2, w2)
        \<and> length bs = length rs \<and> storage_inv M s ok db view (e2, w2)
        \<and> contents (db w2) = fold store_if (zip bs (map (\<lambda>(len, i, m, rest). m) rs)) (contents (db w1))"
      then obtain bs e2 w2 where
        "storage_loop M False s (Live r) (Live x) (map round_of rs) e1 w1 = Inr (length rs, [], e2, w2)"
        "length bs = length rs" "storage_inv M s ok db view (e2, w2)"
        "contents (db w2) = fold store_if (zip bs (map (\<lambda>(len, i, m, rest). m) rs)) (contents (db w1))" by blast
      with round h show ?thesis by (intro disjI2 exI [of _ "b # bs"]) (simp add: a)
    qed
  qed
qed simp

section \<open>A store for the witnesses\<close>

lemma demo_storage_inv:
  "storage_inv (demo_lmdb full) demo_handle demo_idle fst demo_view (demo_uenv, Map.empty, None)"
  by (simp add: storage_inv_def demo_laws demo_handle_def demo_uenv_ok db_wf_def)

lemma demo_grants: "grants (demo_lmdb False) demo_handle demo_idle demo_view"
  by (auto simp: grants_def demo_lmdb_def demo_handle_def demo_view_def split: option.splits)

definition demo_message :: message where
  "demo_message = (obj_acc demo_stored, [10, 20, 30])"

lemma demo_message_good: "message_good demo_message"
  by (simp add: message_good_def demo_message_def demo_stored_def)

section \<open>Properties\<close>



text \<open>Read your own writes: after a put that returned 0, a get of that number whose
  transaction can be begun returns the message, header and value, in blocks of its own; only
  the value pointer differs.\<close>

lemma storage_read_your_write:
  assumes "storage_inv M s ok db view (e, w)" and "holds acc v" and "storage_put M s acc e w = Inr (0, e1, w1)"
    and "mdb_txn_begin M (st_env s) w1 = Inr (0, h, w2)"
  shows "\<exists>out e3 w3. storage_get M s (iid (obj_acc acc)) e1 w1 = Inr (Live out, e3, w3)
    \<and> holds out v \<and> strip (obj_acc out) = strip (obj_acc acc) \<and> storage_inv M s ok db view (e3, w3)"
proof -
  from assms(1,2) have "storage_inv M s ok db view (e1, w1) \<and>
      contents (db w1) = (contents (db w))(iid (obj_acc acc) \<mapsto> (strip (obj_acc acc), v))"
    using assms(3) by (cases rule: storage_put_ends) auto
  then show ?thesis
    using storage_get_ends [of M s ok db view e1 w1 "iid (obj_acc acc)"] assms(4) by auto
qed

text \<open>C25. A put that the library refuses stops the process: the transaction is aborted, but the
  function goes on to commit it, and the assertion that there is one fails.\<close>

theorem refused_put_asserts:
  assumes "storage_inv M s ok db view (e, w)" and "holds acc v"
    and "mdb_txn_begin M (st_env s) w = Inr (0, Some t, w1)" and "t \<noteq> 0" and "view w1 t = Some m"
    and "\<forall>k d. \<exists>r w2. mdb_put M t (st_dbi s) k d w1 = Inr (r, w2) \<and> r \<noteq> 0"
  shows "storage_put M s acc e w = Inl AssertFailed"
proof -
  have laws: "lmdb_laws M (st_env s) (st_dbi s) ok db view" and t0: "st_txn s = 0" and me: "mallocs_ok e"
    using assms(1) by (simp_all add: storage_inv_def)
  obtain e1 where b: "paxos_accepted_to_buffer acc e = Inr (Live (record_of (obj_acc acc) v), e1)"
    using to_buffer_result [OF assms(2) me] unfolding record_of_def by metis
  obtain r w2 where p: "mdb_put M t (st_dbi s) (le32 (iid (obj_acc acc))) (record_of (obj_acc acc) v) w1 = Inr (r, w2)" "r \<noteq> 0"
    using assms(6) by blast
  then have "view w2 t \<noteq> None"
    using lmdb_put [OF laws assms(5), of "le32 (iid (obj_acc acc))" "record_of (obj_acc acc) v"] by auto
  then obtain w3 where a: "mdb_txn_abort M t w2 = Inr w3" using lmdb_abort [OF laws] by blast
  have s: "sint (paxos_value_len (acc_value (obj_acc acc))) = int (length v)" using assms(2) by (simp add: holds_def)
  have "mem_get 0 (40 + length v) (record_of (obj_acc acc) v) = Inr (record_of (obj_acc acc) v)"
    by (simp add: mem_get_def record_of_def)
  with b p a assms(3,4) t0 buffer_sizes(1) [OF s] show ?thesis
    by (simp add: storage_put_def lmdb_storage_tx_begin_def stored_def lmdb_storage_put_def size_defs
        lmdb_storage_tx_abort_def lmdb_storage_tx_commit_def)
qed

theorem refused_put_asserts_witness:
  "storage_put (demo_lmdb True) demo_handle demo_stored demo_uenv (Map.empty, None) = Inl AssertFailed"
proof -
  have b: "mdb_txn_begin (demo_lmdb True) (st_env demo_handle) (Map.empty, None) = Inr (0, Some 1, Map.empty, Some Map.empty)"
    by (simp add: demo_lmdb_def)
  show ?thesis
    by (rule refused_put_asserts [OF demo_storage_inv demo_stored_holds b, where m = Map.empty])
       (simp_all add: demo_lmdb_def demo_view_def)
qed





text \<open>C26. The receive block of 240 bytes is 4 bytes too short for the longest message a device
  delivers: a message whose length field exceeds 196 makes the thread read past its block,
  whatever the block holds.\<close>

theorem long_value_overruns:
  assumes "length recv = 240" and "recv = le32 i @ accepted_image a @ v"
    and "196 < sint (paxos_value_len (acc_value a))"
  shows "handle_message M isRead s (Live x) recv e w = Inl OutOfBounds"
proof -
  have n: "196 < unat (int_to_size (paxos_value_len (acc_value a)))" using assms(3) by (simp add: unat_int_to_size)
  have "length v = 196" using assms(1,2) by simp
  with n have "mem_get 40 (unat (int_to_size (paxos_value_len (acc_value a)))) (accepted_image a @ v) = Inl OutOfBounds"
    by (intro mem_get_bad) simp
  then have "buffer_to_paxos_accepted (accepted_image a @ v) e = Inl OutOfBounds"
    using assms(3) by (simp add: buffer_to_paxos_accepted_def size_defs mem_get_ok accepted_of_image_append case_prod_beta Let_def)
  then show ?thesis using assms(2) by (simp add: handle_message_def mem_get_ok)
qed

theorem long_value_overruns_witness:
  "handle_message (demo_lmdb False) False demo_handle (Live ())
     (le32 0 @ accepted_image ((obj_acc demo_stored)\<lparr>acc_value :=
        \<lparr>paxos_value_len = 200, value_pad = 0, paxos_value_val = 0\<rparr>\<rparr>) @ replicate 196 1)
     demo_uenv (Map.empty, None) = Inl OutOfBounds"
  by (rule long_value_overruns [OF _ refl]) simp_all

text \<open>The threads get the paths of the command line, the read thread that of \<open>-r\<close> and the
  write thread that of \<open>-w\<close>, the last of each; without both, or with an option it does not
  know, the program prints its usage and ends.\<close>

lemma storage_paths:
  "storage_main os =
    (let ws = [p. Opt_w p \<leftarrow> os]; rs = [p. Opt_r p \<leftarrow> os]
     in if Opt_other \<in> set os \<or> ws = [] \<or> rs = [] then None else Some (Some (last rs), Some (last ws)))"
proof -
  have "check_args os a =
      (if Opt_other \<in> set os then None
       else Some \<lparr>read_device_path = (if [p. Opt_r p \<leftarrow> os] = [] then read_device_path a else Some (last [p. Opt_r p \<leftarrow> os])),
            write_device_path = (if [p. Opt_w p \<leftarrow> os] = [] then write_device_path a else Some (last [p. Opt_w p \<leftarrow> os])),
            verbose = verbose a \<or> Opt_v \<in> set os\<rparr>)" for a
    by (induction os a rule: check_args.induct) auto
  then show ?thesis by (auto simp: storage_main_def get_device_path_def Let_def)
qed

end
