(* ===== verification/System.thy ===== *)
theory System
  imports Persistence_Main User_Storage
begin

text \<open>
  The program as a whole: the test program, the four devices of the module, the worker
  pool, the two threads of the storage process and its database, as one state and one step
  relation. The properties are what the parts are for together: a message that is found was
  written, and a message that was written and stored is found.
\<close>

section \<open>Turns of the storage process\<close>

text \<open>
  \<open>recv\<close> is the first 240 bytes of the mapped memory at the receive buffer; what the driver
  writes behind them lands in a neighbouring block.
\<close>

definition recv_block :: "umem \<Rightarrow> byte list" where
  "recv_block m = take (sizeof_paxos_accepted + MAX_PAXOS_VALUE_SIZE) m"

definition write_turn ::
  "'w lmdb_api \<Rightarrow> lmdb_storage \<Rightarrow> to_user \<Rightarrow> umem \<Rightarrow> paxos_kernel_device \<Rightarrow> uenv \<Rightarrow> 'w
   \<Rightarrow> cerror + paxos_kernel_device \<times> uenv \<times> 'w" where
  "write_turn M s ctu buffer wp e w =
     bindR (write_persistence_read ctu buffer wp) (\<lambda>(len, m, wp1).
     bindR (storage_round M False s (Live []) (Live ()) (Event len (recv_block m)) e w) (\<lambda>(n, out, e1, w1).
     Inr (wp1, e1, w1)))"

text \<open>The memory behind the pointer passed to \<open>write\<close>; nothing is mapped behind NULL.\<close>

definition user_block :: "byte list cptr \<Rightarrow> umem" where
  "user_block p = (case p of Live b \<Rightarrow> b | _ \<Rightarrow> [])"

definition read_turn ::
  "'w lmdb_api \<Rightarrow> lmdb_storage \<Rightarrow> to_user \<Rightarrow> from_user \<Rightarrow> umem \<Rightarrow> paxos_kernel_device \<Rightarrow> uenv \<Rightarrow> 'w
   \<Rightarrow> cerror + paxos_kernel_device \<times> uenv \<times> 'w" where
  "read_turn M s ctu cfu buffer dev e w =
     bindR (read_persistence_read ctu buffer dev) (\<lambda>(len, m).
     bindR (storage_round M True s (Live []) (Live ()) (Event len (recv_block m)) e w) (\<lambda>(n, out, e1, w1).
     case out of
       [] \<Rightarrow> Inr (dev, e1, w1)
     | (msg, sz) # _ \<Rightarrow>
         bindR (read_persistence_write cfu (user_block msg) (sint sz) dev) (\<lambda>(r, dev1). Inr (dev1, e1, w1))))"

section \<open>The system\<close>

record 'w system =
  sys_wt :: paxos_kernel_device
  sys_wp :: paxos_kernel_device
  sys_rt :: rt_system
  sys_mem :: uenv
  sys_db :: 'w

text \<open>
  A test program writes a message or a query, the write thread or the read thread takes its
  turn, a worker runs a work.
\<close>

datatype sys_event = Write paxos_accepted "byte list" | Save | Ask paxos_accepted | Reply | Run_work nat

text \<open>The struct that the write device queues for a message with the value \<open>v\<close>.\<close>

definition with_len :: "paxos_accepted \<Rightarrow> byte list \<Rightarrow> paxos_accepted" where
  "with_len a v = a\<lparr>acc_value := (acc_value a)\<lparr>paxos_value_len := of_nat (length v)\<rparr>\<rparr>"

definition query_msg :: "paxos_accepted \<Rightarrow> byte list" where
  "query_msg q = accepted_image (with_len q [])"

inductive sys_step ::
  "'w lmdb_api \<Rightarrow> lmdb_storage \<Rightarrow> lmdb_storage \<Rightarrow> to_user \<Rightarrow> from_user \<Rightarrow> umem
   \<Rightarrow> 'w system \<Rightarrow> sys_event \<Rightarrow> 'w system \<Rightarrow> bool"
  for M sw sr ctu cfu buffer where
  Write: "length v \<le> 196 \<Longrightarrow>
    write_test_write (accepted_image a @ v) (of_nat (40 + length v)) (sys_wt s) (sys_wp s) = Inr (r, wp) \<Longrightarrow>
    sys_step M sw sr ctu cfu buffer s (Write a v) (s\<lparr>sys_wp := wp\<rparr>)"
| Save: "write_persistence_poll (sys_wp s) = 1 \<Longrightarrow>
    write_turn M sw ctu buffer (sys_wp s) (sys_mem s) (sys_db s) = Inr (wp, e, w) \<Longrightarrow>
    sys_step M sw sr ctu cfu buffer s Save (s\<lparr>sys_wp := wp, sys_mem := e, sys_db := w\<rparr>)"
| Ask: "rt_step ctu cfu buffer (sys_rt s) (Query (query_msg q) 40) r \<Longrightarrow>
    sys_step M sw sr ctu cfu buffer s (Ask q) (s\<lparr>sys_rt := r\<rparr>)"
| Reply: "read_persistence_poll (rp (sys_rt s)) = 1 \<Longrightarrow>
    read_turn M sr ctu cfu buffer (rp (sys_rt s)) (sys_mem s) (sys_db s) = Inr (d, e, w) \<Longrightarrow>
    sys_step M sw sr ctu cfu buffer s Reply (s\<lparr>sys_rt := (sys_rt s)\<lparr>rp := d\<rparr>, sys_mem := e, sys_db := w\<rparr>)"
| Run_work: "rt_step ctu cfu buffer (sys_rt s) (Work i) r \<Longrightarrow>
    sys_step M sw sr ctu cfu buffer s (Run_work i) (s\<lparr>sys_rt := r\<rparr>)"

inductive sys_run ::
  "'w lmdb_api \<Rightarrow> lmdb_storage \<Rightarrow> lmdb_storage \<Rightarrow> to_user \<Rightarrow> from_user \<Rightarrow> umem
   \<Rightarrow> 'w system \<Rightarrow> sys_event list \<Rightarrow> 'w system \<Rightarrow> bool"
  for M sw sr ctu cfu buffer s0 where
  idle: "sys_run M sw sr ctu cfu buffer s0 [] s0"
| step: "sys_run M sw sr ctu cfu buffer s0 tr s \<Longrightarrow> sys_step M sw sr ctu cfu buffer s ev s' \<Longrightarrow>
    sys_run M sw sr ctu cfu buffer s0 (tr @ [ev]) s'"

section \<open>What is in transit\<close>

text \<open>The messages a trace has written, as they are stored.\<close>

definition written :: "sys_event list \<Rightarrow> message set" where
  "written tr = {(strip (with_len a v), v) | a v. Write a v \<in> set tr}"

definition msgs_ok :: "message set \<Rightarrow> bool" where
  "msgs_ok W \<longleftrightarrow> (\<forall>m \<in> W. message_good m \<and> length (snd m) \<le> 196 \<and> strip (fst m) = fst m)"

definition carries :: "message set \<Rightarrow> byte list \<Rightarrow> bool" where
  "carries W f \<longleftrightarrow> (\<exists>a v. f = accepted_image a @ v \<and> message_good (a, v) \<and> length v \<le> 196 \<and> (strip a, v) \<in> W)"

definition response_message :: "accepted_obj \<Rightarrow> message" where
  "response_message r = (strip (obj_acc r),
     take (nat (sint (paxos_value_len (acc_value (obj_acc r))))) (value_of r))"

definition has_value :: "accepted_obj \<Rightarrow> bool" where
  "has_value r \<longleftrightarrow> 0 < sint (paxos_value_len (acc_value (obj_acc r)))"

definition responses_in :: "message set \<Rightarrow> paxos_kernel_device \<Rightarrow> bool" where
  "responses_in W dev \<longleftrightarrow> (\<forall>cb \<in> set (callbacks_of dev). has_value (response_of cb) \<longrightarrow>
     response_message (response_of cb) \<in> W)"

definition wp_inv :: "to_user \<Rightarrow> umem \<Rightarrow> message set \<Rightarrow> paxos_kernel_device \<Rightarrow> bool" where
  "wp_inv ctu buffer W dev \<longleftrightarrow> write_inv ctu buffer dev \<and> (\<forall>f \<in> set (frames dev). carries W f)"

definition rq_inv :: "to_user \<Rightarrow> from_user \<Rightarrow> umem \<Rightarrow> message set \<Rightarrow> paxos_kernel_device \<Rightarrow> bool" where
  "rq_inv ctu cfu buffer W dev \<longleftrightarrow> rp_inv ctu cfu buffer dev
     \<and> (\<forall>b \<in> set (queued dev). value_len_of b = 0) \<and> responses_in W dev"

definition sys_inv ::
  "'w lmdb_api \<Rightarrow> lmdb_storage \<Rightarrow> lmdb_storage \<Rightarrow> ('w \<Rightarrow> bool) \<Rightarrow> ('w \<Rightarrow> byte list \<rightharpoonup> byte list)
   \<Rightarrow> ('w \<Rightarrow> u64 \<Rightarrow> (byte list \<rightharpoonup> byte list) option) \<Rightarrow> to_user \<Rightarrow> from_user \<Rightarrow> umem
   \<Rightarrow> message set \<Rightarrow> 'w system \<Rightarrow> bool" where
  "sys_inv M sw sr ok db view ctu cfu buffer W s \<longleftrightarrow>
     msgs_ok W \<and> working (sys_wt s) \<noteq> 0 \<and> wp_inv ctu buffer W (sys_wp s)
     \<and> rt_inv ctu cfu buffer (sys_rt s) \<and> rq_inv ctu cfu buffer W (rp (sys_rt s))
     \<and> storage_inv M sw ok db view (sys_mem s, sys_db s) \<and> storage_inv M sr ok db view (sys_mem s, sys_db s)
     \<and> (\<forall>i m. contents (db (sys_db s)) i = Some m \<longrightarrow> m \<in> W \<and> iid (fst m) = i)"

section \<open>The write path\<close>

lemma accepted_image_inject [simp]: "accepted_image a = accepted_image b \<longleftrightarrow> a = b"
  by (metis accepted_of_image_image)

lemma with_len_good:
  assumes "length v \<le> 196"
  shows "message_good (with_len a v, v)" and "message_good (strip (with_len a v), v)"
proof -
  have "sint (of_nat (length v) :: u32) = int (length v)" using assms by (intro sint_of_nat32) simp
  then show "message_good (with_len a v, v)" and "message_good (strip (with_len a v), v)"
    by (simp_all add: message_good_def with_len_def strip_def)
qed

lemma write_frame_carries:
  assumes "length v \<le> 196"
  shows "write_good (accepted_image a @ v, of_nat (40 + length v))"
    and "write_frame (accepted_image a @ v, of_nat (40 + length v)) = accepted_image (with_len a v) @ v"
  using write_frame_struct [of v "of_nat (40 + length v)" a "[]"] assms by (simp_all add: with_len_def min_def)

lemma carries_mono: "carries W f \<Longrightarrow> W \<subseteq> W' \<Longrightarrow> carries W' f"
  by (auto simp: carries_def)

lemma wp_inv_write:
  assumes "wp_inv ctu buffer W wp" and "working wt \<noteq> 0" and "length v \<le> 196"
  shows "\<exists>r wp'. write_test_write (accepted_image a @ v) (of_nat (40 + length v)) wt wp = Inr (r, wp')
    \<and> wp_inv ctu buffer (insert (strip (with_len a v), v) W) wp'"
proof -
  let ?m = "(accepted_image a @ v, of_nat (40 + length v) :: u64)" and ?W = "insert (strip (with_len a v), v) W"
  have inv: "write_inv ctu buffer wp" and fs: "\<forall>f \<in> set (frames wp). carries ?W f"
    using assms(1) carries_mono [of W _ ?W] by (auto simp: wp_inv_def)
  have new: "carries ?W (write_frame ?m)"
    using with_len_good(1) [OF assms(3), of a] assms(3) write_frame_carries(2) [OF assms(3), of a]
    unfolding carries_def by blast
  show ?thesis
  proof (cases "length (frames wp) < BUFFER_SIZE")
    case True
    from write_put_room [OF inv write_frame_carries(1) [OF assms(3), of a] True] obtain slot wp' where
      "write_persistence_add_message (accepted_image a @ v) (of_nat (40 + length v)) wp = Inr (Some slot, wp')"
      "write_inv ctu buffer wp'" "frames wp' = frames wp @ [write_frame ?m]"
      unfolding write_put_def fst_conv snd_conv by blast
    with fs new assms(2) show ?thesis by (simp add: write_test_write_def wp_inv_def)
  next
    case False
    with inv have "length (frames wp) = BUFFER_SIZE" by (auto simp: write_inv_def elim: channel_okE)
    with inv have "write_put ?m wp = Inr (None, wp)" by (rule wchan.put_full)
    with inv fs assms(2) show ?thesis by (simp add: write_test_write_def wp_inv_def write_put_def)
  qed
qed

lemma recv_received:
  assumes "length v \<le> 196"
  shows "recv_block (le32 i @ accepted_image a @ v @ rest) = received i (a, v) (take (196 - length v) rest)"
  using assms by (simp add: recv_block_def received_def size_defs)

text \<open>A polled read delivers the oldest frame behind its slot number.\<close>

lemma write_read_frame:
  assumes "write_inv ctu buffer wp" and "write_persistence_poll wp = 1"
  shows "\<exists>rest wp'. write_persistence_read ctu buffer wp =
      Inr (int (length (hd (frames wp))), le32 (of_nat (first_buf wp)) @ hd (frames wp) @ rest, wp')
    \<and> write_inv ctu buffer wp' \<and> frames wp' = tl (frames wp) \<and> frames wp \<noteq> []"
proof -
  have ne: "frames wp \<noteq> []" using assms wchan.ready_iff by blast
  from assms(1) obtain n where n: "ring_ok n wp" "length (frames wp) = n"
    and fl: "\<And>b. b \<in> set (queued wp) \<Longrightarrow> frame_len b \<le> 240"
    by (auto simp: write_inv_def elim: channel_okE)
  have pos: "0 < n" using ne n(2) by auto
  note pop = ring_pop [OF n(1) pos refl]
  have le: "frame_len (hd (queued wp)) \<le> 240" using fl pop(4) by simp
  then have len: "length (hd (frames wp)) = frame_len (hd (queued wp))"
    using load_slot_ok(2) [of wp "first_buf wp"] n(1) pop(3,4)
    by (simp add: frames_def hd_map ring_ok_def payload_def size_defs)
  have hd: "hd (frames wp) = payload (hd (queued wp))" using pop(4) by (simp add: frames_def hd_map)
  have r: "write_persistence_read ctu buffer wp = Inr (int (frame_len (hd (queued wp))),
      le32 (of_nat (first_buf wp)) @ payload (hd (queued wp)) @ drop (4 + frame_len (hd (queued wp))) buffer,
      wp\<lparr>used_buf := used_buf wp - 1, first_buf := next_slot (first_buf wp)\<rparr>)"
    using assms(1) le by (intro read_ready [OF n(1) pos]) (simp_all add: write_inv_def)
  have "write_inv ctu buffer (wp\<lparr>used_buf := used_buf wp - 1, first_buf := next_slot (first_buf wp)\<rparr>)
      \<and> frames (wp\<lparr>used_buf := used_buf wp - 1, first_buf := next_slot (first_buf wp)\<rparr>) = tl (frames wp)"
    using write_get_item [OF assms(1) ne] r by (auto simp: write_get_def)
  with r len hd ne show ?thesis by auto
qed

text \<open>What the write thread receives: a message that was written, behind a slot number.\<close>

lemma write_receives:
  assumes "wp_inv ctu buffer W wp" and "write_persistence_poll wp = 1"
  shows "\<exists>len m wp' i a v rest. write_persistence_read ctu buffer wp = Inr (len, m, wp') \<and> len \<noteq> 0
    \<and> recv_block m = received i (a, v) rest \<and> hd (frames wp) = accepted_image a @ v \<and> frames wp \<noteq> []
    \<and> (strip a, v) \<in> W \<and> message_good (a, v) \<and> wp_inv ctu buffer W wp' \<and> frames wp' = tl (frames wp)"
proof -
  have inv: "write_inv ctu buffer wp" and fs: "\<forall>f \<in> set (frames wp). carries W f"
    using assms(1) by (simp_all add: wp_inv_def)
  from write_read_frame [OF inv assms(2)] obtain rest wp' where
    r: "write_persistence_read ctu buffer wp =
        Inr (int (length (hd (frames wp))), le32 (of_nat (first_buf wp)) @ hd (frames wp) @ rest, wp')"
    and wp': "write_inv ctu buffer wp'" "frames wp' = tl (frames wp)" and ne: "frames wp \<noteq> []" by blast
  from fs ne have "carries W (hd (frames wp))" by simp
  then obtain a v where f: "hd (frames wp) = accepted_image a @ v" and good: "message_good (a, v)"
    and v: "length v \<le> 196" and W: "(strip a, v) \<in> W" by (auto simp: carries_def)
  have wpi: "wp_inv ctu buffer W wp'" using wp' fs ne by (auto simp: wp_inv_def dest: list.set_sel(2))
  have l: "int (length (accepted_image a @ v)) \<noteq> 0" by simp
  from r [unfolded f append_assoc] l recv_received [OF v] f ne W good wpi wp'(2) show ?thesis by blast
qed

lemma write_turn_handles:
  assumes "wp_inv ctu buffer W wp" and "write_persistence_poll wp = 1"
  obtains a v wp' i rest where "hd (frames wp) = accepted_image a @ v" and "frames wp \<noteq> []"
    and "(strip a, v) \<in> W" and "message_good (a, v)" and "wp_inv ctu buffer W wp'" and "frames wp' = tl (frames wp)"
    and "\<forall>e w. write_turn M s ctu buffer wp e w =
      bindR (handle_message M False s (Live ()) (received i (a, v) rest) e w) (\<lambda>(out, e1, w1). Inr (wp', e1, w1))"
proof -
  from write_receives [OF assms] obtain len m wp' i a v rest where
    r: "write_persistence_read ctu buffer wp = Inr (len, m, wp')" "len \<noteq> 0" "recv_block m = received i (a, v) rest"
    and p: "hd (frames wp) = accepted_image a @ v" "frames wp \<noteq> []" "(strip a, v) \<in> W" "message_good (a, v)"
      "wp_inv ctu buffer W wp'" "frames wp' = tl (frames wp)" by blast
  have t: "write_turn M s ctu buffer wp e w =
      bindR (handle_message M False s (Live ()) (received i (a, v) rest) e w) (\<lambda>(out, e1, w1). Inr (wp', e1, w1))" for e w
    by (cases "handle_message M False s (Live ()) (received i (a, v) rest) e w")
      (auto simp: write_turn_def r storage_round_def case_prod_beta)
  show ?thesis by (rule that [OF p]) (rule allI, rule allI, rule t)
qed

lemma write_turn_ends:
  assumes "wp_inv ctu buffer W wp" and "write_persistence_poll wp = 1" and "storage_inv M s ok db view (e, w)"
  shows "\<exists>a v. (strip a, v) \<in> W \<and> (write_turn M s ctu buffer wp e w = Inl AssertFailed
     \<or> (\<exists>b wp' e1 w1. write_turn M s ctu buffer wp e w = Inr (wp', e1, w1) \<and> wp_inv ctu buffer W wp'
          \<and> storage_inv M s ok db view (e1, w1)
          \<and> contents (db w1) = (if b then (contents (db w))(iid a \<mapsto> (strip a, v)) else contents (db w))))"
proof -
  obtain a v i rest wp' where "hd (frames wp) = accepted_image a @ v" and "frames wp \<noteq> []"
    and W: "(strip a, v) \<in> W" and good: "message_good (a, v)" and wp': "wp_inv ctu buffer W wp'"
    and "frames wp' = tl (frames wp)"
    and t: "\<forall>e w. write_turn M s ctu buffer wp e w =
      bindR (handle_message M False s (Live ()) (received i (a, v) rest) e w) (\<lambda>(out, e1, w1). Inr (wp', e1, w1))"
    by (rule write_turn_handles [OF assms(1,2), where M = M and s = s])
  let ?h = "handle_message M False s (Live ()) (received i (a, v) rest) e w"
  from handle_write [OF assms(3) good, of "()" i rest]
  show ?thesis
  proof
    assume "?h = Inl AssertFailed"
    with W t show ?thesis by auto
  next
    assume "\<exists>b e1 w1. ?h = Inr ([], e1, w1) \<and> storage_inv M s ok db view (e1, w1) \<and> contents (db w1) =
      (if b then (contents (db w))(iid (fst (a, v)) \<mapsto> (strip (fst (a, v)), snd (a, v))) else contents (db w))"
    then obtain b e1 w1 where "?h = Inr ([], e1, w1)" "storage_inv M s ok db view (e1, w1)"
      "contents (db w1) = (if b then (contents (db w))(iid a \<mapsto> (strip a, v)) else contents (db w))"
      unfolding fst_conv snd_conv by blast
    with W t wp' show ?thesis by auto
  qed
qed

text \<open>When the library refuses nothing, the oldest frame is stored.\<close>

lemma write_turn_stores:
  assumes "wp_inv ctu buffer W wp" and "frames wp = (accepted_image a @ v) # fs"
    and "storage_inv M s ok db view (e, w)" and "grants M s ok view"
  shows "write_persistence_poll wp = 1"
    and "\<exists>wp' e1 w1. write_turn M s ctu buffer wp e w = Inr (wp', e1, w1) \<and> frames wp' = fs
     \<and> contents (db w1) = (contents (db w))(iid a \<mapsto> (strip a, v))"
proof -
  have "write_inv ctu buffer wp" using assms(1) by (simp add: wp_inv_def)
  then show poll: "write_persistence_poll wp = 1" using wchan.ready_iff [of ctu buffer wp] assms(2) by simp
  obtain a' v' i rest wp' where hd: "hd (frames wp) = accepted_image a' @ v'" and "frames wp \<noteq> []"
    and "(strip a', v') \<in> W" and good: "message_good (a', v')" and "wp_inv ctu buffer W wp'"
    and wp': "frames wp' = tl (frames wp)"
    and t: "\<forall>e w. write_turn M s ctu buffer wp e w =
      bindR (handle_message M False s (Live ()) (received i (a', v') rest) e w) (\<lambda>(out, e1, w1). Inr (wp', e1, w1))"
    by (rule write_turn_handles [OF assms(1) poll, where M = M and s = s])
  have "a' = a \<and> v' = v" using hd assms(2) by simp
  with handle_write_granted [OF assms(3) good assms(4), of "()" i rest] t wp' assms(2)
  show "\<exists>wp' e1 w1. write_turn M s ctu buffer wp e w = Inr (wp', e1, w1) \<and> frames wp' = fs
     \<and> contents (db w1) = (contents (db w))(iid a \<mapsto> (strip a, v))" by auto
qed

section \<open>The query path\<close>

lemma query_good: "read_good (query_msg q, 40)" and query_len: "value_len_of (query_msg q) = 0"
  by (simp_all add: read_good_def query_msg_def with_len_def frame_len_def int_to_size_def size_defs)

lemma responses_in_mono: "responses_in W dev \<Longrightarrow> W \<subseteq> W' \<Longrightarrow> responses_in W' dev"
  by (auto simp: responses_in_def)

lemma rq_inv_mono: "rq_inv ctu cfu buffer W dev \<Longrightarrow> W \<subseteq> W' \<Longrightarrow> rq_inv ctu cfu buffer W' dev"
  using responses_in_mono by (auto simp: rq_inv_def)

lemma responses_in_update:
  assumes "responses_in W dev" and "callbacks_of dev' = (callbacks_of dev)[i := cb]"
    and "has_value (response_of cb) \<Longrightarrow> response_message (response_of cb) \<in> W"
  shows "responses_in W dev'"
  unfolding responses_in_def assms(2)
proof
  fix c assume "c \<in> set ((callbacks_of dev)[i := cb])"
  then have "c \<in> insert cb (set (callbacks_of dev))" by (rule set_update_subset_insert [THEN subsetD])
  with assms(1,3) show "has_value (response_of c) \<longrightarrow> response_message (response_of c) \<in> W"
    by (auto simp: responses_in_def)
qed

lemma old_response_in:
  assumes "responses_in W dev" and "buffers_ok dev" and "i < BUFFER_SIZE" and "has_value (response_of (callbacks_of dev ! i))"
  shows "response_message (response_of (callbacks_of dev ! i)) \<in> W"
  using assms buffers_okD(5) [OF assms(2)] by (simp add: responses_in_def)

lemma rq_inv_worked:
  assumes "rq_inv ctu cfu buffer W dev" and "i < BUFFER_SIZE"
  shows "rq_inv ctu cfu buffer W (worked i dev)"
proof -
  from assms(1) obtain n where n: "ring_ok n dev" by (auto simp: rq_inv_def rp_inv_def channel_ok_def)
  then have b: "buffers_ok dev" by (simp add: ring_ok_def)
  have r: "responses_in W dev" using assms(1) by (simp add: rq_inv_def)
  have "responses_in W (worked i dev)"
    by (rule responses_in_update [OF r, of _ i "(callbacks_of dev ! i)\<lparr>is_done := 1\<rparr>"])
       (use old_response_in [OF r b assms(2)] in \<open>simp_all add: worked_def response_of_def\<close>)
  with assms rp_inv_worked(1) [OF _ assms(2)] worked_ring(2) [OF n assms(2)] show ?thesis
    by (simp add: rq_inv_def)
qed

lemma rq_inv_asked:
  assumes "rq_inv ctu cfu buffer W dev" and "read_persistence_add_message (query_msg q) 40 dev = Inr (x, dev')"
  shows "rq_inv ctu cfu buffer W dev'"
proof -
  from assms(1) obtain n where n: "ring_ok n dev" "n \<le> BUFFER_SIZE"
    by (auto simp: rq_inv_def rp_inv_def elim: channel_okE)
  then have b: "buffers_ok dev" and cur: "current_buf dev < BUFFER_SIZE"
    using ring_ok_bounds [OF n(1)] by (simp_all add: ring_ok_def)
  have r: "responses_in W dev" and rpi: "rp_inv ctu cfu buffer dev" using assms(1) by (simp_all add: rq_inv_def)
  show ?thesis
  proof (cases "n < BUFFER_SIZE")
    case True
    note added = read_added_ring [OF n(1) True query_good [of q]]
    have d: "dev' = read_added (query_msg q) 40 dev" using added(3) assms(2) by simp
    from rpi query_good [of q] have "rp_inv ctu cfu buffer dev'"
      by (cases rule: rp_inv_add) (use assms(2) added(3) in auto)
    moreover have "responses_in W dev'"
      unfolding d
      by (rule responses_in_update [OF r, of _ "current_buf dev"], simp add: read_added_def Let_def)
         (use old_response_in [OF r b cur] in \<open>simp add: response_of_def\<close>)
    moreover have "\<forall>b \<in> set (queued dev'). value_len_of b = 0"
      using assms(1) added(2) d read_block_frame(3) [OF query_good] query_len by (auto simp: rq_inv_def)
    ultimately show ?thesis by (simp add: rq_inv_def)
  next
    case False
    with n have "ring_full dev" by (simp add: ring_ok_used)
    with assms read_add_full show ?thesis by simp
  qed
qed

lemma sint_of_nat_unique: "sint (w :: u32) = int n \<Longrightarrow> w = of_nat n"
proof -
  assume "sint w = int n"
  then have "(word_of_int (sint w) :: u32) = word_of_int (int n)" by simp
  then show ?thesis by simp
qed

lemma strip_eq_len: "strip a = strip b \<Longrightarrow> paxos_value_len (acc_value a) = paxos_value_len (acc_value b)"
  by (metis paxos_accepted.select_convs(7) paxos_accepted.surjective paxos_accepted.update_convs(7)
      paxos_value.select_convs(1) paxos_value.surjective paxos_value.update_convs(3) strip_def)

lemma strip_strip [simp]: "strip (strip a) = strip a"
  by (simp add: strip_def)

lemma reply_len:
  assumes "reply_ok a v"
  shows "sint (paxos_value_len (acc_value a)) = int (length v)"
  using assms value_len_nat(1) [of v] by (simp add: reply_ok_def size_defs)

lemma answered_rq_inv:
  assumes "rq_inv ctu cfu buffer W dev" and "ring_ok n dev" and "0 < n" and "reply_ok a v"
    and "v \<noteq> [] \<Longrightarrow> (strip a, v) \<in> W"
  shows "rq_inv ctu cfu buffer W (answered i a v dev)"
proof -
  have rpi: "rp_inv ctu cfu buffer dev" and zero: "\<forall>b \<in> set (queued dev). value_len_of b = 0"
    and resp: "responses_in W dev" using assms(1) by (simp_all add: rq_inv_def)
  have ne: "queued dev \<noteq> []" using ring_ok_used(3) [OF assms(2)] assms(3) by auto
  let ?cb = "answered_callback a v (callbacks_of dev ! i)"
  note ring = answered_ring [OF assms(2-4), of i]
  have "rp_inv ctu cfu buffer (answered i a v dev)"
    using rpi ring ne by (auto simp: rp_inv_def channel_ok_def answered_def dest: list.set_sel(2))
  moreover have "\<forall>b \<in> set (queued (answered i a v dev)). value_len_of b = 0"
    using ring(2) zero ne by (auto dest: list.set_sel(2))
  moreover have "responses_in W (answered i a v dev)"
  proof (rule responses_in_update [OF resp, of _ i ?cb])
    assume "has_value (response_of ?cb)"
    then have "v \<noteq> []" using reply_len [OF assms(4)] by (simp add: has_value_def response_of_def answered_callback_def)
    moreover have "response_message (response_of ?cb) = (strip a, v)"
      using reply_len [OF assms(4)] by (simp add: response_message_def response_of_def answered_callback_def value_of_def)
    ultimately show "response_message (response_of ?cb) \<in> W" using assms(5) by simp
  qed (simp add: answered_def)
  ultimately show ?thesis by (simp add: rq_inv_def)
qed

text \<open>What the read thread receives of the oldest query.\<close>

lemma oldest_query:
  assumes "rq_inv ctu cfu buffer W dev" and "ring_ok n dev" and "0 < n"
  shows "\<exists>m rest. read_persistence_read ctu buffer dev = Inr (44, m)
    \<and> recv_block m = received (of_nat (first_buf dev)) (accepted_of_image (hd (queued dev)), []) rest"
    and "message_good (accepted_of_image (hd (queued dev)), [])"
proof -
  let ?b = "hd (queued dev)" and ?f = "first_buf dev" and ?q = "accepted_of_image (hd (queued dev))"
  note pop = ring_pop [OF assms(2,3) refl]
  have "length ?b = 240"
    using load_slot_ok(2) [of dev ?f] assms(2) pop(3) by (simp add: ring_ok_def size_defs)
  moreover have z: "value_len_of ?b = 0" using assms(1) pop(4) by (simp add: rq_inv_def)
  ultimately have fl: "frame_len ?b = 40" and pay: "payload ?b = accepted_image ?q"
    using accepted_image_of_image [of ?b] by (simp_all add: payload_def frame_len_def int_to_size_def size_defs)
  have "read_persistence_read ctu buffer dev = Inr (44, le32 (of_nat ?f) @ accepted_image ?q @ [] @ drop 44 buffer)"
    using read_persistence_read_ready [OF assms(2,3), of ctu buffer] assms(1) fl pay by (simp add: rq_inv_def rp_inv_def)
  with recv_received [of "[]" "of_nat ?f" ?q "drop 44 buffer"]
  show "\<exists>m rest. read_persistence_read ctu buffer dev = Inr (44, m)
    \<and> recv_block m = received (of_nat ?f) (?q, []) rest" by (intro exI conjI) (assumption | simp)+
  show "message_good (?q, [])" using z by (simp add: message_good_def)
qed

lemma answer_unique:
  assumes "answer_for i m ans" and "answer_for i m' ans"
  shows "strip (fst m) = strip (fst m') \<and> snd m = snd m'"
  using assms
  by (auto simp: answer_for_def received_def)

text \<open>What the read thread finds for the oldest query: an answer under its slot number, with a
  value that was written, and with the stored message if there is one.\<close>

lemma lookup_answer:
  assumes "rq_inv ctu cfu buffer W dev" and "ring_ok n dev" and "0 < n" and "storage_inv M s ok db view (e, w)"
    and "msgs_ok W" and "\<forall>i m. contents (db w) i = Some m \<longrightarrow> m \<in> W"
  shows "\<exists>mem a v pad sz e1 w1. read_persistence_read ctu buffer dev = Inr (44, mem)
    \<and> handle_message M True s (Live ()) (recv_block mem) e w =
        Inr ([(Live (reply_bytes (first_buf dev) a v @ pad), sz)], e1, w1)
    \<and> storage_inv M s ok db view (e1, w1) \<and> db w1 = db w \<and> reply_ok a v \<and> (v \<noteq> [] \<longrightarrow> (strip a, v) \<in> W)
    \<and> (\<forall>h w2 m. mdb_txn_begin M (st_env s) w = Inr (0, h, w2)
          \<and> contents (db w) (iid (accepted_of_image (hd (queued dev)))) = Some m \<longrightarrow> (strip a, v) = m)"
proof -
  let ?f = "first_buf dev" and ?q = "accepted_of_image (hd (queued dev))"
  obtain mem rest where r: "read_persistence_read ctu buffer dev = Inr (44, mem)"
    "recv_block mem = received (of_nat ?f) (?q, []) rest" using oldest_query(1) [OF assms(1-3)] by blast
  obtain ans e1 w1 where h: "handle_message M True s (Live ()) (received (of_nat ?f) (?q, []) rest) e w = Inr ([ans], e1, w1)"
    and st: "storage_inv M s ok db view (e1, w1)" "db w1 = db w"
    and a1: "answer_for (of_nat ?f) not_found ans \<or> (\<exists>m. contents (db w) (iid ?q) = Some m \<and> message_good m
        \<and> answer_for (of_nat ?f) m ans)"
    and a2: "\<forall>h w2 m. mdb_txn_begin M (st_env s) w = Inr (0, h, w2) \<and> contents (db w) (iid ?q) = Some m \<longrightarrow>
         message_good m \<and> answer_for (of_nat ?f) m ans"
    using handle_read [OF assms(4) oldest_query(2) [OF assms(1-3)], of "()" "of_nat ?f" rest] unfolding fst_conv by blast
  have nf: "message_good not_found" "snd not_found = []"
    using zero_accepted_holds by (simp_all add: message_good_def not_found_def holds_def)
  from a1 obtain m where m: "answer_for (of_nat ?f) m ans" "message_good m" "m = not_found \<or> m \<in> W"
    using nf assms(6) by blast
  then have v: "length (snd m) \<le> 196" using nf assms(5) by (auto simp: msgs_ok_def)
  obtain a pad where a: "strip a = strip (fst m)" "fst ans = Live (received (of_nat ?f) (a, snd m) pad)"
    using m(1) by (auto simp: answer_for_def)
  have "sint (paxos_value_len (acc_value a)) = int (length (snd m))"
    using strip_eq_len [OF a(1)] m(2) by (simp add: message_good_def)
  then have rok: "reply_ok a (snd m)" using v sint_of_nat_unique by (simp add: reply_ok_def size_defs)
  have ans: "ans = (Live (reply_bytes ?f a (snd m) @ pad), snd ans)"
    using a(2) by (simp add: received_def reply_bytes_def prod_eq_iff)
  have stripped: "strip (fst m') = fst m'" if "m' \<in> W" for m' using assms(5) that by (simp add: msgs_ok_def)
  have "(strip a, snd m) = m" if "m \<in> W" using a(1) stripped [OF that] by (simp add: prod_eq_iff)
  then have W: "snd m \<noteq> [] \<longrightarrow> (strip a, snd m) \<in> W" using m(3) nf(2) by auto
  have found: "\<forall>h w2 m'. mdb_txn_begin M (st_env s) w = Inr (0, h, w2) \<and> contents (db w) (iid ?q) = Some m' \<longrightarrow>
      (strip a, snd m) = m'"
  proof (intro allI impI, elim conjE)
    fix h w2 m' assume "mdb_txn_begin M (st_env s) w = Inr (0, h, w2)" "contents (db w) (iid ?q) = Some m'"
    with a2 assms(6) have "answer_for (of_nat ?f) m' ans" "m' \<in> W" by blast+
    with answer_unique [OF m(1)] a(1) stripped show "(strip a, snd m) = m'" by (simp add: prod_eq_iff)
  qed
  have "handle_message M True s (Live ()) (recv_block mem) e w =
      Inr ([(Live (reply_bytes ?f a (snd m) @ pad), snd ans)], e1, w1)" using h ans r(2) by simp
  with r(1) st rok W found show ?thesis by blast
qed

text \<open>The read thread's turn: the oldest query is answered under its slot number.\<close>

lemma read_turn_ends:
  assumes "rq_inv ctu cfu buffer W dev" and "read_persistence_poll dev = 1" and "storage_inv M s ok db view (e, w)"
    and "msgs_ok W" and "\<forall>i m. contents (db w) i = Some m \<longrightarrow> m \<in> W"
  shows "\<exists>a v e1 w1. read_turn M s ctu cfu buffer dev e w = Inr (answered (first_buf dev) a v dev, e1, w1)
    \<and> rq_inv ctu cfu buffer W (answered (first_buf dev) a v dev) \<and> storage_inv M s ok db view (e1, w1) \<and> db w1 = db w
    \<and> reply_ok a v
    \<and> (\<forall>h w2 m. mdb_txn_begin M (st_env s) w = Inr (0, h, w2)
          \<and> contents (db w) (iid (accepted_of_image (hd (queued dev)))) = Some m \<longrightarrow> (strip a, v) = m)"
proof -
  have rpi: "rp_inv ctu cfu buffer dev" using assms(1) by (simp add: rq_inv_def)
  obtain n where n: "ring_ok n dev" using rpi by (auto simp: rp_inv_def elim: channel_okE)
  have pos: "0 < n"
    using assms(2) ring_ok_used(5) [OF n] by (simp add: read_persistence_poll_def split: if_splits)
  have bo: "buffers_ok dev" and f: "first_buf dev < BUFFER_SIZE" using n by (simp_all add: ring_ok_def)
  from lookup_answer [OF assms(1) n pos assms(3-5)] obtain mem a v pad sz e1 w1 where
    r: "read_persistence_read ctu buffer dev = Inr (44, mem)" and h: "handle_message M True s (Live ()) (recv_block mem) e w =
        Inr ([(Live (reply_bytes (first_buf dev) a v @ pad), sz)], e1, w1)"
    and st: "storage_inv M s ok db view (e1, w1)" "db w1 = db w" and rok: "reply_ok a v"
    and W: "v \<noteq> [] \<longrightarrow> (strip a, v) \<in> W" and found: "\<forall>h w2 m. mdb_txn_begin M (st_env s) w = Inr (0, h, w2)
          \<and> contents (db w) (iid (accepted_of_image (hd (queued dev)))) = Some m \<longrightarrow> (strip a, v) = m" by blast
  have "read_turn M s ctu cfu buffer dev e w = Inr (answered (first_buf dev) a v dev, e1, w1)"
    using read_write_answers [OF bo f _ _ rok, of cfu pad "sint sz"] rpi
    by (simp add: read_turn_def r storage_round_def h user_block_def rp_inv_def)
  moreover have "rq_inv ctu cfu buffer W (answered (first_buf dev) a v dev)"
    using answered_rq_inv [OF assms(1) n pos rok] W by blast
  ultimately show ?thesis using st rok found by blast
qed

section \<open>Every step keeps the invariant\<close>

lemma msgs_ok_insert:
  assumes "msgs_ok W" and "length v \<le> 196"
  shows "msgs_ok (insert (strip (with_len a v), v) W)"
  using assms with_len_good(2) [OF assms(2), of a] by (simp add: msgs_ok_def)

lemma storage_inv_other:
  "storage_inv M sw ok db view (e, w) \<Longrightarrow> storage_inv M sr ok db view (e', w') \<Longrightarrow> storage_inv M sw ok db view (e', w')"
  by (simp add: storage_inv_def)

lemma read_test_write_dev:
  "read_test_write msg sz junk st dev e = Inr (r, t, p, e') \<Longrightarrow>
   p = dev \<or> (\<exists>x. read_persistence_add_message msg sz dev = Inr (x, p))"
  by (cases "createPersistenceWork Wait_response junk e")
     (auto simp: read_test_write_def bindR_eq_Inr split: if_splits option.splits)

lemma ask_keeps:
  assumes "rt_step ctu cfu buffer r (Query (query_msg q) 40) r'" and "rq_inv ctu cfu buffer W (rp r)"
  shows "rq_inv ctu cfu buffer W (rp r')"
  using assms(1)
proof cases
  case (Query junk x t p e)
  from read_test_write_dev [OF Query(3)] rq_inv_asked [OF assms(2)] assms(2) Query(1) show ?thesis by auto
qed

text \<open>All that a work does to the read-persistence device is to mark its slot done.\<close>

lemma work_slot:
  assumes "rt_step ctu cfu buffer r (Work i) r'" and "rt_inv ctu cfu buffer r"
  shows "\<exists>k < BUFFER_SIZE. rp r' = worked k (rp r)"
  using assms(1)
proof cases
  case (Work w q slept n w' t p)
  have pok: "pool_ok (pool (rt_dev (rt r)))" and ws: "\<forall>w \<in># works_of r. \<exists>i < BUFFER_SIZE. param w = Live i"
    and rpi: "rp_inv ctu cfu buffer (rp r)" using assms(2) by (simp_all add: rt_inv_def)
  from pool_queue.fetch_ok [OF pok Work(2)] ws obtain k where k: "k < BUFFER_SIZE" "param w = Live k" by auto
  from wait_response_result [OF rp_inv_worked(2) [OF rpi k(1)] k(2,1)] Work(3) have "p = worked k (rp r)" by simp
  with Work(1) k(1) show ?thesis by auto
qed

lemma work_keeps:
  assumes "rt_step ctu cfu buffer r (Work i) r'" and "rt_inv ctu cfu buffer r" and "rq_inv ctu cfu buffer W (rp r)"
  shows "rq_inv ctu cfu buffer W (rp r')"
  using work_slot [OF assms(1,2)] rq_inv_worked [OF assms(3)] by auto

text \<open>The part of the invariant that is about the devices and about what is stored.\<close>

definition dev_inv ::
  "('w \<Rightarrow> byte list \<rightharpoonup> byte list) \<Rightarrow> to_user \<Rightarrow> from_user \<Rightarrow> umem \<Rightarrow> message set \<Rightarrow> 'w system \<Rightarrow> bool" where
  "dev_inv db ctu cfu buffer W s \<longleftrightarrow>
     msgs_ok W \<and> working (sys_wt s) \<noteq> 0 \<and> wp_inv ctu buffer W (sys_wp s)
     \<and> rt_inv ctu cfu buffer (sys_rt s) \<and> rq_inv ctu cfu buffer W (rp (sys_rt s))
     \<and> (\<forall>i m. contents (db (sys_db s)) i = Some m \<longrightarrow> m \<in> W \<and> iid (fst m) = i)"

lemma sys_inv_dev:
  "sys_inv M sw sr ok db view ctu cfu buffer W s \<longleftrightarrow> dev_inv db ctu cfu buffer W s
     \<and> storage_inv M sw ok db view (sys_mem s, sys_db s) \<and> storage_inv M sr ok db view (sys_mem s, sys_db s)"
  unfolding sys_inv_def dev_inv_def by blast

text \<open>What everybody does outside the storage process.\<close>

lemma outer_step_keeps:
  assumes "sys_step M sw sr ctu cfu buffer s ev s'" and "dev_inv db ctu cfu buffer W s" and "ev \<noteq> Save" and "ev \<noteq> Reply"
  shows "dev_inv db ctu cfu buffer (W \<union> written [ev]) s' \<and> sys_mem s' = sys_mem s \<and> sys_db s' = sys_db s"
  using assms(1)
proof cases
  case (Write v a r wp)
  have W: "W \<union> written [ev] = insert (strip (with_len a v), v) W" using Write(1) by (auto simp: written_def)
  from wp_inv_write [OF _ _ Write(3), of ctu buffer W "sys_wp s" "sys_wt s" a] assms(2) Write(4)
  have "wp_inv ctu buffer (insert (strip (with_len a v), v) W) wp" by (auto simp: dev_inv_def)
  moreover have "rq_inv ctu cfu buffer (insert (strip (with_len a v), v) W) (rp (sys_rt s))"
    by (rule rq_inv_mono [of _ _ _ W]) (use assms(2) in \<open>auto simp: dev_inv_def\<close>)
  ultimately show ?thesis
    using assms(2) Write(2) msgs_ok_insert [OF _ Write(3), of W a] unfolding W by (auto simp: dev_inv_def)
next
  case (Ask q r)
  have W: "W \<union> written [ev] = W" using Ask(1) by (simp add: written_def)
  from assms(2) Ask(2,3) show ?thesis
    unfolding W by (auto simp: dev_inv_def dest: ask_keeps rt_step_inv)
next
  case (Run_work i r)
  have W: "W \<union> written [ev] = W" using Run_work(1) by (simp add: written_def)
  from assms(2) Run_work(2,3) show ?thesis
    unfolding W by (auto simp: dev_inv_def dest: work_keeps rt_step_inv)
qed (use assms(3,4) in simp_all)

text \<open>A stored message keeps what is stored well-formed.\<close>

lemma stored_keeps:
  assumes "\<forall>i m. c i = Some m \<longrightarrow> m \<in> W \<and> iid (fst m) = i" and "(strip a, v) \<in> W"
    and "c' = (if b then c(iid a \<mapsto> (strip a, v)) else c)"
  shows "\<forall>i m. c' i = Some m \<longrightarrow> m \<in> W \<and> iid (fst m) = i"
proof (intro allI impI)
  fix i m assume m: "c' i = Some m"
  have i: "iid (strip a) = iid a" by (simp add: strip_def)
  show "m \<in> W \<and> iid (fst m) = i"
  proof (cases "b \<and> i = iid a")
    case True
    then have "m = (strip a, v)" using m assms(3) by simp
    then show ?thesis using True assms(2) i by simp
  next
    case False
    then have "c i = Some m" using m assms(3) by (auto split: if_splits)
    then show ?thesis using assms(1) by blast
  qed
qed

lemma sys_step_keeps:
  assumes "sys_step M sw sr ctu cfu buffer s ev s'" and "sys_inv M sw sr ok db view ctu cfu buffer W s"
  shows "sys_inv M sw sr ok db view ctu cfu buffer (W \<union> written [ev]) s'"
proof (cases "ev = Save \<or> ev = Reply")
  case False
  with outer_step_keeps [OF assms(1)] assms(2) show ?thesis by (auto simp: sys_inv_dev)
next
  case True
  then have W: "W \<union> written [ev] = W" by (auto simp: written_def)
  from assms(1) show ?thesis
  proof cases
    case (Save wp e w)
    have inv: "wp_inv ctu buffer W (sys_wp s)" "storage_inv M sw ok db view (sys_mem s, sys_db s)"
      "storage_inv M sr ok db view (sys_mem s, sys_db s)" using assms(2) by (simp_all add: sys_inv_def)
    from write_turn_ends [OF inv(1) Save(3) inv(2)] Save(4) obtain a v b where
      av: "(strip a, v) \<in> W" and wp: "wp_inv ctu buffer W wp" and st: "storage_inv M sw ok db view (e, w)" and
      c: "contents (db w) = (if b then (contents (db (sys_db s)))(iid a \<mapsto> (strip a, v)) else contents (db (sys_db s)))"
      by auto
    have "\<forall>i m. contents (db (sys_db s)) i = Some m \<longrightarrow> m \<in> W \<and> iid (fst m) = i"
      using assms(2) unfolding sys_inv_def by blast
    from stored_keeps [OF this av c] assms(2) Save(2) wp st storage_inv_other [OF inv(3) st] show ?thesis
      unfolding W by (simp add: sys_inv_def)
  next
    case (Reply d e w)
    have inv: "rq_inv ctu cfu buffer W (rp (sys_rt s))" "storage_inv M sr ok db view (sys_mem s, sys_db s)"
      "storage_inv M sw ok db view (sys_mem s, sys_db s)" "msgs_ok W"
      "\<forall>i m. contents (db (sys_db s)) i = Some m \<longrightarrow> m \<in> W" using assms(2) by (auto simp: sys_inv_def)
    from read_turn_ends [OF inv(1) Reply(3) inv(2,4,5)] Reply(4)
    have d: "rq_inv ctu cfu buffer W d" and st: "storage_inv M sr ok db view (e, w)" and "db w = db (sys_db s)" by auto
    then have "sys_inv M sw sr ok db view ctu cfu buffer W
        (s\<lparr>sys_rt := (sys_rt s)\<lparr>rp := d\<rparr>, sys_mem := e, sys_db := w\<rparr>)"
      using assms(2) storage_inv_other [OF inv(3) st] by (simp add: sys_inv_def rt_inv_def rq_inv_def)
    with Reply(2) show ?thesis unfolding W by simp
  qed (use True in simp_all)
qed

lemma written_append: "written (tr @ [ev]) = written tr \<union> written [ev]"
  by (auto simp: written_def)

lemma sys_run_keeps:
  assumes "sys_run M sw sr ctu cfu buffer s0 tr s" and "sys_inv M sw sr ok db view ctu cfu buffer W s0"
  shows "sys_inv M sw sr ok db view ctu cfu buffer (W \<union> written tr) s"
  using assms
proof (induction rule: sys_run.induct)
  case idle
  then show ?case by (simp add: written_def)
next
  case (step tr s ev s')
  from sys_step_keeps [OF step.hyps(2) step.IH [OF step.prems]] show ?case
    by (simp add: written_append Un_assoc)
qed

section \<open>One message, from the writer to the worker\<close>

lemma step_write:
  assumes "sys_inv M sw sr ok db view ctu cfu buffer W s" and "frames (sys_wp s) = []" and "length v \<le> 196"
  shows "\<exists>s1. sys_step M sw sr ctu cfu buffer s (Write a v) s1 \<and> frames (sys_wp s1) = [accepted_image (with_len a v) @ v]
    \<and> sys_rt s1 = sys_rt s \<and> sys_mem s1 = sys_mem s \<and> sys_db s1 = sys_db s"
proof -
  let ?m = "(accepted_image a @ v, of_nat (40 + length v) :: u64)"
  have inv: "write_inv ctu buffer (sys_wp s)" and wk: "working (sys_wt s) \<noteq> 0"
    using assms(1) by (simp_all add: sys_inv_def wp_inv_def)
  have "length (frames (sys_wp s)) < BUFFER_SIZE" using assms(2) by (simp add: BUFFER_SIZE_def)
  from write_put_room [OF inv write_frame_carries(1) [OF assms(3), of a] this] obtain slot wp where
    "write_persistence_add_message (accepted_image a @ v) (of_nat (40 + length v)) (sys_wp s) = Inr (Some slot, wp)"
    "frames wp = frames (sys_wp s) @ [write_frame ?m]" unfolding write_put_def fst_conv snd_conv by blast
  then have "\<exists>r. write_test_write (accepted_image a @ v) (of_nat (40 + length v)) (sys_wt s) (sys_wp s) = Inr (r, wp)"
    and f: "frames wp = [accepted_image (with_len a v) @ v]"
    using wk assms(2) write_frame_carries(2) [OF assms(3), of a] by (simp_all add: write_test_write_def)
  then obtain r where "sys_step M sw sr ctu cfu buffer s (Write a v) (s\<lparr>sys_wp := wp\<rparr>)"
    using sys_step.Write [OF assms(3)] by blast
  with f show ?thesis by (intro exI [of _ "s\<lparr>sys_wp := wp\<rparr>"]) simp
qed

lemma step_save:
  assumes "sys_inv M sw sr ok db view ctu cfu buffer W s" and "frames (sys_wp s) = [accepted_image a @ v]"
    and "grants M sw ok view"
  shows "\<exists>s1. sys_step M sw sr ctu cfu buffer s Save s1 \<and> sys_rt s1 = sys_rt s
    \<and> contents (db (sys_db s1)) = (contents (db (sys_db s)))(iid a \<mapsto> (strip a, v))"
proof -
  have inv: "wp_inv ctu buffer W (sys_wp s)" "storage_inv M sw ok db view (sys_mem s, sys_db s)"
    using assms(1) by (simp_all add: sys_inv_def)
  note turn = write_turn_stores [OF inv(1) assms(2) inv(2) assms(3)]
  then obtain wp e w where
    t: "write_turn M sw ctu buffer (sys_wp s) (sys_mem s) (sys_db s) = Inr (wp, e, w)"
    and c: "contents (db w) = (contents (db (sys_db s)))(iid a \<mapsto> (strip a, v))" by blast
  show ?thesis
    using sys_step.Save [OF turn(1) t] c by (intro exI [of _ "s\<lparr>sys_wp := wp, sys_mem := e, sys_db := w\<rparr>"]) simp
qed

lemma step_ask:
  assumes "sys_inv M sw sr ok db view ctu cfu buffer W s" and "queued (rp (sys_rt s)) = []"
    and "working (rt_dev (rt (sys_rt s))) \<noteq> 0" and "alloc_all (env (sys_rt s))" and "works_of (sys_rt s) = {#}"
  shows "\<exists>k s1. sys_step M sw sr ctu cfu buffer s (Ask q) s1 \<and> sys_db s1 = sys_db s
    \<and> k < BUFFER_SIZE \<and> works_of (sys_rt s1) = {#work_on k (iid q)#}
    \<and> messagesFound (rt (sys_rt s1)) = messagesFound (rt (sys_rt s))
    \<and> ring_ok 1 (rp (sys_rt s1)) \<and> first_buf (rp (sys_rt s1)) = k
    \<and> iid (accepted_of_image (hd (queued (rp (sys_rt s1))))) = iid q
    \<and> is_done (callbacks_of (rp (sys_rt s1)) ! k) = 0"
proof -
  let ?r = "sys_rt s"
  let ?dev = "rp ?r" and ?k = "current_buf (rp ?r)"
  have inv: "rt_inv ctu cfu buffer ?r" using assms(1) by (simp add: sys_inv_def)
  obtain n where n: "ring_ok n ?dev" using inv by (auto simp: rt_inv_def rp_inv_def channel_ok_def)
  then have r0: "ring_ok 0 ?dev" using ring_ok_used(3) [OF n] assms(2) by simp
  have z: "(0 :: nat) < BUFFER_SIZE" by (simp add: BUFFER_SIZE_def)
  have k: "?k < BUFFER_SIZE" using ring_ok_bounds [OF r0] by simp
  have q: "iid (accepted_of_image (query_msg q)) = iid q" by (simp add: query_msg_def with_len_def)
  let ?d = "read_added (query_msg q) 40 ?dev"
  note add = read_added_ring [OF r0 z query_good [of q]]
  obtain t e where w: "read_test_write (query_msg q) 40 0 (rt ?r) ?dev (env ?r) = Inr (sint (40 :: u64), t, ?d, e)"
    and f: "messagesFound t = messagesFound (rt ?r)"
    and p: "pending_works (pool (rt_dev t)) = add_mset (work_on ?k (iid q)) (works_of ?r)"
    using query_queued [OF inv r0 z query_good [of q] assms(3,4), of 0] q by auto
  let ?r1 = "\<lparr>rt = t, rp = ?d, env = e\<rparr>"
  have st: "rt_step ctu cfu buffer ?r (Query (query_msg q) 40) ?r1" by (rule rt_step.Query [OF query_good w])
  have "length (callbacks_of ?dev) = BUFFER_SIZE" using r0 by (simp add: ring_ok_def buffers_ok_def)
  then have d: "is_done (callbacks_of ?d ! ?k) = 0" using k by (simp add: read_added_def Let_def)
  have i: "iid (accepted_of_image (hd (queued ?d))) = iid q"
    using add(2) assms(2) read_block_frame(3) [OF query_good] q by simp
  have b: "first_buf ?d = ?k" using r0 by (simp add: read_added_def Let_def ring_ok_def BUFFER_SIZE_def)
  show ?thesis
    using sys_step.Ask [where q = q and s = s, OF st] add(1) b d i f k p assms(5)
    by (intro exI [of _ ?k] exI [of _ "s\<lparr>sys_rt := ?r1\<rparr>"]) simp
qed

lemma step_reply:
  assumes "sys_inv M sw sr ok db view ctu cfu buffer W s" and "ring_ok 1 (rp (sys_rt s))" and "grants M sr ok view"
    and "contents (db (sys_db s)) (iid (accepted_of_image (hd (queued (rp (sys_rt s)))))) = Some m"
  shows "\<exists>a v s1. sys_step M sw sr ctu cfu buffer s Reply s1 \<and> rt (sys_rt s1) = rt (sys_rt s)
    \<and> rp (sys_rt s1) = answered (first_buf (rp (sys_rt s))) a v (rp (sys_rt s)) \<and> db (sys_db s1) = db (sys_db s)
    \<and> (strip a, v) = m \<and> reply_ok a v"
proof -
  let ?d = "rp (sys_rt s)"
  have inv: "rq_inv ctu cfu buffer W ?d" "storage_inv M sr ok db view (sys_mem s, sys_db s)" "msgs_ok W"
    "\<forall>i m. contents (db (sys_db s)) i = Some m \<longrightarrow> m \<in> W" using assms(1) by (auto simp: sys_inv_def)
  have poll: "read_persistence_poll ?d = 1"
    using ring_ok_used(5) [OF assms(2)] inv(1) by (simp add: read_persistence_poll_def rq_inv_def rp_inv_def)
  obtain t w' where b: "mdb_txn_begin M (st_env sr) (sys_db s) = Inr (0, Some t, w')"
    using assms(3) inv(2) unfolding grants_def storage_inv_def by auto
  from read_turn_ends [OF inv(1) poll inv(2-4)] obtain a v e1 w1 where
    t: "read_turn M sr ctu cfu buffer ?d (sys_mem s) (sys_db s) = Inr (answered (first_buf ?d) a v ?d, e1, w1)"
    and w1: "db w1 = db (sys_db s)" and rok: "reply_ok a v"
    and found: "\<forall>h w2 m. mdb_txn_begin M (st_env sr) (sys_db s) = Inr (0, h, w2)
          \<and> contents (db (sys_db s)) (iid (accepted_of_image (hd (queued ?d)))) = Some m \<longrightarrow> (strip a, v) = m" by blast
  have "(strip a, v) = m" using found b assms(4) by blast
  with sys_step.Reply [OF poll t] w1 rok show ?thesis
    by (intro exI [of _ a] exI [of _ v]
        exI [of _ "s\<lparr>sys_rt := (sys_rt s)\<lparr>rp := answered (first_buf ?d) a v ?d\<rparr>, sys_mem := e1, sys_db := w1\<rparr>"]) simp
qed

text \<open>The only work that is queued finds what its slot holds.\<close>

lemma step_work:
  assumes "sys_inv M sw sr ok db view ctu cfu buffer W s" and "works_of (sys_rt s) = {#w#}"
    and "param w = Live k" and "k < BUFFER_SIZE" and "finds w (callbacks_of (rp (sys_rt s)) ! k)"
  shows "\<exists>i s1. sys_step M sw sr ctu cfu buffer s (Run_work i) s1 \<and> sys_db s1 = sys_db s
    \<and> messagesFound (rt (sys_rt s1)) = messagesFound (rt (sys_rt s)) + 1
    \<and> rp (sys_rt s1) = worked k (rp (sys_rt s)) \<and> works_of (sys_rt s1) = {#}"
proof -
  let ?r = "sys_rt s"
  have inv: "rt_inv ctu cfu buffer ?r" using assms(1) by (simp add: sys_inv_def)
  then have pok: "pool_ok (pool (rt_dev (rt ?r)))" and rpi: "rp_inv ctu cfu buffer (rp ?r)"
    by (simp_all add: rt_inv_def)
  obtain i w' q where q: "take_from i (pool (rt_dev (rt ?r))) = Some (w', q)"
    using work_available [OF pok] assms(2) by auto
  from pool_queue.fetch_ok [OF pok q] assms(2) have w': "w' = w" "pending_works q = {#}" by auto
  let ?t = "(rt ?r)\<lparr>rt_dev := (rt_dev (rt ?r))\<lparr>pool := q\<rparr>\<rparr>"
  have run: "wait_response 0 (Live w') ?t (rp ?r) =
      Inr (100, Dangling, ?t\<lparr>messagesFound := messagesFound ?t + 1\<rparr>, worked k (rp ?r))"
    using wait_response_result [OF rp_inv_worked(2) [OF rpi assms(4)] assms(3,4), of 0 ?t] assms(5) w'(1) by simp
  let ?r1 = "\<lparr>rt = ?t\<lparr>messagesFound := messagesFound ?t + 1\<rparr>, rp = worked k (rp ?r), env = env ?r\<rparr>"
  show ?thesis
    using sys_step.Run_work [where s = s, OF rt_step.Work [OF q run]] w'(2)
    by (intro exI [of _ i] exI [of _ "s\<lparr>sys_rt := ?r1\<rparr>"]) simp
qed

text \<open>What an answer leaves in a slot is what a worker looks for.\<close>

lemma answered_found:
  assumes "ring_ok n dev" and "k < BUFFER_SIZE" and "reply_ok a v" and "v \<noteq> []" and "iid a = i"
    and "is_done (callbacks_of dev ! k) = 0"
  shows "finds (work_on k i) (callbacks_of (answered k a v dev) ! k)"
    and "response_message (response_of (callbacks_of (answered k a v dev) ! k)) = (strip a, v)"
    and "response_message (response_of (callbacks_of (worked k (answered k a v dev)) ! k)) = (strip a, v)"
proof -
  have l: "length (callbacks_of dev) = BUFFER_SIZE" using assms(1) by (simp add: ring_ok_def buffers_ok_def)
  have cb: "callbacks_of (answered k a v dev) ! k = answered_callback a v (callbacks_of dev ! k)"
    using l assms(2) by (simp add: answered_def)
  have len: "sint (paxos_value_len (acc_value a)) = int (length v)" by (rule reply_len [OF assms(3)])
  show "finds (work_on k i) (callbacks_of (answered k a v dev) ! k)"
    unfolding cb using len assms(4-6) by (simp add: finds_def answered_callback_def response_of_def work_on_def)
  show r: "response_message (response_of (callbacks_of (answered k a v dev) ! k)) = (strip a, v)"
    unfolding cb using len
    by (simp add: response_message_def answered_callback_def response_of_def value_of_def strip_def)
  have "callbacks_of (worked k (answered k a v dev)) ! k = (callbacks_of (answered k a v dev) ! k)\<lparr>is_done := 1\<rparr>"
    using l assms(2) by (simp add: worked_def answered_def)
  with r show "response_message (response_of (callbacks_of (worked k (answered k a v dev)) ! k)) = (strip a, v)"
    by (simp add: response_of_def)
qed

lemma sys_run_steps:
  "sys_step M sw sr ctu cfu buffer s0 e1 s1 \<Longrightarrow> sys_step M sw sr ctu cfu buffer s1 e2 s2 \<Longrightarrow>
   sys_step M sw sr ctu cfu buffer s2 e3 s3 \<Longrightarrow> sys_step M sw sr ctu cfu buffer s3 e4 s4 \<Longrightarrow>
   sys_step M sw sr ctu cfu buffer s4 e5 s5 \<Longrightarrow> sys_run M sw sr ctu cfu buffer s0 [e1, e2, e3, e4, e5] s5"
  using sys_run.step [OF sys_run.step [OF sys_run.step [OF sys_run.step [OF sys_run.step [OF sys_run.idle]]]]]
  by simp

section \<open>Properties\<close>

text \<open>An idle system with a store that refuses nothing, for the witnesses.\<close>

definition demo_system :: "demo_world system" where
  "demo_system = \<lparr>sys_wt = demo_device, sys_wp = demo_device, sys_rt = demo_rt, sys_mem = demo_uenv,
     sys_db = (Map.empty, None)\<rparr>"

abbreviation demo_step :: "demo_world system \<Rightarrow> sys_event \<Rightarrow> demo_world system \<Rightarrow> bool" where
  "demo_step \<equiv> sys_step (demo_lmdb False) demo_handle demo_handle plain_to_user plain_from_user (replicate 244 0)"

abbreviation demo_run :: "demo_world system \<Rightarrow> sys_event list \<Rightarrow> demo_world system \<Rightarrow> bool" where
  "demo_run \<equiv> sys_run (demo_lmdb False) demo_handle demo_handle plain_to_user plain_from_user (replicate 244 0)"

abbreviation demo_sys_inv :: "message set \<Rightarrow> demo_world system \<Rightarrow> bool" where
  "demo_sys_inv \<equiv> sys_inv (demo_lmdb False) demo_handle demo_handle demo_idle fst demo_view
     plain_to_user plain_from_user (replicate 244 0)"

lemma sys_run_one: "sys_step M sw sr ctu cfu buffer s ev s' \<Longrightarrow> sys_run M sw sr ctu cfu buffer s [ev] s'"
  using sys_run.step [OF sys_run.idle] by simp

lemma ready_queued [simp]: "queued (ready_device api j devid name dev) = []"
  using ring_ok_used(3) [OF ready_ring_ok, of api j devid name dev] by simp

lemma demo_system_idle:
  "frames (sys_wp demo_system) = []" "queued (rp (sys_rt demo_system)) = []" "works_of (sys_rt demo_system) = {#}"
  "working (rt_dev (rt (sys_rt demo_system))) \<noteq> 0" "alloc_all (env (sys_rt demo_system))"
  using demo_rt_idle(1)
  by (simp_all add: demo_system_def demo_device_def demo_rt_def demo_read_device_def good_env_def alloc_all_def)

lemma demo_system_inv: "demo_sys_inv {} demo_system"
proof -
  have "wp_inv plain_to_user (replicate 244 0) {} demo_device"
    using demo_write_inv demo_system_idle(1) by (simp add: wp_inv_def demo_system_def)
  moreover have "responses_in {} demo_read_device"
    by (simp add: responses_in_def demo_read_device_def fresh_callback_def response_of_def has_value_def)
  then have "rq_inv plain_to_user plain_from_user (replicate 244 0) {} (rp demo_rt)"
    using demo_rt_inv demo_system_idle(2) by (simp add: rq_inv_def rt_inv_def demo_system_def demo_rt_def)
  ultimately show ?thesis
    using demo_rt_inv demo_storage_inv [of False]
    by (simp add: sys_inv_def demo_system_def msgs_ok_def contents_def) (simp add: demo_device_def)
qed

text \<open>Nothing is invented: in every reachable state of the whole system, whatever the
  interleaving of writers, storage threads, queries and workers and whatever fails, every
  message in the database stands under its own instance number and was written by the test
  program, and so was every response that holds a value, header and value alike.\<close>

lemma found_was_written:
  assumes "sys_run M sw sr ctu cfu buffer s0 tr s" and "sys_inv M sw sr ok db view ctu cfu buffer {} s0"
  shows "(\<forall>i m. contents (db (sys_db s)) i = Some m \<longrightarrow> iid (fst m) = i \<and> m \<in> written tr)
    \<and> (\<forall>cb \<in> set (callbacks_of (rp (sys_rt s))). has_value (response_of cb) \<longrightarrow>
         response_message (response_of cb) \<in> written tr)"
  using sys_run_keeps [OF assms] by (auto simp: sys_inv_def rq_inv_def responses_in_def)

text \<open>No reachable state of the system breaks: messages of up to 196 bytes and queries can
  always be written, a worker can always run a queued work, and when a persistence device
  polls as readable, the turn of its thread ends and leaves the system well-formed; the one
  exception is a put the library refuses, which ends the write thread with its assertion.\<close>

lemma system_never_breaks:
  assumes "sys_run M sw sr ctu cfu buffer s0 tr s" and "sys_inv M sw sr ok db view ctu cfu buffer W s0"
  shows "(\<forall>a v. length v \<le> 196 \<longrightarrow> (\<exists>s'. sys_step M sw sr ctu cfu buffer s (Write a v) s'))
    \<and> (\<forall>q. \<exists>s'. sys_step M sw sr ctu cfu buffer s (Ask q) s')
    \<and> (\<forall>i. take_from i (pool (rt_dev (rt (sys_rt s)))) \<noteq> None \<longrightarrow>
         (\<exists>s'. sys_step M sw sr ctu cfu buffer s (Run_work i) s'))
    \<and> (write_persistence_poll (sys_wp s) = 1 \<longrightarrow>
         write_turn M sw ctu buffer (sys_wp s) (sys_mem s) (sys_db s) = Inl AssertFailed
         \<or> (\<exists>s'. sys_step M sw sr ctu cfu buffer s Save s'))
    \<and> (read_persistence_poll (rp (sys_rt s)) = 1 \<longrightarrow> (\<exists>s'. sys_step M sw sr ctu cfu buffer s Reply s'))"
proof -
  let ?W = "W \<union> written tr"
  have inv: "sys_inv M sw sr ok db view ctu cfu buffer ?W s" by (rule sys_run_keeps [OF assms])
  then have rti: "rt_inv ctu cfu buffer (sys_rt s)" and wpi: "wp_inv ctu buffer ?W (sys_wp s)"
    and wk: "working (sys_wt s) \<noteq> 0" and rq: "rq_inv ctu cfu buffer ?W (rp (sys_rt s))" and ms: "msgs_ok ?W"
    and sw: "storage_inv M sw ok db view (sys_mem s, sys_db s)" and sr: "storage_inv M sr ok db view (sys_mem s, sys_db s)"
    and c: "\<forall>i m. contents (db (sys_db s)) i = Some m \<longrightarrow> m \<in> ?W" by (auto simp: sys_inv_def)
  have wr: "\<exists>s'. sys_step M sw sr ctu cfu buffer s (Write a v) s'" if "length v \<le> 196" for a v
    using wp_inv_write [OF wpi wk that, of a] that by (blast intro: sys_step.Write)
  have ask: "\<exists>s'. sys_step M sw sr ctu cfu buffer s (Ask q) s'" for q
    using query_step [OF rti query_good [of q], of 0] query_good [of q]
    by (blast intro: sys_step.Ask rt_step.Query)
  have work: "\<exists>s'. sys_step M sw sr ctu cfu buffer s (Run_work i) s'"
    if "take_from i (pool (rt_dev (rt (sys_rt s)))) \<noteq> None" for i
  proof -
    from that obtain w q where w: "take_from i (pool (rt_dev (rt (sys_rt s)))) = Some (w, q)" by auto
    with work_step [OF rti w, of 0] show ?thesis by (blast intro: sys_step.Run_work rt_step.Work)
  qed
  have save: "write_turn M sw ctu buffer (sys_wp s) (sys_mem s) (sys_db s) = Inl AssertFailed
      \<or> (\<exists>s'. sys_step M sw sr ctu cfu buffer s Save s')" if "write_persistence_poll (sys_wp s) = 1"
    using write_turn_ends [OF wpi that sw] that by (blast intro: sys_step.Save)
  have reply: "\<exists>s'. sys_step M sw sr ctu cfu buffer s Reply s'" if "read_persistence_poll (rp (sys_rt s)) = 1"
    using read_turn_ends [OF rq that sr ms c] that by (blast intro: sys_step.Reply)
  show ?thesis using wr ask work save reply by blast
qed

text \<open>What is written is found: from a state in which nothing is in transit, and with a
  library and an allocator that refuse nothing, a message with a value of 1 to 196 bytes goes
  all the way. The system can write it, store it, ask for its instance number, answer and run
  the work of the query; then the database holds the message under that number, the worker
  has counted it, and a response holds its header and its value.\<close>

lemma written_is_found:
  assumes "sys_inv M sw sr ok db view ctu cfu buffer W s" and "frames (sys_wp s) = []"
    and "queued (rp (sys_rt s)) = []" and "works_of (sys_rt s) = {#}" and "working (rt_dev (rt (sys_rt s))) \<noteq> 0"
    and "alloc_all (env (sys_rt s))" and "grants M sw ok view" and "grants M sr ok view"
    and "v \<noteq> []" and "length v \<le> 196" and "iid q = iid a"
  shows "\<exists>i s'. sys_run M sw sr ctu cfu buffer s [Write a v, Save, Ask q, Reply, Run_work i] s'
    \<and> contents (db (sys_db s')) (iid a) = Some (strip (with_len a v), v)
    \<and> messagesFound (rt (sys_rt s')) = messagesFound (rt (sys_rt s)) + 1
    \<and> (\<exists>k < BUFFER_SIZE. response_message (response_of (callbacks_of (rp (sys_rt s')) ! k)) =
         (strip (with_len a v), v))"
proof -
  let ?m = "(strip (with_len a v), v)"
  note keep = sys_step_keeps [where ok = ok and db = db and view = view]
  obtain s1 where s1: "sys_step M sw sr ctu cfu buffer s (Write a v) s1"
    "frames (sys_wp s1) = [accepted_image (with_len a v) @ v]" "sys_rt s1 = sys_rt s" "sys_db s1 = sys_db s"
    using step_write [OF assms(1,2,10), of a] by blast
  note i1 = keep [OF s1(1) assms(1)]
  obtain s2 where s2: "sys_step M sw sr ctu cfu buffer s1 Save s2" "sys_rt s2 = sys_rt s1"
    "contents (db (sys_db s2)) = (contents (db (sys_db s1)))(iid a \<mapsto> ?m)"
    using step_save [OF i1 s1(2) assms(7)] by (auto simp: with_len_def)
  note i2 = keep [OF s2(1) i1]
  have idle: "queued (rp (sys_rt s2)) = []" "working (rt_dev (rt (sys_rt s2))) \<noteq> 0" "alloc_all (env (sys_rt s2))"
    "works_of (sys_rt s2) = {#}" using assms(3-6) s1(3) s2(2) by simp_all
  obtain k s3 where s3: "sys_step M sw sr ctu cfu buffer s2 (Ask q) s3" "sys_db s3 = sys_db s2"
    "k < BUFFER_SIZE" "works_of (sys_rt s3) = {#work_on k (iid q)#}"
    "messagesFound (rt (sys_rt s3)) = messagesFound (rt (sys_rt s2))"
    "ring_ok 1 (rp (sys_rt s3))" "first_buf (rp (sys_rt s3)) = k"
    "iid (accepted_of_image (hd (queued (rp (sys_rt s3))))) = iid q"
    "is_done (callbacks_of (rp (sys_rt s3)) ! k) = 0" using step_ask [OF i2 idle, of q] by blast
  note i3 = keep [OF s3(1) i2]
  have m: "contents (db (sys_db s3)) (iid (accepted_of_image (hd (queued (rp (sys_rt s3)))))) = Some ?m"
    using s2(3) s3(2,8) assms(11) by simp
  obtain b u s4 where s4: "sys_step M sw sr ctu cfu buffer s3 Reply s4" "rt (sys_rt s4) = rt (sys_rt s3)"
    "rp (sys_rt s4) = answered k b u (rp (sys_rt s3))" "db (sys_db s4) = db (sys_db s3)"
    "(strip b, u) = ?m" "reply_ok b u" using step_reply [OF i3 s3(6) assms(8) m] s3(7) by blast
  note i4 = keep [OF s4(1) i3]
  have u: "u \<noteq> []" "iid b = iid q" using s4(5) assms(9,11) by (auto simp: strip_def with_len_def)
      (metis paxos_accepted.select_convs(2) paxos_accepted.surjective paxos_accepted.update_convs(7))
  note found = answered_found [OF s3(6,3) s4(6) u s3(9)]
  have w: "works_of (sys_rt s4) = {#work_on k (iid q)#}" "param (work_on k (iid q)) = Live k"
    using s3(4) s4(2) by (simp_all add: work_on_def)
  obtain i s5 where s5: "sys_step M sw sr ctu cfu buffer s4 (Run_work i) s5" "sys_db s5 = sys_db s4"
    "messagesFound (rt (sys_rt s5)) = messagesFound (rt (sys_rt s4)) + 1"
    "rp (sys_rt s5) = worked k (rp (sys_rt s4))"
    using step_work [OF i4 w s3(3)] found(1) s4(3) by auto
  have "contents (db (sys_db s5)) (iid a) = Some ?m" using s2(3) s3(2) s4(4) s5(2) by simp
  moreover have "messagesFound (rt (sys_rt s5)) = messagesFound (rt (sys_rt s)) + 1"
    using s1(3) s2(2) s3(5) s4(2) s5(3) by simp
  moreover have "response_message (response_of (callbacks_of (rp (sys_rt s5)) ! k)) = ?m"
    using found(3) s4(3,5) s5(4) by simp
  ultimately show ?thesis using sys_run_steps [OF s1(1) s2(1) s3(1) s4(1) s5(1)] s3(3) by blast
qed

end
