(* ===== verification/Thread_Steps.thy ===== *)
theory Thread_Steps
  imports System
begin

text \<open>
  \<open>System\<close> lets a storage thread take its turn in one step, from \<open>poll\<close> to the end of the
  round. Here the turns are cut where \<open>kpaxos/user_storage.c\<close> leaves the process: a thread
  receives from its device, works on the database, and the read thread writes its answer to the
  device; anything may run in between. The steps on the database stay whole, because each is one
  write transaction, and LMDB lets one such transaction run at a time. The result is that
  nothing is lost by looking at whole turns: whatever the steps lead to when both threads are
  between two rounds, whole turns lead to as well, with the events of each device in the
  same order.
\<close>

section \<open>The parts of a turn\<close>

text \<open>The write thread has received \<open>len\<close> bytes into the block \<open>m\<close>: it stores the message.\<close>

definition store_message ::
  "'w lmdb_api \<Rightarrow> lmdb_storage \<Rightarrow> int \<Rightarrow> umem \<Rightarrow> uenv \<Rightarrow> 'w \<Rightarrow> cerror + uenv \<times> 'w" where
  "store_message M s len m e w =
     bindR (storage_round M False s (Live []) (Live ()) (Event len (recv_block m)) e w) (\<lambda>(n, out, e1, w1).
     Inr (e1, w1))"

text \<open>The read thread looks the query up and builds its answer.\<close>

definition look_up ::
  "'w lmdb_api \<Rightarrow> lmdb_storage \<Rightarrow> int \<Rightarrow> umem \<Rightarrow> uenv \<Rightarrow> 'w
   \<Rightarrow> cerror + (byte list cptr \<times> u64) list \<times> uenv \<times> 'w" where
  "look_up M s len m e w =
     bindR (storage_round M True s (Live []) (Live ()) (Event len (recv_block m)) e w) (\<lambda>(n, out, e1, w1).
     Inr (out, e1, w1))"

text \<open>It writes the answer to its device.\<close>

definition send_out ::
  "from_user \<Rightarrow> (byte list cptr \<times> u64) list \<Rightarrow> paxos_kernel_device \<Rightarrow> cerror + paxos_kernel_device" where
  "send_out cfu out dev =
     (case out of
        [] \<Rightarrow> Inr dev
      | (msg, sz) # _ \<Rightarrow>
          bindR (read_persistence_write cfu (user_block msg) (sint sz) dev) (\<lambda>(r, dev1). Inr dev1))"

lemma write_turn_parts:
  "write_turn M s ctu buffer wp e w =
     bindR (write_persistence_read ctu buffer wp) (\<lambda>(len, m, wp1).
     bindR (store_message M s len m e w) (\<lambda>(e1, w1). Inr (wp1, e1, w1)))"
  by (auto simp: write_turn_def store_message_def bindR_def split: sum.splits)

lemma read_turn_parts:
  "read_turn M s ctu cfu buffer dev e w =
     bindR (read_persistence_read ctu buffer dev) (\<lambda>(len, m).
     bindR (look_up M s len m e w) (\<lambda>(out, e1, w1).
     bindR (send_out cfu out dev) (\<lambda>dev1. Inr (dev1, e1, w1))))"
  by (auto simp: read_turn_def look_up_def send_out_def bindR_def split: sum.splits list.splits)

section \<open>The threads side by side\<close>

text \<open>Where the threads are in their rounds: before the receive, behind it, and, for the
  reader, behind the lookup.\<close>

datatype writer_stage = Writer_idle | Got int umem

datatype reader_stage = Reader_idle | Asked int umem | Found "(byte list cptr \<times> u64) list"

record 'w threads =
  th_sys :: "'w system"
  th_writer :: writer_stage
  th_reader :: reader_stage

definition at_rest :: "'w system \<Rightarrow> 'w threads" where
  "at_rest s = \<lparr>th_sys = s, th_writer = Writer_idle, th_reader = Reader_idle\<rparr>"

text \<open>The steps of the write thread, of the read thread, and those of everybody else.\<close>

datatype thread_event = Receive | Store | Receive_query | Look_up | Send_out | Other sys_event

fun write_event :: "sys_event \<Rightarrow> bool" where
  "write_event (Write a v) = True"
| "write_event ev = False"

fun write_side :: "sys_event \<Rightarrow> bool" where
  "write_side (Write a v) = True"
| "write_side Save = True"
| "write_side ev = False"

fun query_event :: "sys_event \<Rightarrow> bool" where
  "query_event (Ask q) = True"
| "query_event (Run_work i) = True"
| "query_event ev = False"

inductive thread_step ::
  "'w lmdb_api \<Rightarrow> lmdb_storage \<Rightarrow> lmdb_storage \<Rightarrow> to_user \<Rightarrow> from_user \<Rightarrow> umem
   \<Rightarrow> 'w threads \<Rightarrow> thread_event \<Rightarrow> 'w threads \<Rightarrow> bool"
  for M sw sr ctu cfu buffer where
  Receive: "write_persistence_poll (sys_wp s) = 1 \<Longrightarrow>
    write_persistence_read ctu buffer (sys_wp s) = Inr (len, m, wp) \<Longrightarrow>
    thread_step M sw sr ctu cfu buffer \<lparr>th_sys = s, th_writer = Writer_idle, th_reader = rs\<rparr> Receive
      \<lparr>th_sys = s\<lparr>sys_wp := wp\<rparr>, th_writer = Got len m, th_reader = rs\<rparr>"
| Store: "store_message M sw len m (sys_mem s) (sys_db s) = Inr (e, w) \<Longrightarrow>
    thread_step M sw sr ctu cfu buffer \<lparr>th_sys = s, th_writer = Got len m, th_reader = rs\<rparr> Store
      \<lparr>th_sys = s\<lparr>sys_mem := e, sys_db := w\<rparr>, th_writer = Writer_idle, th_reader = rs\<rparr>"
| Receive_query: "read_persistence_poll (rp (sys_rt s)) = 1 \<Longrightarrow>
    read_persistence_read ctu buffer (rp (sys_rt s)) = Inr (len, m) \<Longrightarrow>
    thread_step M sw sr ctu cfu buffer \<lparr>th_sys = s, th_writer = ws, th_reader = Reader_idle\<rparr> Receive_query
      \<lparr>th_sys = s, th_writer = ws, th_reader = Asked len m\<rparr>"
| Look_up: "look_up M sr len m (sys_mem s) (sys_db s) = Inr (out, e, w) \<Longrightarrow>
    thread_step M sw sr ctu cfu buffer \<lparr>th_sys = s, th_writer = ws, th_reader = Asked len m\<rparr> Look_up
      \<lparr>th_sys = s\<lparr>sys_mem := e, sys_db := w\<rparr>, th_writer = ws, th_reader = Found out\<rparr>"
| Send_out: "send_out cfu out (rp (sys_rt s)) = Inr d \<Longrightarrow>
    thread_step M sw sr ctu cfu buffer \<lparr>th_sys = s, th_writer = ws, th_reader = Found out\<rparr> Send_out
      \<lparr>th_sys = s\<lparr>sys_rt := (sys_rt s)\<lparr>rp := d\<rparr>\<rparr>, th_writer = ws, th_reader = Reader_idle\<rparr>"
| Other: "write_event ev \<or> query_event ev \<Longrightarrow> sys_step M sw sr ctu cfu buffer s ev s' \<Longrightarrow>
    thread_step M sw sr ctu cfu buffer \<lparr>th_sys = s, th_writer = ws, th_reader = rs\<rparr> (Other ev)
      \<lparr>th_sys = s', th_writer = ws, th_reader = rs\<rparr>"

inductive thread_run ::
  "'w lmdb_api \<Rightarrow> lmdb_storage \<Rightarrow> lmdb_storage \<Rightarrow> to_user \<Rightarrow> from_user \<Rightarrow> umem
   \<Rightarrow> 'w threads \<Rightarrow> thread_event list \<Rightarrow> 'w threads \<Rightarrow> bool"
  for M sw sr ctu cfu buffer f0 where
  rest: "thread_run M sw sr ctu cfu buffer f0 [] f0"
| move: "thread_run M sw sr ctu cfu buffer f0 tr f \<Longrightarrow> thread_step M sw sr ctu cfu buffer f ev f' \<Longrightarrow>
    thread_run M sw sr ctu cfu buffer f0 (tr @ [ev]) f'"

text \<open>What the devices see of a trace, in terms of whole turns: a turn of the write thread takes
  place when it receives, a turn of the read thread when it sends its answer.\<close>

fun turns :: "thread_event list \<Rightarrow> sys_event list" where
  "turns [] = []"
| "turns (Receive # tr) = Save # turns tr"
| "turns (Send_out # tr) = Reply # turns tr"
| "turns (Other ev # tr) = ev # turns tr"
| "turns (_ # tr) = turns tr"

lemma turns_append [simp]: "turns (tr @ tr') = turns tr @ turns tr'"
  by (induction tr rule: turns.induct) simp_all

section \<open>Steps that do not touch each other\<close>

lemma sys_run_append:
  assumes "sys_run M sw sr ctu cfu buffer s1 tr' s2" and "sys_run M sw sr ctu cfu buffer s0 tr s1"
  shows "sys_run M sw sr ctu cfu buffer s0 (tr @ tr') s2"
  using assms
proof (induction rule: sys_run.induct)
  case idle
  then show ?case by simp
next
  case (step tr' s ev s')
  from sys_run.step [OF step.IH [OF step.prems] step.hyps(2)] show ?case by simp
qed

text \<open>A step of the write side neither reads nor changes the query side.\<close>

lemma write_side_step:
  assumes "sys_step M sw sr ctu cfu buffer s ev s'" and "write_side ev"
  shows "sys_rt s' = sys_rt s \<and> sys_step M sw sr ctu cfu buffer (s\<lparr>sys_rt := r\<rparr>) ev (s'\<lparr>sys_rt := r\<rparr>)"
  using assms(1)
proof cases
  case (Write v a r1 wp)
  from sys_step.Write [where s = "s\<lparr>sys_rt := r\<rparr>", OF Write(3)] Write(4)
  have "sys_step M sw sr ctu cfu buffer (s\<lparr>sys_rt := r\<rparr>) ev (s\<lparr>sys_rt := r, sys_wp := wp\<rparr>)"
    unfolding Write(1) by simp
  with Write(2) show ?thesis by (cases s) simp
next
  case (Save wp e w)
  from sys_step.Save [where s = "s\<lparr>sys_rt := r\<rparr>"] Save(3,4)
  have "sys_step M sw sr ctu cfu buffer (s\<lparr>sys_rt := r\<rparr>) ev (s\<lparr>sys_rt := r, sys_wp := wp, sys_mem := e, sys_db := w\<rparr>)"
    unfolding Save(1) by simp
  with Save(2) show ?thesis by (cases s) simp
qed (use assms(2) in simp_all)

lemma write_side_run:
  assumes "sys_run M sw sr ctu cfu buffer s L s'" and "list_all write_side L"
  shows "sys_rt s' = sys_rt s \<and> sys_run M sw sr ctu cfu buffer (s\<lparr>sys_rt := r\<rparr>) L (s'\<lparr>sys_rt := r\<rparr>)"
  using assms
proof (induction rule: sys_run.induct)
  case idle
  then show ?case by (simp add: sys_run.idle)
next
  case (step L s1 ev s2)
  with write_side_step [OF step.hyps(2), of r] show ?case by (auto intro: sys_run.step)
qed

text \<open>A written message neither reads nor changes memory and database of the storage process.\<close>

lemma written_step:
  assumes "sys_step M sw sr ctu cfu buffer s ev s'" and "write_event ev"
  shows "sys_mem s' = sys_mem s \<and> sys_db s' = sys_db s
    \<and> sys_step M sw sr ctu cfu buffer (s\<lparr>sys_mem := e, sys_db := w\<rparr>) ev (s'\<lparr>sys_mem := e, sys_db := w\<rparr>)"
  using assms(1)
proof cases
  case (Write v a r1 wp)
  from sys_step.Write [where s = "s\<lparr>sys_mem := e, sys_db := w\<rparr>", OF Write(3)] Write(4)
  have "sys_step M sw sr ctu cfu buffer (s\<lparr>sys_mem := e, sys_db := w\<rparr>) ev (s\<lparr>sys_mem := e, sys_db := w, sys_wp := wp\<rparr>)"
    unfolding Write(1) by simp
  with Write(2) show ?thesis by (cases s) simp
qed (use assms(2) in simp_all)

lemma written_run:
  assumes "sys_run M sw sr ctu cfu buffer s L s'" and "list_all write_event L"
  shows "sys_mem s' = sys_mem s \<and> sys_db s' = sys_db s
    \<and> sys_run M sw sr ctu cfu buffer (s\<lparr>sys_mem := e, sys_db := w\<rparr>) L (s'\<lparr>sys_mem := e, sys_db := w\<rparr>)"
  using assms
proof (induction rule: sys_run.induct)
  case idle
  then show ?case by (simp add: sys_run.idle)
next
  case (step L s1 ev s2)
  with written_step [OF step.hyps(2), where e = e and w = w] show ?case by (auto intro: sys_run.step)
qed

lemma query_side_step:
  assumes "sys_step M sw sr ctu cfu buffer s ev s'" and "query_event ev" and "sys_rt c = sys_rt s"
  shows "s' = s\<lparr>sys_rt := sys_rt s'\<rparr> \<and> sys_step M sw sr ctu cfu buffer c ev (c\<lparr>sys_rt := sys_rt s'\<rparr>)"
  using assms(1)
proof cases
  case (Ask q r)
  then show ?thesis using sys_step.Ask [where s = c] assms(3) by (cases s) simp
next
  case (Run_work i r)
  then show ?thesis using sys_step.Run_work [where s = c] assms(3) by (cases s) simp
qed (use assms(2) in simp_all)

section \<open>A query that was received stays the oldest\<close>

lemma oldest_polls:
  assumes "rp_inv ctu cfu buffer dev"
  shows "read_persistence_poll dev = 1 \<longleftrightarrow> queued dev \<noteq> []"
proof -
  obtain n where "ring_ok n dev" using assms by (auto simp: rp_inv_def elim: channel_okE)
  from ring_ok_used(3,5) [OF this] show ?thesis by (auto simp: read_persistence_poll_def)
qed

lemma oldest_read:
  assumes "rp_inv ctu cfu buffer dev" and "queued dev \<noteq> []"
  shows "read_persistence_read ctu buffer dev = Inr (int (frame_len (hd (queued dev))) + 4,
    le32 (of_nat (first_buf dev)) @ payload (hd (queued dev)) @ drop (4 + frame_len (hd (queued dev))) buffer)"
proof -
  obtain n where n: "ring_ok n dev" "length (queued dev) = n" "\<And>b. b \<in> set (queued dev) \<Longrightarrow> frame_len b \<le> 240"
    using assms(1) by (auto simp: rp_inv_def elim: channel_okE)
  then have "0 < n" "frame_len (hd (queued dev)) \<le> 240" using assms(2) by auto
  with read_persistence_read_ready [OF n(1)] assms(1) show ?thesis by (simp add: rp_inv_def)
qed

lemma oldest_kept:
  assumes "rp_inv ctu cfu buffer dev" and "rp_inv ctu cfu buffer dev'" and "read_persistence_poll dev = 1"
    and "queued dev' = queued dev @ qs" and "first_buf dev' = first_buf dev"
  shows "read_persistence_poll dev' = 1 \<and> read_persistence_read ctu buffer dev' = read_persistence_read ctu buffer dev"
  using assms oldest_polls [OF assms(1)] oldest_polls [OF assms(2)] oldest_read [OF assms(1)] oldest_read [OF assms(2)]
  by simp

lemma ask_oldest:
  assumes "rp_inv ctu cfu buffer dev" and "read_good (msg, sz)" and "read_test_write msg sz junk st dev e = Inr (r, t, p, e')"
  shows "\<exists>qs. queued p = queued dev @ qs \<and> first_buf p = first_buf dev"
proof -
  obtain n where n: "ring_ok n dev" "n \<le> BUFFER_SIZE" using assms(1) by (auto simp: rp_inv_def elim: channel_okE)
  from read_test_write_dev [OF assms(3)] show ?thesis
  proof
    assume "\<exists>x. read_persistence_add_message msg sz dev = Inr (x, p)"
    then obtain x where x: "read_persistence_add_message msg sz dev = Inr (x, p)" by blast
    show ?thesis
    proof (cases "n < BUFFER_SIZE")
      case True
      from read_added_ring(2,3) [OF n(1) this assms(2)] x show ?thesis by (simp add: read_added_def Let_def)
    next
      case False
      with n have "ring_full dev" by (simp add: ring_ok_used)
      with x read_add_full show ?thesis by simp
    qed
  qed simp
qed

text \<open>Neither another query nor a work changes what the read thread has received.\<close>

definition asked :: "to_user \<Rightarrow> umem \<Rightarrow> int \<Rightarrow> umem \<Rightarrow> paxos_kernel_device \<Rightarrow> bool" where
  "asked ctu buffer len m dev \<longleftrightarrow>
     read_persistence_poll dev = 1 \<and> read_persistence_read ctu buffer dev = Inr (len, m)"

text \<open>Queries are added behind the oldest one, works only mark slots.\<close>

lemma oldest_stays:
  assumes "sys_step M sw sr ctu cfu buffer s ev s'" and "query_event ev" and "rt_inv ctu cfu buffer (sys_rt s)"
  shows "\<exists>qs. queued (rp (sys_rt s')) = queued (rp (sys_rt s)) @ qs \<and> first_buf (rp (sys_rt s')) = first_buf (rp (sys_rt s))
      \<and> rp_inv ctu cfu buffer (rp (sys_rt s'))"
  using assms(1)
proof cases
  case (Ask q r)
  have r: "rp_inv ctu cfu buffer (rp r)" using rt_step_inv [OF Ask(3) assms(3)] by (simp add: rt_inv_def)
  have inv: "rp_inv ctu cfu buffer (rp (sys_rt s))" using assms(3) by (simp add: rt_inv_def)
  from Ask(3) show ?thesis
  proof cases
    case (Query junk x t p e)
    from ask_oldest [OF inv Query(2,3)] r Query(1) Ask(2) show ?thesis by auto
  qed
next
  case (Run_work i r)
  have r: "rp_inv ctu cfu buffer (rp r)" using rt_step_inv [OF Run_work(3) assms(3)] by (simp add: rt_inv_def)
  from work_slot [OF Run_work(3) assms(3)] obtain k where "rp r = worked k (rp (sys_rt s))" "k < BUFFER_SIZE" by blast
  with r Run_work(2) show ?thesis by (simp add: worked_def queued_def)
qed (use assms(2) in simp_all)

lemma asked_kept:
  assumes "sys_step M sw sr ctu cfu buffer s ev s'" and "query_event ev" and "rt_inv ctu cfu buffer (sys_rt s)"
    and "asked ctu buffer len m (rp (sys_rt s))"
  shows "asked ctu buffer len m (rp (sys_rt s'))"
proof -
  have inv: "rp_inv ctu cfu buffer (rp (sys_rt s))" using assms(3) by (simp add: rt_inv_def)
  from oldest_stays [OF assms(1-3)] oldest_kept [OF inv] assms(4) show ?thesis by (auto simp: asked_def)
qed

section \<open>Turns that are put off\<close>

text \<open>
  The simulation keeps a state \<open>c\<close> that whole turns reach, and what they still have to do to
  be where the steps are. A reader that has done its lookup is still to take its turn; what
  the write side did to the database since then has to wait for it, as the list \<open>L\<close>, and leads
  to \<open>y\<close>. A writer that has received takes its turn behind \<open>y\<close>, and the messages written since
  then come after it.
\<close>

definition reader_at ::
  "'w lmdb_api \<Rightarrow> lmdb_storage \<Rightarrow> lmdb_storage \<Rightarrow> to_user \<Rightarrow> from_user \<Rightarrow> umem
   \<Rightarrow> 'w system \<Rightarrow> sys_event list \<Rightarrow> 'w system \<Rightarrow> reader_stage \<Rightarrow> bool" where
  "reader_at M sw sr ctu cfu buffer c L y stage \<longleftrightarrow>
     (case stage of
        Reader_idle \<Rightarrow> L = [] \<and> y = c
      | Asked len m \<Rightarrow> L = [] \<and> y = c \<and> asked ctu buffer len m (rp (sys_rt c))
      | Found out \<Rightarrow> list_all write_side L
          \<and> (\<exists>len m e w. asked ctu buffer len m (rp (sys_rt c))
               \<and> look_up M sr len m (sys_mem c) (sys_db c) = Inr (out, e, w)
               \<and> sys_run M sw sr ctu cfu buffer (c\<lparr>sys_mem := e, sys_db := w\<rparr>) L y))"

definition writer_at ::
  "'w lmdb_api \<Rightarrow> lmdb_storage \<Rightarrow> lmdb_storage \<Rightarrow> to_user \<Rightarrow> from_user \<Rightarrow> umem
   \<Rightarrow> 'w system \<Rightarrow> sys_event list \<Rightarrow> 'w system \<Rightarrow> writer_stage \<Rightarrow> bool" where
  "writer_at M sw sr ctu cfu buffer y L s stage \<longleftrightarrow>
     (case stage of
        Writer_idle \<Rightarrow> L = [] \<and> s = y
      | Got len m \<Rightarrow> \<exists>ws wp. L = Save # ws \<and> list_all write_event ws \<and> write_persistence_poll (sys_wp y) = 1
          \<and> write_persistence_read ctu buffer (sys_wp y) = Inr (len, m, wp)
          \<and> sys_run M sw sr ctu cfu buffer (y\<lparr>sys_wp := wp\<rparr>) ws s)"

lemma write_event_side: "write_event ev \<Longrightarrow> write_side ev"
  by (cases ev) simp_all

lemma query_event_side: "query_event ev \<Longrightarrow> \<not> write_side ev"
  by (cases ev) simp_all

lemma list_all_write_event: "list_all write_event L \<Longrightarrow> list_all write_side L"
  by (auto simp: list_all_iff intro: write_event_side)

lemma filter_write_side [simp]:
  "list_all write_side L \<Longrightarrow> filter write_side L = L"
  "list_all write_side L \<Longrightarrow> filter (\<lambda>ev. \<not> write_side ev) L = []"
  by (simp_all add: list_all_iff filter_id_conv filter_empty_conv)

lemma reader_found:
  assumes "reader_at M sw sr ctu cfu buffer c L y (Found out)"
  obtains len m e w where "list_all write_side L" and "asked ctu buffer len m (rp (sys_rt c))"
    and "look_up M sr len m (sys_mem c) (sys_db c) = Inr (out, e, w)"
    and "sys_run M sw sr ctu cfu buffer (c\<lparr>sys_mem := e, sys_db := w\<rparr>) L y"
  using assms by (auto simp: reader_at_def)

lemma reader_looks_up:
  assumes "asked ctu buffer len m (rp (sys_rt c))" and "look_up M sr len m (sys_mem c) (sys_db c) = Inr (out, e, w)"
  shows "reader_at M sw sr ctu cfu buffer c [] (c\<lparr>sys_mem := e, sys_db := w\<rparr>) (Found out)"
  using assms sys_run.idle [of M sw sr ctu cfu buffer "c\<lparr>sys_mem := e, sys_db := w\<rparr>"]
  unfolding reader_at_def by auto

lemma reader_at_side:
  assumes "reader_at M sw sr ctu cfu buffer c L y rs"
  shows "list_all write_side L \<and> sys_rt y = sys_rt c"
proof (cases rs)
  case (Found out)
  with assms obtain e w where "list_all write_side L"
    "sys_run M sw sr ctu cfu buffer (c\<lparr>sys_mem := e, sys_db := w\<rparr>) L y" using reader_found by blast
  with write_side_run [OF this(2,1)] show ?thesis by simp
qed (use assms in \<open>simp_all add: reader_at_def\<close>)

lemma writer_at_side: "writer_at M sw sr ctu cfu buffer y L s ws \<Longrightarrow> list_all write_side L \<and> sys_rt s = sys_rt y
    \<and> sys_mem s = sys_mem y \<and> sys_db s = sys_db y"
proof (cases ws)
  case (Got len m)
  moreover assume "writer_at M sw sr ctu cfu buffer y L s ws"
  ultimately obtain us wp where u: "L = Save # us" "list_all write_event us"
    "sys_run M sw sr ctu cfu buffer (y\<lparr>sys_wp := wp\<rparr>) us s" by (auto simp: writer_at_def)
  from written_run [OF u(3,2)] write_side_run [OF u(3) list_all_write_event [OF u(2)]] u(1,2) show ?thesis
    by (simp add: list_all_write_event)
qed (simp add: writer_at_def)

text \<open>The write side goes on: at once, or later when the reader has a turn to finish.\<close>

lemma reader_advance:
  assumes "reader_at M sw sr ctu cfu buffer c L y rs" and "sys_run M sw sr ctu cfu buffer y us y'"
    and "list_all write_side us"
  shows "\<exists>tr c' L'. sys_run M sw sr ctu cfu buffer c tr c' \<and> reader_at M sw sr ctu cfu buffer c' L' y' rs
    \<and> list_all write_side tr \<and> tr @ L' = L @ us"
proof (cases rs)
  case (Found out)
  with assms(1) obtain len m e w where f: "list_all write_side L" "asked ctu buffer len m (rp (sys_rt c))"
    "look_up M sr len m (sys_mem c) (sys_db c) = Inr (out, e, w)"
    "sys_run M sw sr ctu cfu buffer (c\<lparr>sys_mem := e, sys_db := w\<rparr>) L y" by (blast elim: reader_found)
  from sys_run_append [OF assms(2) f(4)] f(1-3) Found assms(3)
  have "reader_at M sw sr ctu cfu buffer c (L @ us) y' rs" by (auto simp: reader_at_def)
  then show ?thesis using sys_run.idle [of M sw sr ctu cfu buffer c] by fastforce
next
  case Reader_idle
  with assms show ?thesis by (auto simp: reader_at_def)
next
  case (Asked len m)
  have "sys_rt y' = sys_rt y" using write_side_run [OF assms(2,3)] by blast
  with Asked assms show ?thesis by (auto simp: reader_at_def)
qed

lemma writer_writes:
  assumes "writer_at M sw sr ctu cfu buffer y L s (Got len m)" and "sys_step M sw sr ctu cfu buffer s ev s'"
    and "write_event ev"
  shows "writer_at M sw sr ctu cfu buffer y (L @ [ev]) s' (Got len m)"
  using assms by (auto simp: writer_at_def intro: sys_run.step)

lemma writer_stores:
  assumes "writer_at M sw sr ctu cfu buffer y L s (Got len m)"
    and "store_message M sw len m (sys_mem s) (sys_db s) = Inr (e, w)"
  shows "sys_run M sw sr ctu cfu buffer y L (s\<lparr>sys_mem := e, sys_db := w\<rparr>)"
proof -
  from assms(1) obtain us wp where u: "L = Save # us" "list_all write_event us"
    "write_persistence_poll (sys_wp y) = 1" "write_persistence_read ctu buffer (sys_wp y) = Inr (len, m, wp)"
    "sys_run M sw sr ctu cfu buffer (y\<lparr>sys_wp := wp\<rparr>) us s" by (auto simp: writer_at_def)
  have same: "sys_mem s = sys_mem y" "sys_db s = sys_db y" using writer_at_side [OF assms(1)] by simp_all
  have "write_turn M sw ctu buffer (sys_wp y) (sys_mem y) (sys_db y) = Inr (wp, e, w)"
    using u(4) assms(2) same by (simp add: write_turn_parts)
  from sys_run_one [OF sys_step.Save [OF u(3) this]]
  have "sys_run M sw sr ctu cfu buffer y [Save] (y\<lparr>sys_wp := wp, sys_mem := e, sys_db := w\<rparr>)" .
  moreover have "sys_run M sw sr ctu cfu buffer (y\<lparr>sys_wp := wp, sys_mem := e, sys_db := w\<rparr>) us
      (s\<lparr>sys_mem := e, sys_db := w\<rparr>)" using written_run [OF u(5,2), where e = e and w = w] by simp
  ultimately show ?thesis using sys_run_append u(1) by fastforce
qed

text \<open>The query side goes on without the writer noticing.\<close>

lemma writer_at_rt:
  assumes "writer_at M sw sr ctu cfu buffer y L s ws"
  shows "writer_at M sw sr ctu cfu buffer (y\<lparr>sys_rt := r\<rparr>) L (s\<lparr>sys_rt := r\<rparr>) ws"
proof (cases ws)
  case (Got len m)
  with assms obtain us wp where u: "L = Save # us" "list_all write_event us"
    "write_persistence_poll (sys_wp y) = 1" "write_persistence_read ctu buffer (sys_wp y) = Inr (len, m, wp)"
    "sys_run M sw sr ctu cfu buffer (y\<lparr>sys_wp := wp\<rparr>) us s" by (auto simp: writer_at_def)
  from write_side_run [OF u(5) list_all_write_event [OF u(2)], of r] u(1-4) Got show ?thesis
    by (cases y) (simp add: writer_at_def)
qed (use assms in \<open>simp add: writer_at_def\<close>)

lemma writer_at_db:
  assumes "writer_at M sw sr ctu cfu buffer y L s ws"
  shows "writer_at M sw sr ctu cfu buffer (y\<lparr>sys_mem := e, sys_db := w\<rparr>) L (s\<lparr>sys_mem := e, sys_db := w\<rparr>) ws"
proof (cases ws)
  case (Got len m)
  with assms obtain us wp where u: "L = Save # us" "list_all write_event us"
    "write_persistence_poll (sys_wp y) = 1" "write_persistence_read ctu buffer (sys_wp y) = Inr (len, m, wp)"
    "sys_run M sw sr ctu cfu buffer (y\<lparr>sys_wp := wp\<rparr>) us s" by (auto simp: writer_at_def)
  from written_run [OF u(5,2), where e = e and w = w] u(1-4) Got show ?thesis
    by (cases y) (simp add: writer_at_def)
qed (use assms in \<open>simp add: writer_at_def\<close>)

lemma reader_at_rt:
  assumes "reader_at M sw sr ctu cfu buffer c L y rs"
    and "\<And>len m. asked ctu buffer len m (rp (sys_rt c)) \<Longrightarrow> asked ctu buffer len m (rp r)"
  shows "reader_at M sw sr ctu cfu buffer (c\<lparr>sys_rt := r\<rparr>) L (y\<lparr>sys_rt := r\<rparr>) rs"
proof (cases rs)
  case (Found out)
  with assms(1) obtain len m e w where f: "list_all write_side L" "asked ctu buffer len m (rp (sys_rt c))"
    "look_up M sr len m (sys_mem c) (sys_db c) = Inr (out, e, w)"
    "sys_run M sw sr ctu cfu buffer (c\<lparr>sys_mem := e, sys_db := w\<rparr>) L y" by (blast elim: reader_found)
  from write_side_run [OF f(4,1), of r] have "sys_run M sw sr ctu cfu buffer
      (c\<lparr>sys_rt := r, sys_mem := e, sys_db := w\<rparr>) L (y\<lparr>sys_rt := r\<rparr>)" by (cases c) simp
  with f(1,3) assms(2) [OF f(2)] Found show ?thesis by (auto simp: reader_at_def)
qed (use assms in \<open>simp_all add: reader_at_def\<close>)

text \<open>The reader sends its answer: its whole turn is taken, then what had to wait for it.\<close>

lemma reader_sends:
  assumes "reader_at M sw sr ctu cfu buffer c L y (Found out)" and "send_out cfu out (rp (sys_rt y)) = Inr d"
  shows "sys_run M sw sr ctu cfu buffer c (Reply # L) (y\<lparr>sys_rt := (sys_rt y)\<lparr>rp := d\<rparr>\<rparr>)"
proof -
  obtain len m e w where f: "list_all write_side L" "asked ctu buffer len m (rp (sys_rt c))"
    "look_up M sr len m (sys_mem c) (sys_db c) = Inr (out, e, w)"
    "sys_run M sw sr ctu cfu buffer (c\<lparr>sys_mem := e, sys_db := w\<rparr>) L y" by (rule reader_found [OF assms(1)])
  have rt: "sys_rt y = sys_rt c" using reader_at_side [OF assms(1)] by simp
  let ?r = "(sys_rt y)\<lparr>rp := d\<rparr>"
  have poll: "read_persistence_poll (rp (sys_rt c)) = 1" using f(2) by (simp add: asked_def)
  have "read_turn M sr ctu cfu buffer (rp (sys_rt c)) (sys_mem c) (sys_db c) = Inr (d, e, w)"
    using f(2,3) assms(2) rt by (simp add: read_turn_parts asked_def)
  from sys_step.Reply [OF poll this] rt
  have "sys_step M sw sr ctu cfu buffer c Reply (c\<lparr>sys_rt := ?r, sys_mem := e, sys_db := w\<rparr>)" by simp
  then have "sys_run M sw sr ctu cfu buffer c [Reply] (c\<lparr>sys_rt := ?r, sys_mem := e, sys_db := w\<rparr>)"
    by (rule sys_run_one)
  moreover have "sys_run M sw sr ctu cfu buffer (c\<lparr>sys_rt := ?r, sys_mem := e, sys_db := w\<rparr>) L (y\<lparr>sys_rt := ?r\<rparr>)"
    using write_side_run [OF f(4,1), of ?r] by (cases c) simp
  ultimately show ?thesis using sys_run_append by fastforce
qed

section \<open>The simulation\<close>

definition stands_for ::
  "'w lmdb_api \<Rightarrow> lmdb_storage \<Rightarrow> lmdb_storage \<Rightarrow> to_user \<Rightarrow> from_user \<Rightarrow> umem
   \<Rightarrow> 'w system \<Rightarrow> sys_event list \<Rightarrow> 'w threads \<Rightarrow> bool" where
  "stands_for M sw sr ctu cfu buffer c L f \<longleftrightarrow> (\<exists>y L1 L2. L = L1 @ L2
     \<and> reader_at M sw sr ctu cfu buffer c L1 y (th_reader f)
     \<and> writer_at M sw sr ctu cfu buffer y L2 (th_sys f) (th_writer f))"

lemma stands_forI:
  "reader_at M sw sr ctu cfu buffer c L1 y rs \<Longrightarrow> writer_at M sw sr ctu cfu buffer y L2 s ws \<Longrightarrow>
   stands_for M sw sr ctu cfu buffer c (L1 @ L2) \<lparr>th_sys = s, th_writer = ws, th_reader = rs\<rparr>"
  by (auto simp: stands_for_def)

lemma stands_for_rest [simp]:
  "stands_for M sw sr ctu cfu buffer c L (at_rest s) \<longleftrightarrow> L = [] \<and> s = c"
  by (auto simp: stands_for_def at_rest_def reader_at_def writer_at_def)

text \<open>What a step adds to the events of the write side (taken or put off) and of the query side.\<close>

definition adds :: "sys_event list \<Rightarrow> sys_event list \<Rightarrow> sys_event list \<Rightarrow> sys_event list \<Rightarrow> bool" where
  "adds L new tr L' \<longleftrightarrow> filter write_side tr @ L' = L @ filter write_side new
     \<and> filter (\<lambda>ev. \<not> write_side ev) tr = filter (\<lambda>ev. \<not> write_side ev) new"

text \<open>A step of the write thread, or a written message.\<close>

lemma write_side_simulated:
  assumes "reader_at M sw sr ctu cfu buffer c L1 y rs" and "sys_run M sw sr ctu cfu buffer y us s"
    and "list_all write_side us" and "us = L2 @ filter write_side new" and "filter (\<lambda>ev. \<not> write_side ev) new = []"
  shows "\<exists>tr c' L'. sys_run M sw sr ctu cfu buffer c tr c' \<and> adds (L1 @ L2) new tr L'
    \<and> stands_for M sw sr ctu cfu buffer c' L' \<lparr>th_sys = s, th_writer = Writer_idle, th_reader = rs\<rparr>"
proof -
  obtain tr c' L' where r: "sys_run M sw sr ctu cfu buffer c tr c'" "reader_at M sw sr ctu cfu buffer c' L' s rs"
    "list_all write_side tr" "tr @ L' = L1 @ us" using reader_advance [OF assms(1-3)] by blast
  have "writer_at M sw sr ctu cfu buffer s [] s Writer_idle" by (simp add: writer_at_def)
  then have "stands_for M sw sr ctu cfu buffer c' L' \<lparr>th_sys = s, th_writer = Writer_idle, th_reader = rs\<rparr>"
    using stands_forI [OF r(2)] by fastforce
  moreover have "adds (L1 @ L2) new tr L'" using r(3,4) assms(4,5) by (simp add: adds_def)
  ultimately show ?thesis using r(1) by blast
qed

lemma query_side_simulated:
  assumes "reader_at M sw sr ctu cfu buffer c L1 y rs" and "writer_at M sw sr ctu cfu buffer y L2 s ws"
    and "rt_inv ctu cfu buffer (sys_rt c)" and "sys_step M sw sr ctu cfu buffer s ev s'" and "query_event ev"
  shows "\<exists>tr c' L'. sys_run M sw sr ctu cfu buffer c tr c' \<and> adds (L1 @ L2) [ev] tr L'
    \<and> stands_for M sw sr ctu cfu buffer c' L' \<lparr>th_sys = s', th_writer = ws, th_reader = rs\<rparr>"
proof -
  let ?r = "sys_rt s'"
  have rt: "sys_rt c = sys_rt s" using reader_at_side [OF assms(1)] writer_at_side [OF assms(2)] by simp
  have s': "s' = s\<lparr>sys_rt := ?r\<rparr>" and st: "sys_step M sw sr ctu cfu buffer c ev (c\<lparr>sys_rt := ?r\<rparr>)"
    using query_side_step [OF assms(4,5) rt] by blast+
  have "reader_at M sw sr ctu cfu buffer (c\<lparr>sys_rt := ?r\<rparr>) L1 (y\<lparr>sys_rt := ?r\<rparr>) rs"
    using asked_kept [OF st assms(5,3)] by (intro reader_at_rt [OF assms(1)]) simp
  moreover have "writer_at M sw sr ctu cfu buffer (y\<lparr>sys_rt := ?r\<rparr>) L2 s' ws"
    using writer_at_rt [OF assms(2)] s' by metis
  ultimately have "stands_for M sw sr ctu cfu buffer (c\<lparr>sys_rt := ?r\<rparr>) (L1 @ L2)
      \<lparr>th_sys = s', th_writer = ws, th_reader = rs\<rparr>" by (rule stands_forI)
  with sys_run_one [OF st] query_event_side [OF assms(5)] show ?thesis by (fastforce simp: adds_def)
qed

text \<open>A step after which all that was to do is still to do, and maybe more.\<close>

lemma put_off_simulated:
  assumes "reader_at M sw sr ctu cfu buffer c L1 y (th_reader f)"
    and "writer_at M sw sr ctu cfu buffer y L2 (th_sys f) (th_writer f)"
    and "L1 @ L2 = L @ filter write_side new" and "filter (\<lambda>ev. \<not> write_side ev) new = []"
  shows "\<exists>tr c' L'. sys_run M sw sr ctu cfu buffer c tr c' \<and> adds L new tr L'
    \<and> stands_for M sw sr ctu cfu buffer c' L' f"
proof (intro exI conjI)
  show "sys_run M sw sr ctu cfu buffer c [] c" by (rule sys_run.idle)
  show "adds L new [] (L1 @ L2)" using assms(3,4) by (simp add: adds_def)
  show "stands_for M sw sr ctu cfu buffer c (L1 @ L2) f" using assms(1,2) by (auto simp: stands_for_def)
qed

text \<open>Every step is matched by whole turns, none, one, or those that had to wait.\<close>

lemma step_simulated:
  assumes "thread_step M sw sr ctu cfu buffer f ev f'" and "stands_for M sw sr ctu cfu buffer c L f"
    and "rt_inv ctu cfu buffer (sys_rt c)"
  shows "\<exists>tr c' L'. sys_run M sw sr ctu cfu buffer c tr c' \<and> adds L (turns [ev]) tr L'
    \<and> stands_for M sw sr ctu cfu buffer c' L' f'"
proof -
  obtain y L1 L2 where L: "L = L1 @ L2" and r: "reader_at M sw sr ctu cfu buffer c L1 y (th_reader f)"
    and w: "writer_at M sw sr ctu cfu buffer y L2 (th_sys f) (th_writer f)" using assms(2) by (auto simp: stands_for_def)
  have rt: "sys_rt (th_sys f) = sys_rt c" "sys_rt y = sys_rt c" "list_all write_side L2"
    using reader_at_side [OF r] writer_at_side [OF w] by simp_all
  from assms(1) show ?thesis
  proof cases
    case (Receive s len m wp rs)
    with w have "writer_at M sw sr ctu cfu buffer y [Save] (s\<lparr>sys_wp := wp\<rparr>) (Got len m)" "L2 = []"
      by (auto simp: writer_at_def intro: sys_run.idle)
    with r Receive L show ?thesis
      by (intro put_off_simulated [of _ _ _ _ _ _ _ L1 y _ "[Save]"]) simp_all
  next
    case (Store len m s e v rs)
    with w have "sys_run M sw sr ctu cfu buffer y L2 (s\<lparr>sys_mem := e, sys_db := v\<rparr>)" by (auto intro: writer_stores)
    from write_side_simulated [OF r this rt(3), of _ "[]"] Store L show ?thesis by simp
  next
    case (Receive_query s len m ws)
    with r rt have "reader_at M sw sr ctu cfu buffer c L1 y (Asked len m)" by (simp add: reader_at_def asked_def)
    with w Receive_query L show ?thesis by (intro put_off_simulated [of _ _ _ _ _ _ _ L1 y _ L2]) simp_all
  next
    case (Look_up len m s out e v ws)
    with r have y: "y = c" "L1 = []" "asked ctu buffer len m (rp (sys_rt c))" by (simp_all add: reader_at_def)
    have "sys_mem s = sys_mem c" "sys_db s = sys_db c" using writer_at_side [OF w] y Look_up by simp_all
    with y Look_up(4) have "reader_at M sw sr ctu cfu buffer c L1 (y\<lparr>sys_mem := e, sys_db := v\<rparr>) (Found out)"
      by (simp add: reader_looks_up)
    with writer_at_db [OF w, where e = e and w = v] Look_up L show ?thesis
      by (intro put_off_simulated [of _ _ _ _ _ _ _ L1 "y\<lparr>sys_mem := e, sys_db := v\<rparr>" _ L2]) simp_all
  next
    case (Send_out out s d ws)
    let ?y = "y\<lparr>sys_rt := (sys_rt y)\<lparr>rp := d\<rparr>\<rparr>"
    have "sys_run M sw sr ctu cfu buffer c (Reply # L1) ?y" using reader_sends [of M sw sr ctu cfu buffer c L1 y out d] r Send_out rt by simp
    moreover have "reader_at M sw sr ctu cfu buffer ?y [] ?y Reader_idle" by (simp add: reader_at_def)
    then have "stands_for M sw sr ctu cfu buffer ?y ([] @ L2) f'"
      unfolding Send_out(3) by (rule stands_forI) (use writer_at_rt [OF w] Send_out rt in auto)
    moreover have "adds L (turns [ev]) (Reply # L1) ([] @ L2)"
      using Send_out L reader_at_side [OF r] by (simp add: adds_def)
    ultimately show ?thesis by blast
  next
    case (Other v s s' ws rs)
    show ?thesis
    proof (cases "query_event v")
      case True
      from query_side_simulated [OF r w assms(3) _ True] Other L show ?thesis by simp
    next
      case False
      then have v: "write_event v" "write_side v" using Other by (auto intro: write_event_side)
      show ?thesis
      proof (cases ws)
        case Writer_idle
        with w Other have y: "L2 = []" "y = s" by (simp_all add: writer_at_def)
        have "sys_run M sw sr ctu cfu buffer y [v] s'" unfolding y(2) by (rule sys_run_one [OF Other(5)])
        from write_side_simulated [OF r this, of "[]" "[v]"] Other L v y(1) Writer_idle show ?thesis by simp
      next
        case (Got len m)
        with writer_writes [OF _ Other(5) v(1)] w Other
        have "writer_at M sw sr ctu cfu buffer y (L2 @ [v]) s' ws" by simp
        with r Other L v show ?thesis by (intro put_off_simulated [of _ _ _ _ _ _ _ L1 y _ "L2 @ [v]"]) simp_all
      qed
    qed
  qed
qed

lemma adds_trans:
  "adds L new tr L' \<Longrightarrow> adds L' new' tr' L'' \<Longrightarrow> adds L (new @ new') (tr @ tr') L''"
  unfolding adds_def by (metis append.assoc filter_append)

lemma run_simulated:
  assumes "thread_run M sw sr ctu cfu buffer (at_rest s0) tr f" and "sys_inv M sw sr ok db view ctu cfu buffer W s0"
  shows "\<exists>tr' c L. sys_run M sw sr ctu cfu buffer s0 tr' c \<and> adds [] (turns tr) tr' L
    \<and> stands_for M sw sr ctu cfu buffer c L f"
  using assms(1)
proof (induction rule: thread_run.induct)
  case rest
  show ?case using sys_run.idle [of M sw sr ctu cfu buffer s0] by (force simp: adds_def)
next
  case (move tr f ev f')
  then obtain tr1 c L where c: "sys_run M sw sr ctu cfu buffer s0 tr1 c" "adds [] (turns tr) tr1 L"
    "stands_for M sw sr ctu cfu buffer c L f" by blast
  have "rt_inv ctu cfu buffer (sys_rt c)" using sys_run_keeps [OF c(1) assms(2)] by (simp add: sys_inv_def)
  from step_simulated [OF move.hyps(2) c(3) this] obtain tr2 c' L' where
    c': "sys_run M sw sr ctu cfu buffer c tr2 c'" "adds L (turns [ev]) tr2 L'" "stands_for M sw sr ctu cfu buffer c' L' f'"
    by blast
  have "adds [] (turns (tr @ [ev])) (tr1 @ tr2) L'" using adds_trans [OF c(2) c'(2)] by simp
  with sys_run_append [OF c'(1) c(1)] c'(3) show ?case by blast
qed

text \<open>The other way round, a whole turn is its parts, one after the other.\<close>

fun parts :: "sys_event \<Rightarrow> thread_event list" where
  "parts Save = [Receive, Store]"
| "parts Reply = [Receive_query, Look_up, Send_out]"
| "parts ev = [Other ev]"

lemma turns_parts [simp]: "turns (parts ev) = [ev]"
  by (cases ev) simp_all

lemma turns_all_parts [simp]: "turns (concat (map parts tr)) = tr"
  by (induction tr) simp_all

lemma thread_run_append:
  assumes "thread_run M sw sr ctu cfu buffer f1 tr' f2" and "thread_run M sw sr ctu cfu buffer f0 tr f1"
  shows "thread_run M sw sr ctu cfu buffer f0 (tr @ tr') f2"
  using assms
proof (induction rule: thread_run.induct)
  case rest
  then show ?case by simp
next
  case (move tr' f ev f')
  from thread_run.move [OF move.IH [OF move.prems] move.hyps(2)] show ?case by simp
qed

lemma thread_run_steps:
  "thread_step M sw sr ctu cfu buffer f0 e1 f1 \<Longrightarrow> thread_run M sw sr ctu cfu buffer f0 [e1] f1"
  "thread_run M sw sr ctu cfu buffer f0 [e1] f1 \<Longrightarrow> thread_step M sw sr ctu cfu buffer f1 e2 f2 \<Longrightarrow>
   thread_run M sw sr ctu cfu buffer f0 [e1, e2] f2"
  "thread_run M sw sr ctu cfu buffer f0 [e1, e2] f2 \<Longrightarrow> thread_step M sw sr ctu cfu buffer f2 e3 f3 \<Longrightarrow>
   thread_run M sw sr ctu cfu buffer f0 [e1, e2, e3] f3"
  using thread_run.move [OF thread_run.rest] thread_run.move by fastforce+

lemma turn_in_parts:
  assumes "sys_step M sw sr ctu cfu buffer s ev s'"
  shows "thread_run M sw sr ctu cfu buffer (at_rest s) (parts ev) (at_rest s')"
  using assms
proof cases
  case (Save wp e w)
  from Save(4) obtain len m where p: "write_persistence_read ctu buffer (sys_wp s) = Inr (len, m, wp)"
    "store_message M sw len m (sys_mem s) (sys_db s) = Inr (e, w)"
    by (auto simp: write_turn_parts bindR_eq_Inr)
  have "store_message M sw len m (sys_mem (s\<lparr>sys_wp := wp\<rparr>)) (sys_db (s\<lparr>sys_wp := wp\<rparr>)) = Inr (e, w)" using p(2) by simp
  from thread_run_steps(2) [OF thread_run_steps(1) [OF thread_step.Receive [OF Save(3) p(1)]] thread_step.Store [OF this]]
  show ?thesis using Save(1,2) by (simp add: at_rest_def)
next
  case (Reply d e w)
  from Reply(4) obtain len m out where p: "read_persistence_read ctu buffer (rp (sys_rt s)) = Inr (len, m)"
    "look_up M sr len m (sys_mem s) (sys_db s) = Inr (out, e, w)" "send_out cfu out (rp (sys_rt s)) = Inr d"
    by (auto simp: read_turn_parts bindR_eq_Inr)
  let ?s1 = "s\<lparr>sys_mem := e, sys_db := w\<rparr>"
  have s2: "send_out cfu out (rp (sys_rt ?s1)) = Inr d" using p(3) by simp
  have "?s1\<lparr>sys_rt := (sys_rt ?s1)\<lparr>rp := d\<rparr>\<rparr> = s'" using Reply(2) by (cases s) simp
  with thread_run_steps(3) [OF thread_run_steps(2) [OF thread_run_steps(1) [OF thread_step.Receive_query [OF Reply(3) p(1)]]
      thread_step.Look_up [OF p(2)]] thread_step.Send_out [OF s2]]
  show ?thesis using Reply(1) by (simp add: at_rest_def)
qed (use assms in \<open>auto simp: at_rest_def intro!: thread_run_steps(1) thread_step.Other\<close>)

lemma turns_in_parts:
  assumes "sys_run M sw sr ctu cfu buffer s0 tr s"
  shows "thread_run M sw sr ctu cfu buffer (at_rest s0) (concat (map parts tr)) (at_rest s)"
  using assms
proof (induction rule: sys_run.induct)
  case idle
  show ?case by (simp add: thread_run.rest)
next
  case (step tr s ev s')
  from thread_run_append [OF turn_in_parts [OF step.hyps(2)] step.IH] show ?case by simp
qed

section \<open>The invariant between the steps\<close>

lemma written_side: "written (filter write_side tr) = written tr"
  by (auto simp: written_def)

lemma written_app: "written (tr @ tr') = written tr \<union> written tr'"
  by (auto simp: written_def)

lemma adds_written:
  assumes "adds [] new tr L"
  shows "written tr \<union> written L = written new"
proof -
  have "filter write_side tr @ L = filter write_side new" using assms by (simp add: adds_def)
  then have "written (filter write_side tr) \<union> written L = written (filter write_side new)" by (metis written_app)
  then show ?thesis by (simp add: written_side)
qed

text \<open>A lookup ends, keeps the invariant, and its answer can be sent.\<close>

lemma look_up_ends:
  assumes "sys_inv M sw sr ok db view ctu cfu buffer W c" and "asked ctu buffer len m (rp (sys_rt c))"
  shows "\<exists>out e w d. look_up M sr len m (sys_mem c) (sys_db c) = Inr (out, e, w)
    \<and> send_out cfu out (rp (sys_rt c)) = Inr d
    \<and> sys_inv M sw sr ok db view ctu cfu buffer W (c\<lparr>sys_mem := e, sys_db := w\<rparr>)"
proof -
  have inv: "rq_inv ctu cfu buffer W (rp (sys_rt c))" "storage_inv M sr ok db view (sys_mem c, sys_db c)"
    "storage_inv M sw ok db view (sys_mem c, sys_db c)" "msgs_ok W"
    "\<forall>i m. contents (db (sys_db c)) i = Some m \<longrightarrow> m \<in> W" using assms(1) by (auto simp: sys_inv_def)
  have poll: "read_persistence_poll (rp (sys_rt c)) = 1" and
    r: "read_persistence_read ctu buffer (rp (sys_rt c)) = Inr (len, m)" using assms(2) by (simp_all add: asked_def)
  obtain d e w where t: "read_turn M sr ctu cfu buffer (rp (sys_rt c)) (sys_mem c) (sys_db c) = Inr (d, e, w)"
    "storage_inv M sr ok db view (e, w)" "db w = db (sys_db c)"
    using read_turn_ends [OF inv(1) poll inv(2,4,5)] by blast
  from t(1) r obtain out where "look_up M sr len m (sys_mem c) (sys_db c) = Inr (out, e, w)"
    "send_out cfu out (rp (sys_rt c)) = Inr d" by (auto simp: read_turn_parts bindR_eq_Inr)
  moreover have "sys_inv M sw sr ok db view ctu cfu buffer W (c\<lparr>sys_mem := e, sys_db := w\<rparr>)"
    using assms(1) t(2,3) storage_inv_other [OF inv(3) t(2)] by (simp add: sys_inv_def)
  ultimately show ?thesis by blast
qed

text \<open>A received message is stored, unless the assertion of a refused put fails.\<close>

lemma receive_ends:
  assumes "sys_inv M sw sr ok db view ctu cfu buffer W y" and "write_persistence_poll (sys_wp y) = 1"
  shows "\<exists>len m wp. write_persistence_read ctu buffer (sys_wp y) = Inr (len, m, wp)
    \<and> sys_inv M sw sr ok db view ctu cfu buffer W (y\<lparr>sys_wp := wp\<rparr>)
    \<and> (store_message M sw len m (sys_mem y) (sys_db y) = Inl AssertFailed
       \<or> (\<exists>e w. store_message M sw len m (sys_mem y) (sys_db y) = Inr (e, w)))"
proof -
  have inv: "wp_inv ctu buffer W (sys_wp y)" "storage_inv M sw ok db view (sys_mem y, sys_db y)"
    using assms(1) by (simp_all add: sys_inv_def)
  then have wi: "write_inv ctu buffer (sys_wp y)" and fs: "\<forall>f \<in> set (frames (sys_wp y)). carries W f"
    by (simp_all add: wp_inv_def)
  from write_read_frame [OF wi assms(2)] obtain len m wp where
    r: "write_persistence_read ctu buffer (sys_wp y) = Inr (len, m, wp)" and wp: "write_inv ctu buffer wp"
      "frames wp = tl (frames (sys_wp y))" "frames (sys_wp y) \<noteq> []" by blast
  have "wp_inv ctu buffer W wp" using wp fs by (auto simp: wp_inv_def dest: list.set_sel(2))
  then have "sys_inv M sw sr ok db view ctu cfu buffer W (y\<lparr>sys_wp := wp\<rparr>)" using assms(1) by (simp add: sys_inv_def)
  moreover have "store_message M sw len m (sys_mem y) (sys_db y) = Inl AssertFailed
       \<or> (\<exists>e w. store_message M sw len m (sys_mem y) (sys_db y) = Inr (e, w))"
    using write_turn_ends [OF inv(1) assms(2) inv(2)] r
    by (cases "store_message M sw len m (sys_mem y) (sys_db y)") (auto simp: write_turn_parts)
  ultimately show ?thesis using r by blast
qed

lemma reader_at_inv:
  assumes "sys_inv M sw sr ok db view ctu cfu buffer W c" and "reader_at M sw sr ctu cfu buffer c L y rs"
  shows "sys_inv M sw sr ok db view ctu cfu buffer (W \<union> written L) y"
proof (cases rs)
  case (Found out)
  with assms(2) obtain len m e w where f: "asked ctu buffer len m (rp (sys_rt c))"
    "look_up M sr len m (sys_mem c) (sys_db c) = Inr (out, e, w)"
    "sys_run M sw sr ctu cfu buffer (c\<lparr>sys_mem := e, sys_db := w\<rparr>) L y" by (blast elim: reader_found)
  have "sys_inv M sw sr ok db view ctu cfu buffer W (c\<lparr>sys_mem := e, sys_db := w\<rparr>)"
    using look_up_ends [OF assms(1) f(1)] f(2) by auto
  from sys_run_keeps [OF f(3) this] show ?thesis .
qed (use assms in \<open>simp_all add: reader_at_def written_def\<close>)

lemma writer_at_inv:
  assumes "sys_inv M sw sr ok db view ctu cfu buffer W y" and "writer_at M sw sr ctu cfu buffer y L s ws"
  shows "sys_inv M sw sr ok db view ctu cfu buffer (W \<union> written L) s"
proof (cases ws)
  case (Got len m)
  with assms(2) obtain us wp where u: "L = Save # us" "write_persistence_poll (sys_wp y) = 1"
    "write_persistence_read ctu buffer (sys_wp y) = Inr (len, m, wp)"
    "sys_run M sw sr ctu cfu buffer (y\<lparr>sys_wp := wp\<rparr>) us s" by (auto simp: writer_at_def)
  have "sys_inv M sw sr ok db view ctu cfu buffer W (y\<lparr>sys_wp := wp\<rparr>)"
    using receive_ends [OF assms(1) u(2)] u(3) by auto
  moreover have "written L = written us" using u(1) by (simp add: written_def)
  ultimately show ?thesis using sys_run_keeps [OF u(4)] by simp
qed (use assms in \<open>simp add: writer_at_def written_def\<close>)

lemma thread_run_keeps:
  assumes "thread_run M sw sr ctu cfu buffer (at_rest s0) tr f" and "sys_inv M sw sr ok db view ctu cfu buffer W s0"
  shows "sys_inv M sw sr ok db view ctu cfu buffer (W \<union> written (turns tr)) (th_sys f)"
proof -
  from run_simulated [OF assms] obtain tr' c L where c: "sys_run M sw sr ctu cfu buffer s0 tr' c"
    "adds [] (turns tr) tr' L" "stands_for M sw sr ctu cfu buffer c L f" by blast
  then obtain y L1 L2 where L: "L = L1 @ L2" and r: "reader_at M sw sr ctu cfu buffer c L1 y (th_reader f)"
    and w: "writer_at M sw sr ctu cfu buffer y L2 (th_sys f) (th_writer f)" by (auto simp: stands_for_def)
  from writer_at_inv [OF reader_at_inv [OF sys_run_keeps [OF c(1) assms(2)] r] w]
  have "sys_inv M sw sr ok db view ctu cfu buffer (W \<union> (written tr' \<union> written L)) (th_sys f)"
    by (simp add: L written_app Un_assoc)
  then show ?thesis by (simp add: adds_written [OF c(2)])
qed

lemma thread_run_at:
  assumes "thread_run M sw sr ctu cfu buffer (at_rest s0) tr f" and "sys_inv M sw sr ok db view ctu cfu buffer W s0"
  shows "\<exists>W1 W2 c y L1 L2. sys_inv M sw sr ok db view ctu cfu buffer W1 c
    \<and> sys_inv M sw sr ok db view ctu cfu buffer W2 y \<and> reader_at M sw sr ctu cfu buffer c L1 y (th_reader f)
    \<and> writer_at M sw sr ctu cfu buffer y L2 (th_sys f) (th_writer f)"
proof -
  from run_simulated [OF assms] obtain tr' c L where c: "sys_run M sw sr ctu cfu buffer s0 tr' c"
    "stands_for M sw sr ctu cfu buffer c L f" by blast
  then obtain y L1 L2 where r: "reader_at M sw sr ctu cfu buffer c L1 y (th_reader f)"
    and w: "writer_at M sw sr ctu cfu buffer y L2 (th_sys f) (th_writer f)" by (auto simp: stands_for_def)
  note inv = sys_run_keeps [OF c(1) assms(2)]
  with reader_at_inv [OF inv r] r w show ?thesis by blast
qed

text \<open>Everybody can go on: the parties outside the storage process, the writer, the reader.\<close>

lemma others_can_step:
  assumes "sys_inv M sw sr ok db view ctu cfu buffer W s"
  shows "\<forall>a v. length v \<le> 196 \<longrightarrow> (\<exists>f'. thread_step M sw sr ctu cfu buffer
      \<lparr>th_sys = s, th_writer = ws, th_reader = rs\<rparr> (Other (Write a v)) f')"
    and "\<forall>q. \<exists>f'. thread_step M sw sr ctu cfu buffer \<lparr>th_sys = s, th_writer = ws, th_reader = rs\<rparr> (Other (Ask q)) f'"
    and "\<forall>i. take_from i (pool (rt_dev (rt (sys_rt s)))) \<noteq> None \<longrightarrow> (\<exists>f'. thread_step M sw sr ctu cfu buffer
      \<lparr>th_sys = s, th_writer = ws, th_reader = rs\<rparr> (Other (Run_work i)) f')"
proof -
  have other: "\<exists>f'. thread_step M sw sr ctu cfu buffer \<lparr>th_sys = s, th_writer = ws, th_reader = rs\<rparr> (Other ev) f'"
    if "sys_step M sw sr ctu cfu buffer s ev s'" "write_event ev \<or> query_event ev" for ev s'
    using thread_step.Other [OF that(2,1)] by blast
  note go = system_never_breaks [OF sys_run.idle assms]
  from go show "\<forall>a v. length v \<le> 196 \<longrightarrow> (\<exists>f'. thread_step M sw sr ctu cfu buffer
      \<lparr>th_sys = s, th_writer = ws, th_reader = rs\<rparr> (Other (Write a v)) f')" using other by fastforce
  from go show "\<forall>q. \<exists>f'. thread_step M sw sr ctu cfu buffer
      \<lparr>th_sys = s, th_writer = ws, th_reader = rs\<rparr> (Other (Ask q)) f'" using other by fastforce
  from go show "\<forall>i. take_from i (pool (rt_dev (rt (sys_rt s)))) \<noteq> None \<longrightarrow> (\<exists>f'. thread_step M sw sr ctu cfu buffer
      \<lparr>th_sys = s, th_writer = ws, th_reader = rs\<rparr> (Other (Run_work i)) f')" using other by fastforce
qed

lemma writer_can_step:
  assumes "sys_inv M sw sr ok db view ctu cfu buffer W y" and "writer_at M sw sr ctu cfu buffer y L s ws"
  shows "case ws of
      Writer_idle \<Rightarrow> write_persistence_poll (sys_wp s) = 1 \<longrightarrow> (\<exists>f'. thread_step M sw sr ctu cfu buffer
        \<lparr>th_sys = s, th_writer = ws, th_reader = rs\<rparr> Receive f')
    | Got len m \<Rightarrow> store_message M sw len m (sys_mem s) (sys_db s) = Inl AssertFailed
        \<or> (\<exists>f'. thread_step M sw sr ctu cfu buffer \<lparr>th_sys = s, th_writer = ws, th_reader = rs\<rparr> Store f')"
proof (cases ws)
  case Writer_idle
  with assms(2) have "s = y" by (simp add: writer_at_def)
  with receive_ends [OF assms(1)] Writer_idle show ?thesis by (force intro: thread_step.Receive)
next
  case (Got len m)
  with assms(2) obtain wp where p: "write_persistence_poll (sys_wp y) = 1"
    "write_persistence_read ctu buffer (sys_wp y) = Inr (len, m, wp)" by (auto simp: writer_at_def)
  have "sys_mem s = sys_mem y" "sys_db s = sys_db y" using writer_at_side [OF assms(2)] by simp_all
  with receive_ends [OF assms(1) p(1)] p(2) have "store_message M sw len m (sys_mem s) (sys_db s) = Inl AssertFailed
      \<or> (\<exists>e w. store_message M sw len m (sys_mem s) (sys_db s) = Inr (e, w))" by simp
  with Got show ?thesis by (auto intro: thread_step.Store)
qed

lemma reader_can_step:
  assumes "sys_inv M sw sr ok db view ctu cfu buffer W c" and "reader_at M sw sr ctu cfu buffer c L1 y rs"
    and "writer_at M sw sr ctu cfu buffer y L2 s ws"
  shows "case rs of
      Reader_idle \<Rightarrow> read_persistence_poll (rp (sys_rt s)) = 1 \<longrightarrow> (\<exists>f'. thread_step M sw sr ctu cfu buffer
        \<lparr>th_sys = s, th_writer = ws, th_reader = rs\<rparr> Receive_query f')
    | Asked len m \<Rightarrow> \<exists>f'. thread_step M sw sr ctu cfu buffer \<lparr>th_sys = s, th_writer = ws, th_reader = rs\<rparr> Look_up f'
    | Found out \<Rightarrow> \<exists>f'. thread_step M sw sr ctu cfu buffer \<lparr>th_sys = s, th_writer = ws, th_reader = rs\<rparr> Send_out f'"
proof -
  have same: "sys_rt s = sys_rt c" "sys_mem s = sys_mem y" "sys_db s = sys_db y"
    using reader_at_side [OF assms(2)] writer_at_side [OF assms(3)] by simp_all
  have rpi: "rp_inv ctu cfu buffer (rp (sys_rt c))" using assms(1) by (simp add: sys_inv_def rq_inv_def)
  show ?thesis
  proof (cases rs)
    case Reader_idle
    have "\<exists>len m. read_persistence_read ctu buffer (rp (sys_rt s)) = Inr (len, m)"
      if "read_persistence_poll (rp (sys_rt s)) = 1"
      using that oldest_polls [OF rpi] oldest_read [OF rpi] same(1) by auto
    with Reader_idle show ?thesis by (auto intro: thread_step.Receive_query)
  next
    case (Asked len m)
    with assms(2) have "y = c" "asked ctu buffer len m (rp (sys_rt c))" by (simp_all add: reader_at_def)
    with look_up_ends [OF assms(1)] same Asked show ?thesis by (fastforce intro: thread_step.Look_up)
  next
    case (Found out)
    with assms(2) obtain len m e w where "asked ctu buffer len m (rp (sys_rt c))"
      "look_up M sr len m (sys_mem c) (sys_db c) = Inr (out, e, w)" by (blast elim: reader_found)
    with look_up_ends [OF assms(1)] same Found show ?thesis by (fastforce intro: thread_step.Send_out)
  qed
qed

section \<open>Properties\<close>

text \<open>The steps of the examples start from the idle system of \<open>System\<close>.\<close>

abbreviation demo_threads :: "demo_world threads \<Rightarrow> thread_event list \<Rightarrow> demo_world threads \<Rightarrow> bool" where
  "demo_threads \<equiv> thread_run (demo_lmdb False) demo_handle demo_handle plain_to_user plain_from_user (replicate 244 0)"

lemma demo_written: "\<exists>s. demo_run demo_system [Write demo_acc [1, 2, 3]] s \<and> write_persistence_poll (sys_wp s) = 1
    \<and> frames (sys_wp s) = [accepted_image (with_len demo_acc [1, 2, 3]) @ [1, 2, 3]]"
proof -
  obtain s where s: "demo_run demo_system [Write demo_acc [1, 2, 3]] s"
    "frames (sys_wp s) = [accepted_image (with_len demo_acc [1, 2, 3]) @ [1, 2, 3]]"
    using step_write [OF demo_system_inv demo_system_idle(1), of "[1, 2, 3]" demo_acc] sys_run_one by force
  have "write_inv plain_to_user (replicate 244 0) (sys_wp s)"
    using sys_run_keeps [OF s(1) demo_system_inv] by (simp add: sys_inv_def wp_inv_def)
  with s wchan.ready_iff [of plain_to_user "replicate 244 0" "sys_wp s"] show ?thesis by auto
qed





end
