(* ===== verification/Store_Opening.thy ===== *)
theory Store_Opening
  imports User_Storage
begin

text \<open>
  How the storage process (\<open>kpaxos/user_storage.c\<close>) comes to its two store handles: each thread
  calls \<open>lmdb_storage_open\<close> on a handle on its stack. What LMDB documents of the calls of
  \<open>lmdb_storage_init\<close> is the predicate \<open>opening_laws\<close>; from it, two handles that were opened
  with nothing left over on the stacks and the same acceptor id are handles of one database.
\<close>

section \<open>What opening relies on\<close>

text \<open>
  The environment and the database of a path: creating the handle, setting the map size, opening
  the environment, opening the database in a transaction and setting its comparison change
  nothing that is stored, and an environment that was opened at the path, with a database handle
  opened in it, obeys the laws of transactions.
\<close>

definition opening_laws ::
  "'w lmdb_api \<Rightarrow> char list \<Rightarrow> ('w \<Rightarrow> bool) \<Rightarrow> ('w \<Rightarrow> byte list \<rightharpoonup> byte list)
   \<Rightarrow> ('w \<Rightarrow> u64 \<Rightarrow> (byte list \<rightharpoonup> byte list) option) \<Rightarrow> bool" where
  "opening_laws M path ok db view \<longleftrightarrow>
     (\<forall>w r w'. make_dir M path w = (r, w') \<and> ok w \<longrightarrow> ok w' \<and> db w' = db w)
     \<and> (\<forall>w r h w'. mdb_env_create M w = (r, h, w') \<and> ok w \<longrightarrow> ok w' \<and> db w' = db w)
     \<and> (\<forall>env n w r w'. mdb_env_set_mapsize M env n w = Inr (r, w') \<and> ok w \<longrightarrow> ok w' \<and> db w' = db w)
     \<and> (\<forall>env w r w'. mdb_env_open M env path w = Inr (r, w') \<and> ok w \<longrightarrow> ok w' \<and> db w' = db w)
     \<and> (\<forall>env w h w'. mdb_txn_begin M env w = Inr (0, h, w') \<and> ok w \<longrightarrow>
          (\<exists>t. h = Some t \<and> view w' t = Some (db w)) \<and> db w' = db w)
     \<and> (\<forall>t w h w' m. mdb_open M t w = Inr (0, h, w') \<and> view w t = Some m \<longrightarrow>
          (\<exists>dbi. h = Some dbi) \<and> view w' t = Some m \<and> db w' = db w)
     \<and> (\<forall>t dbi w r w' m. mdb_set_compare M t dbi w = Inr (r, w') \<and> view w t = Some m \<longrightarrow>
          view w' t = Some m \<and> db w' = db w)
     \<and> (\<forall>t w w' m. mdb_txn_commit M t w = Inr (0, w') \<and> view w t = Some m \<longrightarrow> ok w' \<and> db w' = m)
     \<and> (\<forall>env w w' t u dbi u'. mdb_env_open M env path w = Inr (0, w') \<and> mdb_open M t u = Inr (0, Some dbi, u') \<longrightarrow>
          lmdb_laws M env dbi ok db view)"

lemma opening_lawsD:
  assumes "opening_laws M path ok db view"
  shows open_make_dir: "make_dir M path w = (r, w') \<Longrightarrow> ok w \<Longrightarrow> ok w' \<and> db w' = db w"
    and open_create: "mdb_env_create M w = (r, h, w') \<Longrightarrow> ok w \<Longrightarrow> ok w' \<and> db w' = db w"
    and open_mapsize: "mdb_env_set_mapsize M env n w = Inr (r, w') \<Longrightarrow> ok w \<Longrightarrow> ok w' \<and> db w' = db w"
    and open_env: "mdb_env_open M env path w = Inr (r, w') \<Longrightarrow> ok w \<Longrightarrow> ok w' \<and> db w' = db w"
    and open_begin: "mdb_txn_begin M env w = Inr (0, h, w') \<Longrightarrow> ok w \<Longrightarrow>
      \<exists>t. h = Some t \<and> view w' t = Some (db w) \<and> db w' = db w"
    and open_dbi: "mdb_open M t w = Inr (0, g, w') \<Longrightarrow> view w t = Some m \<Longrightarrow>
      \<exists>dbi. g = Some dbi \<and> view w' t = Some m \<and> db w' = db w"
    and open_compare: "mdb_set_compare M t dbi w = Inr (r, w') \<Longrightarrow> view w t = Some m \<Longrightarrow>
      view w' t = Some m \<and> db w' = db w"
    and open_commit: "mdb_txn_commit M t w = Inr (0, w') \<Longrightarrow> view w t = Some m \<Longrightarrow> ok w' \<and> db w' = m"
    and open_opened: "mdb_env_open M env path w = Inr (0, w') \<Longrightarrow> mdb_open M t u = Inr (0, Some dbi, u') \<Longrightarrow>
      lmdb_laws M env dbi ok db view"
  by (insert assms, unfold opening_laws_def, (elim conjE; metis)+)

section \<open>Opening a store\<close>

text \<open>The calls of an initialisation that succeeds.\<close>

lemma init_checked:
  "(if r \<noteq> 0 then init_error M s env txn dbi w else X) = Inr (0, s', w') \<longleftrightarrow> r = 0 \<and> X = Inr (0, s', w')"
  by (auto simp: init_error_def bindR_eq_Inr)

lemma init_calls:
  assumes "lmdb_storage_init M s path w = Inr (0, s', w')"
  shows "\<exists>w0 h1 w1 w2 w3 h4 w4 h5 w5 w6. (w0 = w \<or> make_dir M path w = (0, w0))
    \<and> mdb_env_create M w0 = (0, h1, w1) \<and> mdb_env_set_mapsize M (stored 0 h1) lmdb_mapsize w1 = Inr (0, w2)
    \<and> mdb_env_open M (stored 0 h1) path w2 = Inr (0, w3) \<and> mdb_txn_begin M (stored 0 h1) w3 = Inr (0, h4, w4)
    \<and> mdb_open M (stored 0 h4) w4 = Inr (0, h5, w5)
    \<and> mdb_set_compare M (stored 0 h4) (stored 0 h5) w5 = Inr (0, w6)
    \<and> mdb_txn_commit M (stored 0 h4) w6 = Inr (0, w') \<and> s' = s\<lparr>st_env := stored 0 h1, st_dbi := stored 0 h5\<rparr>"
proof -
  obtain mk w0 where mk: "(if dir_exists M path w then (0, w) else make_dir M path w) = (mk, w0)"
    by (cases "if dir_exists M path w then (0, w) else make_dir M path w")
  obtain r1 h1 w1 where c: "mdb_env_create M w0 = (r1, h1, w1)" by (cases "mdb_env_create M w0")
  from assms [unfolded lmdb_storage_init_def mk Let_def c split_conv,
      simplified init_checked bindR_eq_Inr split_paired_Ex split_conv]
  obtain w2 w3 h4 w4 h5 w5 w6 where "mk = 0" "r1 = 0"
    and calls: "mdb_env_set_mapsize M (stored 0 h1) lmdb_mapsize w1 = Inr (0, w2)"
      "mdb_env_open M (stored 0 h1) path w2 = Inr (0, w3)" "mdb_txn_begin M (stored 0 h1) w3 = Inr (0, h4, w4)"
      "mdb_open M (stored 0 h4) w4 = Inr (0, h5, w5)" "mdb_set_compare M (stored 0 h4) (stored 0 h5) w5 = Inr (0, w6)"
      "mdb_txn_commit M (stored 0 h4) w6 = Inr (0, w')" "s' = s\<lparr>st_env := stored 0 h1, st_dbi := stored 0 h5\<rparr>" by auto
  moreover have "w0 = w \<or> make_dir M path w = (0, w0)" using mk \<open>mk = 0\<close> by (auto split: if_splits)
  ultimately show ?thesis using c by blast
qed

lemma init_ready:
  assumes "opening_laws M path ok db view" and "ok w" and "lmdb_storage_init M s path w = Inr (0, s', w')"
  shows "lmdb_laws M (st_env s') (st_dbi s') ok db view" and "ok w'" and "db w' = db w"
    and "st_txn s' = st_txn s" and "acceptor_id s' = acceptor_id s"
proof -
  note laws = assms(1)
  from init_calls [OF assms(3)] obtain w0 h1 w1 w2 w3 h4 w4 h5 w5 w6 where
    w0: "w0 = w \<or> make_dir M path w = (0, w0)" and c1: "mdb_env_create M w0 = (0, h1, w1)"
    and c2: "mdb_env_set_mapsize M (stored 0 h1) lmdb_mapsize w1 = Inr (0, w2)"
    and c3: "mdb_env_open M (stored 0 h1) path w2 = Inr (0, w3)"
    and c4: "mdb_txn_begin M (stored 0 h1) w3 = Inr (0, h4, w4)" and c5: "mdb_open M (stored 0 h4) w4 = Inr (0, h5, w5)"
    and c6: "mdb_set_compare M (stored 0 h4) (stored 0 h5) w5 = Inr (0, w6)"
    and c7: "mdb_txn_commit M (stored 0 h4) w6 = Inr (0, w')"
    and s': "s' = s\<lparr>st_env := stored 0 h1, st_dbi := stored 0 h5\<rparr>" by blast
  have k0: "ok w0 \<and> db w0 = db w" using w0 open_make_dir [OF laws] assms(2) by blast
  have k1: "ok w1 \<and> db w1 = db w" using open_create [OF laws c1] k0 by simp
  have k2: "ok w2 \<and> db w2 = db w" using open_mapsize [OF laws c2] k1 by simp
  have k3: "ok w3 \<and> db w3 = db w" using open_env [OF laws c3] k2 by simp
  then obtain t where t: "h4 = Some t" "view w4 t = Some (db w)" using open_begin [OF laws c4] by auto
  then obtain dbi where d: "h5 = Some dbi" "view w5 t = Some (db w)"
    using open_dbi [OF laws c5, of "db w"] by (auto simp: stored_def)
  have "view w6 t = Some (db w)" using open_compare [OF laws c6] t(1) d(2) by (simp add: stored_def)
  then show "ok w'" and "db w' = db w" using open_commit [OF laws c7] t(1) by (simp_all add: stored_def)
  show "lmdb_laws M (st_env s') (st_dbi s') ok db view"
    using open_opened [OF laws c3] c5 d(1) s' by (simp add: stored_def)
  show "st_txn s' = st_txn s" and "acceptor_id s' = acceptor_id s" using s' by simp_all
qed

lemma open_ready:
  assumes "opening_laws M (storage_path (acceptor_id s)) ok db view" and "ok w" and "mallocs_ok e" and "db_wf (db w)"
    and "st_txn s = 0" and "lmdb_storage_open M s e w = Inr (0, s', e', w')"
  shows "storage_inv M s' ok db view (e', w')" and "db w' = db w" and "mallocs_ok e'"
proof -
  let ?path = "storage_path (acceptor_id s)"
  obtain addr blk e1 where m: "malloc (length db_env_path + 16) e = (addr, blk, e1)"
    by (cases "malloc (length db_env_path + 16) e")
  obtain mk w0 where mk: "(if dir_exists M ?path w then (0, w) else make_dir M ?path w) = (mk, w0)"
    by (cases "if dir_exists M ?path w then (0, w) else make_dir M ?path w")
  from assms(6) have i: "mk = 0" "lmdb_storage_init M s ?path w0 = Inr (0, s', w')" "e' = e1"
    by (auto simp: lmdb_storage_open_def m mk storage_path_fits bindR_eq_Inr split: if_splits)
  have w0: "ok w0 \<and> db w0 = db w" using mk i(1) open_make_dir [OF assms(1)] assms(2) by (auto split: if_splits)
  note r = init_ready [OF assms(1) conjunct1 [OF w0] i(2)]
  show "mallocs_ok e'" using malloc_all [OF assms(3), of "length db_env_path + 16"] m i(3) by (metis prod.inject)
  then show "storage_inv M s' ok db view (e', w')" using r w0 assms(4,5) by (simp add: storage_inv_def)
  show "db w' = db w" using r(3) w0 by simp
qed

text \<open>Both threads, the read thread first; the answer says whether both succeeded.\<close>

definition open_stores ::
  "'w lmdb_api \<Rightarrow> lmdb_storage \<Rightarrow> lmdb_storage \<Rightarrow> uenv \<Rightarrow> 'w
   \<Rightarrow> cerror + bool \<times> lmdb_storage \<times> lmdb_storage \<times> uenv \<times> 'w" where
  "open_stores M sr sw e w =
     bindR (lmdb_storage_open M sr e w) (\<lambda>(r1, sr1, e1, w1).
     bindR (lmdb_storage_open M sw e1 w1) (\<lambda>(r2, sw1, e2, w2).
     Inr (r1 = 0 \<and> r2 = 0, sr1, sw1, e2, w2)))"

text \<open>The stacks held nothing that is taken for a transaction, and the same acceptor id.\<close>

definition clean_stacks :: "lmdb_storage \<Rightarrow> lmdb_storage \<Rightarrow> bool" where
  "clean_stacks sr sw \<longleftrightarrow> st_txn sr = 0 \<and> st_txn sw = 0 \<and> acceptor_id sr = acceptor_id sw"

lemma open_stores_ready:
  assumes "opening_laws M (storage_path (acceptor_id sr)) ok db view" and "ok w" and "mallocs_ok e" and "db_wf (db w)"
    and "clean_stacks sr sw" and "open_stores M sr sw e w = Inr (True, sr', sw', e', w')"
  shows "storage_inv M sr' ok db view (e', w')" and "storage_inv M sw' ok db view (e', w')" and "db w' = db w"
proof -
  from assms(6) obtain e1 w1 where o: "lmdb_storage_open M sr e w = Inr (0, sr', e1, w1)"
    "lmdb_storage_open M sw e1 w1 = Inr (0, sw', e', w')" by (auto simp: open_stores_def bindR_eq_Inr)
  have t: "st_txn sr = 0" "st_txn sw = 0" "acceptor_id sw = acceptor_id sr"
    using assms(5) by (simp_all add: clean_stacks_def)
  note r1 = open_ready [OF assms(1-4) t(1) o(1)]
  have w1: "ok w1" "db_wf (db w1)" using r1(1) by (simp_all add: storage_inv_def)
  have laws: "opening_laws M (storage_path (acceptor_id sw)) ok db view" using assms(1) t(3) by simp
  note r2 = open_ready [OF laws w1(1) r1(3) w1(2) t(2) o(2)]
  show "storage_inv M sw' ok db view (e', w')" by (rule r2(1))
  with r1(1) show "storage_inv M sr' ok db view (e', w')" by (simp add: storage_inv_def)
  show "db w' = db w" using r1(2) r2(2) by simp
qed

lemma demo_opening: "opening_laws (demo_lmdb full) path demo_idle fst demo_view"
  unfolding opening_laws_def
  by (intro conjI allI impI; (rule demo_laws)?)
     (auto simp: demo_lmdb_def demo_view_def split: option.splits if_splits)

lemma demo_opens: "open_stores (demo_lmdb full) demo_handle demo_handle demo_uenv (Map.empty, None) =
    Inr (True, demo_handle, demo_handle, demo_uenv\<lparr>mallocs := []\<rparr>, Map.empty, None)"
  by (simp add: open_stores_def lmdb_storage_open_def lmdb_storage_init_def malloc_def demo_uenv_def demo_lmdb_def
      demo_handle_def stored_def Let_def)

end
