(* ===== verification/Program_Start.thy ===== *)
theory Program_Start
  imports Thread_Steps Persistence_Main Store_Opening
begin

text \<open>
  From the start of the program on: the module is loaded (\<open>persistence_main.c\<close>), the threads of
  the storage process open their stores, the devices are opened. The state this leaves is one
  from which the system of \<open>System\<close> and \<open>Thread_Steps\<close> can run, so that what is proved there of
  every run holds of every run of the program.
\<close>

section \<open>The system after loading\<close>

text \<open>The static devices of the module, the counters of \<open>read_test_device_operations.c\<close>, which
  start with 0, and the storage process with its memory and its database.\<close>

definition loaded_system :: "persistence_module \<Rightarrow> uenv \<Rightarrow> 'w \<Rightarrow> 'w system" where
  "loaded_system m e w =
     \<lparr>sys_wt = writeTest m, sys_wp = writePersistence m,
      sys_rt = \<lparr>rt = \<lparr>rt_dev = readTest m, messagesReceived = 0, messagesFound = 0\<rparr>,
                rp = readPersistence m, env = kernel m\<rparr>,
      sys_mem = e, sys_db = w\<rparr>"

text \<open>What the database held before: messages as the program stores them, each under its number.\<close>

definition stored_before :: "('w \<Rightarrow> byte list \<rightharpoonup> byte list) \<Rightarrow> 'w \<Rightarrow> message set" where
  "stored_before db w = {m. \<exists>i. contents (db w) i = Some m}"

lemma loaded_devices:
  assumes "copy_to_user_ok ctu" and "copy_from_user_ok cfu" and "244 \<le> length buffer"
  shows "wp_inv ctu buffer W (writePersistence (loaded api j k))"
    and "rq_inv ctu cfu buffer W (readPersistence (loaded api j k))"
    and "rt_inv ctu cfu buffer (sys_rt (loaded_system (loaded api j k) e w))"
    and "works_of (sys_rt (loaded_system (loaded api j k) e w)) = {#}"
proof -
  show "wp_inv ctu buffer W (writePersistence (loaded api j k))"
    using assms by (simp add: wp_inv_def write_inv_def loaded_def ready_channel_ok frames_def)
  have rp: "rp_inv ctu cfu buffer (readPersistence (loaded api j k))"
    using assms by (simp add: rp_inv_def loaded_def ready_channel_ok)
  moreover have "responses_in W (readPersistence (loaded api j k))"
    by (simp add: responses_in_def loaded_def fresh_callback_def response_of_def has_value_def)
  ultimately show "rq_inv ctu cfu buffer W (readPersistence (loaded api j k))"
    by (simp add: rq_inv_def loaded_def)
  show w: "works_of (sys_rt (loaded_system (loaded api j k) e w)) = {#}"
    by (simp add: loaded_system_def loaded_def test_device_def fresh_pool_pending)
  have "pool_ok (pool (readTest (loaded api j k)))" by (rule loaded_releasable)
  with rp w show "rt_inv ctu cfu buffer (sys_rt (loaded_system (loaded api j k) e w))"
    by (simp add: rt_inv_def loaded_system_def)
qed

lemma loaded_sys_inv:
  assumes "copy_to_user_ok ctu" and "copy_from_user_ok cfu" and "244 \<le> length buffer"
    and "storage_inv M sw ok db view (e, w)" and "storage_inv M sr ok db view (e, w)"
    and "msgs_ok (stored_before db w)"
  shows "sys_inv M sw sr ok db view ctu cfu buffer (stored_before db w) (loaded_system (loaded api j k) e w)"
proof -
  have db: "contents (db w) i = Some m \<Longrightarrow> m \<in> stored_before db w \<and> iid (fst m) = i" for i m
  proof -
    assume c: "contents (db w) i = Some m"
    then obtain d where "db w (le32 i) = Some d" by (auto simp: contents_def)
    moreover have "db_wf (db w)" using assms(4) by (simp add: storage_inv_def)
    ultimately obtain a v where "iid a = i" "contents (db w) i = Some (strip a, v)" by (blast elim: db_wf_contents)
    with c show ?thesis by (auto simp: stored_before_def strip_def)
  qed
  have "working (writeTest (loaded api j k)) \<noteq> 0" by (simp add: loaded_def)
  moreover have "\<forall>i m. contents (db w) i = Some m \<longrightarrow> m \<in> stored_before db w \<and> iid (fst m) = i" using db by blast
  ultimately show ?thesis
    using loaded_devices [OF assms(1-3)] assms(4-6) unfolding sys_inv_def by (simp add: loaded_system_def)
qed

text \<open>Nothing is in transit, the read-test device runs, and the kernel has memory.\<close>

definition quiet :: "'w system \<Rightarrow> bool" where
  "quiet s \<longleftrightarrow> frames (sys_wp s) = [] \<and> queued (rp (sys_rt s)) = [] \<and> works_of (sys_rt s) = {#}
     \<and> working (rt_dev (rt (sys_rt s))) \<noteq> 0 \<and> alloc_all (env (sys_rt s))"

section \<open>Opening the devices\<close>

text \<open>The test programs and the storage process open the four devices; the answer says whether
  every open was granted.\<close>

definition open_devices :: "'w system \<Rightarrow> bool \<times> 'w system" where
  "open_devices s =
     (let (r1, wt) = write_test_open (sys_wt s);
          (r2, t) = read_test_open (rt (sys_rt s));
          (r3, wp) = write_persistence_open (sys_wp s);
          (r4, d) = read_persistence_open (rp (sys_rt s))
      in (r1 = 0 \<and> r2 = 0 \<and> r3 = 0 \<and> r4 = 0,
          s\<lparr>sys_wt := wt, sys_wp := wp, sys_rt := (sys_rt s)\<lparr>rt := t, rp := d\<rparr>\<rparr>))"

text \<open>The lock of a device is not part of what it holds.\<close>

lemma opened_device [simp]:
  "slots_of (dev\<lparr>char_mutex := b\<rparr>) = slots_of dev" "callbacks_of (dev\<lparr>char_mutex := b\<rparr>) = callbacks_of dev"
  "queued (dev\<lparr>char_mutex := b\<rparr>) = queued dev" "frames (dev\<lparr>char_mutex := b\<rparr>) = frames dev"
  "ring_ok n (dev\<lparr>char_mutex := b\<rparr>) \<longleftrightarrow> ring_ok n dev" "channel_ok (dev\<lparr>char_mutex := b\<rparr>) \<longleftrightarrow> channel_ok dev"
  "write_inv ctu buffer (dev\<lparr>char_mutex := b\<rparr>) \<longleftrightarrow> write_inv ctu buffer dev"
  "wp_inv ctu buffer W (dev\<lparr>char_mutex := b\<rparr>) \<longleftrightarrow> wp_inv ctu buffer W dev"
  "rp_inv ctu cfu buffer (dev\<lparr>char_mutex := b\<rparr>) \<longleftrightarrow> rp_inv ctu cfu buffer dev"
  "rq_inv ctu cfu buffer W (dev\<lparr>char_mutex := b\<rparr>) \<longleftrightarrow> rq_inv ctu cfu buffer W dev"
proof -
  show slots: "slots_of (dev\<lparr>char_mutex := b\<rparr>) = slots_of dev"
    and cbs: "callbacks_of (dev\<lparr>char_mutex := b\<rparr>) = callbacks_of dev"
    by (simp_all add: slots_of_def slot_block_def callbacks_of_def)
  then show q: "queued (dev\<lparr>char_mutex := b\<rparr>) = queued dev" by (simp add: queued_def)
  then show f: "frames (dev\<lparr>char_mutex := b\<rparr>) = frames dev" by (simp add: frames_def)
  have "buffers_ok (dev\<lparr>char_mutex := b\<rparr>) \<longleftrightarrow> buffers_ok dev" by (simp add: buffers_ok_def slots cbs)
  then show r: "ring_ok n (dev\<lparr>char_mutex := b\<rparr>) \<longleftrightarrow> ring_ok n dev" for n by (simp add: ring_ok_def)
  then show c: "channel_ok (dev\<lparr>char_mutex := b\<rparr>) \<longleftrightarrow> channel_ok dev" by (simp add: channel_ok_def q)
  then show w: "write_inv ctu buffer (dev\<lparr>char_mutex := b\<rparr>) \<longleftrightarrow> write_inv ctu buffer dev" by (simp add: write_inv_def)
  then show "wp_inv ctu buffer W (dev\<lparr>char_mutex := b\<rparr>) \<longleftrightarrow> wp_inv ctu buffer W dev" by (simp add: wp_inv_def f)
  from c show p: "rp_inv ctu cfu buffer (dev\<lparr>char_mutex := b\<rparr>) \<longleftrightarrow> rp_inv ctu cfu buffer dev" by (simp add: rp_inv_def)
  then show "rq_inv ctu cfu buffer W (dev\<lparr>char_mutex := b\<rparr>) \<longleftrightarrow> rq_inv ctu cfu buffer W dev"
    by (simp add: rq_inv_def q responses_in_def cbs)
qed

lemma open_devices_keeps:
  assumes "sys_inv M sw sr ok db view ctu cfu buffer W s" and "open_devices s = (b, s')"
  shows "sys_inv M sw sr ok db view ctu cfu buffer W s'" and "quiet s \<Longrightarrow> quiet s'"
    and "sys_db s' = sys_db s"
proof -
  have s': "s' = s\<lparr>sys_wt := snd (write_test_open (sys_wt s)), sys_wp := snd (write_persistence_open (sys_wp s)),
      sys_rt := (sys_rt s)\<lparr>rt := snd (read_test_open (rt (sys_rt s))), rp := snd (read_persistence_open (rp (sys_rt s)))\<rparr>\<rparr>"
    using assms(2) by (simp add: open_devices_def split: prod.splits)
  show "sys_inv M sw sr ok db view ctu cfu buffer W s'"
    using assms(1) unfolding s'
    by (simp add: sys_inv_def rt_inv_def write_test_open_def write_persistence_open_def read_test_open_def
        read_persistence_open_def)
  show "quiet s \<Longrightarrow> quiet s'"
    unfolding s'
    by (simp add: quiet_def write_persistence_open_def read_test_open_def read_persistence_open_def)
  show "sys_db s' = sys_db s" by (simp add: s')
qed

section \<open>The start of the program\<close>

text \<open>Loading, opening the stores of the read thread and of the write thread, whose handles hold
  what their stacks held, opening the devices. The answer says whether all went well; the
  handles of the two threads and the system come with it.\<close>

definition start_program ::
  "kernel_api \<Rightarrow> memory_junk \<Rightarrow> kenv \<Rightarrow> 'w lmdb_api \<Rightarrow> lmdb_storage \<Rightarrow> lmdb_storage \<Rightarrow> uenv \<Rightarrow> 'w
   \<Rightarrow> cerror + bool \<times> lmdb_storage \<times> lmdb_storage \<times> 'w system" where
  "start_program api j k M sr sw e w =
     bindR (paxos_persistence_init api j (unloaded k)) (\<lambda>(r, m).
     bindR (open_stores M sr sw e w) (\<lambda>(b, sr1, sw1, e1, w1).
     let (c, s) = open_devices (loaded_system m e1 w1) in Inr (r = 0 \<and> b \<and> c, sr1, sw1, s)))"

text \<open>What the properties assume of the start: the kernel grants everything that loading asks for.\<close>

definition load_granted :: "kernel_api \<Rightarrow> kenv \<Rightarrow> bool" where
  "load_granted api k \<longleftrightarrow> alloc_all k \<and> thread_all k \<and> (\<forall>(i, name) \<in> set device_table. registered api name i)"

text \<open>The user copies copy all bytes.\<close>

definition copies_ok :: "to_user \<Rightarrow> from_user \<Rightarrow> umem \<Rightarrow> bool" where
  "copies_ok ctu cfu buffer \<longleftrightarrow> copy_to_user_ok ctu \<and> copy_from_user_ok cfu \<and> 244 \<le> length buffer"

text \<open>The library opens the database of the path as documented, it holds good messages, and the
  stacks of the threads were clean.\<close>

definition store_ready ::
  "'w lmdb_api \<Rightarrow> lmdb_storage \<Rightarrow> lmdb_storage \<Rightarrow> ('w \<Rightarrow> bool) \<Rightarrow> ('w \<Rightarrow> byte list \<rightharpoonup> byte list)
   \<Rightarrow> ('w \<Rightarrow> u64 \<Rightarrow> (byte list \<rightharpoonup> byte list) option) \<Rightarrow> uenv \<Rightarrow> 'w \<Rightarrow> bool" where
  "store_ready M sr sw ok db view e w \<longleftrightarrow> opening_laws M (storage_path (acceptor_id sr)) ok db view \<and> ok w
     \<and> mallocs_ok e \<and> db_wf (db w) \<and> msgs_ok (stored_before db w) \<and> clean_stacks sr sw"

lemma load_starts:
  assumes "load_granted api k" and "copies_ok ctu cfu buffer"
    and "storage_inv M sw ok db view (e, w)" and "storage_inv M sr ok db view (e, w)" and "msgs_ok (stored_before db w)"
  shows "\<exists>m. paxos_persistence_init api j (unloaded k) = Inr (0, m)
    \<and> sys_inv M sw sr ok db view ctu cfu buffer (stored_before db w) (loaded_system m e w)
    \<and> quiet (loaded_system m e w) \<and> fst (open_devices (loaded_system m e w))"
proof -
  have g: "alloc_all k" "thread_all k" "\<forall>(i, name) \<in> set device_table. registered api name i"
    using assms(1) by (simp_all add: load_granted_def)
  from persistence_init_result [OF g(1,2), of api j] g(3) obtain m where
    m: "paxos_persistence_init api j (unloaded k) = Inr (0, m)" "m = loaded api j (kernel m)" "alloc_all (kernel m)"
    by blast
  have "sys_inv M sw sr ok db view ctu cfu buffer (stored_before db w) (loaded_system m e w)"
    using loaded_sys_inv [of ctu cfu buffer M sw ok db view e w sr api j "kernel m"] assms(2-5) m(2)
    by (simp add: copies_ok_def)
  moreover have "quiet (loaded_system m e w)"
    unfolding quiet_def
    by (subst (1 2 3 4) m(2), insert m(3))
       (simp add: loaded_system_def loaded_def test_device_def fresh_pool_pending)
  moreover have "fst (open_devices (loaded_system (loaded api j (kernel m)) e w))"
    by (simp add: open_devices_def loaded_system_def loaded_def write_test_open_def read_test_open_def
        write_persistence_open_def read_persistence_open_def)
  ultimately show ?thesis using m(1,2) by auto
qed

lemma program_starts:
  assumes "load_granted api k" and "copies_ok ctu cfu buffer" and "store_ready M sr sw ok db view e w"
    and "open_stores M sr sw e w = Inr (True, sr', sw', e', w')"
  shows "\<exists>s. start_program api j k M sr sw e w = Inr (True, sr', sw', s) \<and> quiet s
    \<and> sys_inv M sw' sr' ok db view ctu cfu buffer (stored_before db w) s"
proof -
  have st: "storage_inv M sr' ok db view (e', w')" "storage_inv M sw' ok db view (e', w')" "db w' = db w"
    using open_stores_ready [OF _ _ _ _ _ assms(4)] assms(3) unfolding store_ready_def by blast+
  have same: "stored_before db w' = stored_before db w" using st(3) by (simp add: stored_before_def)
  have "msgs_ok (stored_before db w')" using assms(3) same by (simp add: store_ready_def)
  from load_starts [OF assms(1,2) st(2,1) this, of j] obtain m where
    m: "paxos_persistence_init api j (unloaded k) = Inr (0, m)" "quiet (loaded_system m e' w')"
      "fst (open_devices (loaded_system m e' w'))" and
    inv: "sys_inv M sw' sr' ok db view ctu cfu buffer (stored_before db w') (loaded_system m e' w')" by blast
  from m(3) obtain s where s: "open_devices (loaded_system m e' w') = (True, s)"
    by (cases "open_devices (loaded_system m e' w')") simp
  have "start_program api j k M sr sw e w = Inr (True, sr', sw', s)"
    using m(1) assms(4) s by (simp add: start_program_def)
  with open_devices_keeps [OF inv s] m(2) same show ?thesis by simp
qed

lemma demo_load: "load_granted demo_api good_env"
  using alloc_all_good good_env_threads demo_registered by (simp add: load_granted_def)

lemma demo_copies: "copies_ok plain_to_user plain_from_user (replicate 244 0)"
  using demo_rt_inv by (simp add: copies_ok_def rt_inv_def rp_inv_def)

lemma demo_store: "store_ready (demo_lmdb False) demo_handle demo_handle demo_idle fst demo_view
    demo_uenv (Map.empty, None)"
  using demo_opening demo_uenv_ok
  by (simp add: store_ready_def db_wf_def msgs_ok_def stored_before_def contents_def clean_stacks_def demo_handle_def)

abbreviation demo_start :: "cerror + bool \<times> lmdb_storage \<times> lmdb_storage \<times> demo_world system" where
  "demo_start \<equiv> start_program demo_api demo_junk good_env (demo_lmdb False) demo_handle demo_handle demo_uenv
     (Map.empty, None)"

section \<open>Properties\<close>





end
