(* ===== verification/Process_Stop.thy ===== *)
theory Process_Stop
  imports Thread_Steps
begin

text \<open>
  The end of the storage process (\<open>kpaxos/user_storage.c\<close>): an interrupt sets \<open>stop\<close>, each thread
  looks at it at the head of its loop, closes its store and its device, and \<open>run\<close> has joined
  both. The rounds of the threads are those of \<open>Thread_Steps\<close>.
\<close>

section \<open>The process\<close>

text \<open>A thread is at the head of its loop, in a round, or has left.\<close>

datatype loop_stage = Loop_head | In_round | Left

record 'w storage_process =
  th :: "'w threads"
  stop_set :: bool
  w_loop :: loop_stage
  r_loop :: loop_stage

definition stop_threads :: "'w storage_process \<Rightarrow> 'w storage_process" where
  "stop_threads p = p\<lparr>stop_set := True\<rparr>"

definition run_threads :: "'w system \<Rightarrow> 'w storage_process" where
  "run_threads s = \<lparr>th = at_rest s, stop_set = False, w_loop = Loop_head, r_loop = Loop_head\<rparr>"

text \<open>Behind the loop: the store is closed, then the device.\<close>

definition writer_leaves :: "'w lmdb_api \<Rightarrow> lmdb_storage \<Rightarrow> 'w system \<Rightarrow> cerror + 'w system" where
  "writer_leaves M sw s =
     bindR (lmdb_storage_close M sw (sys_db s)) (\<lambda>w.
     Inr (s\<lparr>sys_db := w, sys_wp := snd (write_persistence_release (sys_wp s))\<rparr>))"

definition reader_leaves :: "'w lmdb_api \<Rightarrow> lmdb_storage \<Rightarrow> 'w system \<Rightarrow> cerror + 'w system" where
  "reader_leaves M sr s =
     bindR (lmdb_storage_close M sr (sys_db s)) (\<lambda>w.
     Inr (s\<lparr>sys_db := w, sys_rt := (sys_rt s)\<lparr>rp := snd (read_persistence_release (rp (sys_rt s)))\<rparr>\<rparr>))"

text \<open>The steps: the interrupt; a thread that finds \<open>stop\<close> not set and polls, whose \<open>poll\<close> times out,
  that goes on with its round, that finds \<open>stop\<close> set and leaves; and everybody else.\<close>

datatype process_event =
    Sigint | Poll_w | Poll_r | Timeout_w | Timeout_r | Round_w thread_event | Round_r thread_event
  | Leave_w | Leave_r | Outer sys_event

inductive process_step ::
  "'w lmdb_api \<Rightarrow> lmdb_storage \<Rightarrow> lmdb_storage \<Rightarrow> to_user \<Rightarrow> from_user \<Rightarrow> umem
   \<Rightarrow> 'w storage_process \<Rightarrow> process_event \<Rightarrow> 'w storage_process \<Rightarrow> bool"
  for M sw sr ctu cfu buffer where
  Sigint: "process_step M sw sr ctu cfu buffer p Sigint (stop_threads p)"
| Poll_w: "w_loop p = Loop_head \<Longrightarrow> \<not> stop_set p \<Longrightarrow>
    process_step M sw sr ctu cfu buffer p Poll_w (p\<lparr>w_loop := In_round\<rparr>)"
| Poll_r: "r_loop p = Loop_head \<Longrightarrow> \<not> stop_set p \<Longrightarrow>
    process_step M sw sr ctu cfu buffer p Poll_r (p\<lparr>r_loop := In_round\<rparr>)"
| Timeout_w: "w_loop p = In_round \<Longrightarrow> th_writer (th p) = Writer_idle \<Longrightarrow>
    write_persistence_poll (sys_wp (th_sys (th p))) \<noteq> 1 \<Longrightarrow>
    process_step M sw sr ctu cfu buffer p Timeout_w (p\<lparr>w_loop := Loop_head\<rparr>)"
| Timeout_r: "r_loop p = In_round \<Longrightarrow> th_reader (th p) = Reader_idle \<Longrightarrow>
    read_persistence_poll (rp (sys_rt (th_sys (th p)))) \<noteq> 1 \<Longrightarrow>
    process_step M sw sr ctu cfu buffer p Timeout_r (p\<lparr>r_loop := Loop_head\<rparr>)"
| Round_w: "w_loop p = In_round \<Longrightarrow> ev = Receive \<or> ev = Store \<Longrightarrow>
    thread_step M sw sr ctu cfu buffer (th p) ev f \<Longrightarrow>
    process_step M sw sr ctu cfu buffer p (Round_w ev)
      (p\<lparr>th := f, w_loop := (if ev = Store then Loop_head else In_round)\<rparr>)"
| Round_r: "r_loop p = In_round \<Longrightarrow> ev = Receive_query \<or> ev = Look_up \<or> ev = Send_out \<Longrightarrow>
    thread_step M sw sr ctu cfu buffer (th p) ev f \<Longrightarrow>
    process_step M sw sr ctu cfu buffer p (Round_r ev)
      (p\<lparr>th := f, r_loop := (if ev = Send_out then Loop_head else In_round)\<rparr>)"
| Leave_w: "w_loop p = Loop_head \<Longrightarrow> stop_set p \<Longrightarrow> writer_leaves M sw (th_sys (th p)) = Inr s \<Longrightarrow>
    process_step M sw sr ctu cfu buffer p Leave_w (p\<lparr>th := (th p)\<lparr>th_sys := s\<rparr>, w_loop := Left\<rparr>)"
| Leave_r: "r_loop p = Loop_head \<Longrightarrow> stop_set p \<Longrightarrow> reader_leaves M sr (th_sys (th p)) = Inr s \<Longrightarrow>
    process_step M sw sr ctu cfu buffer p Leave_r (p\<lparr>th := (th p)\<lparr>th_sys := s\<rparr>, r_loop := Left\<rparr>)"
| Outer: "thread_step M sw sr ctu cfu buffer (th p) (Other ev) f \<Longrightarrow>
    process_step M sw sr ctu cfu buffer p (Outer ev) (p\<lparr>th := f\<rparr>)"

inductive process_run ::
  "'w lmdb_api \<Rightarrow> lmdb_storage \<Rightarrow> lmdb_storage \<Rightarrow> to_user \<Rightarrow> from_user \<Rightarrow> umem
   \<Rightarrow> 'w storage_process \<Rightarrow> process_event list \<Rightarrow> 'w storage_process \<Rightarrow> bool"
  for M sw sr ctu cfu buffer p0 where
  start: "process_run M sw sr ctu cfu buffer p0 [] p0"
| further: "process_run M sw sr ctu cfu buffer p0 tr p \<Longrightarrow> process_step M sw sr ctu cfu buffer p ev p' \<Longrightarrow>
    process_run M sw sr ctu cfu buffer p0 (tr @ [ev]) p'"

text \<open>The steps of the threads themselves, and how many a stopped process has left at most: a
  thread that has polled finishes the round that may follow.\<close>

fun own :: "process_event \<Rightarrow> bool" where
  "own Sigint = False"
| "own (Outer ev) = False"
| "own ev = True"

fun writer_left :: "loop_stage \<Rightarrow> writer_stage \<Rightarrow> nat" where
  "writer_left Left stage = 0"
| "writer_left Loop_head stage = 1"
| "writer_left In_round Writer_idle = 3"
| "writer_left In_round (Got len m) = 2"

fun reader_left :: "loop_stage \<Rightarrow> reader_stage \<Rightarrow> nat" where
  "reader_left Left stage = 0"
| "reader_left Loop_head stage = 1"
| "reader_left In_round Reader_idle = 4"
| "reader_left In_round (Asked len m) = 3"
| "reader_left In_round (Found out) = 2"

definition steps_left :: "'w storage_process \<Rightarrow> nat" where
  "steps_left p = writer_left (w_loop p) (th_writer (th p)) + reader_left (r_loop p) (th_reader (th p))"

section \<open>A stopped process runs down\<close>

lemma other_keeps_stages:
  "thread_step M sw sr ctu cfu buffer f (Other ev) f' \<Longrightarrow> th_writer f' = th_writer f \<and> th_reader f' = th_reader f"
  by (auto elim: thread_step.cases)

lemma writer_keeps_reader:
  "thread_step M sw sr ctu cfu buffer f ev f' \<Longrightarrow> ev = Receive \<or> ev = Store \<Longrightarrow> th_reader f' = th_reader f"
  by (auto elim: thread_step.cases)

lemma reader_keeps_writer:
  "thread_step M sw sr ctu cfu buffer f ev f' \<Longrightarrow> ev = Receive_query \<or> ev = Look_up \<or> ev = Send_out \<Longrightarrow>
   th_writer f' = th_writer f"
  by (auto elim: thread_step.cases)

lemma writer_round_left:
  assumes "thread_step M sw sr ctu cfu buffer f ev f'" and "ev = Receive \<or> ev = Store"
  shows "writer_left (if ev = Store then Loop_head else In_round) (th_writer f') < writer_left In_round (th_writer f)"
  using assms by cases auto

lemma reader_round_left:
  assumes "thread_step M sw sr ctu cfu buffer f ev f'" and "ev = Receive_query \<or> ev = Look_up \<or> ev = Send_out"
  shows "reader_left (if ev = Send_out then Loop_head else In_round) (th_reader f') < reader_left In_round (th_reader f)"
  using assms by cases auto

lemma own_step_left:
  assumes "process_step M sw sr ctu cfu buffer p ev p'" and "stop_set p"
  shows "stop_set p' \<and> of_bool (own ev) + steps_left p' \<le> steps_left p"
  using assms(1)
proof cases
  case (Round_w t f)
  from writer_round_left [OF Round_w(5,4)] writer_keeps_reader [OF Round_w(5,4)] Round_w(1-3) assms(2)
  show ?thesis by (simp add: steps_left_def)
next
  case (Round_r t f)
  from reader_round_left [OF Round_r(5,4)] reader_keeps_writer [OF Round_r(5,4)] Round_r(1-3) assms(2)
  show ?thesis by (simp add: steps_left_def)
next
  case (Outer t f)
  with other_keeps_stages [OF Outer(3)] assms(2) show ?thesis by (simp add: steps_left_def)
qed (use assms(2) in \<open>simp_all add: steps_left_def stop_threads_def\<close>)

lemma stopped_runs_down:
  assumes "process_run M sw sr ctu cfu buffer p tr p'" and "stop_set p"
  shows "stop_set p' \<and> length (filter own tr) + steps_left p' \<le> steps_left p"
  using assms
proof (induction rule: process_run.induct)
  case (further tr p1 ev p2)
  from own_step_left [OF further.hyps(2)] further.IH [OF further.prems] show ?case by (cases "own ev") auto
qed simp

lemma steps_left_bound: "steps_left p \<le> 7"
proof -
  have "writer_left l t \<le> 3" for l t by (cases "(l, t)" rule: writer_left.cases) simp_all
  moreover have "reader_left l t \<le> 4" for l t by (cases "(l, t)" rule: reader_left.cases) simp_all
  ultimately have "steps_left p \<le> 3 + 4" unfolding steps_left_def by (rule add_mono)
  then show ?thesis by simp
qed

lemma steps_left_none: "steps_left p = 0 \<longleftrightarrow> w_loop p = Left \<and> r_loop p = Left"
proof -
  have "writer_left l t = 0 \<longleftrightarrow> l = Left" for l t by (cases "(l, t)" rule: writer_left.cases) simp_all
  moreover have "reader_left l t = 0 \<longleftrightarrow> l = Left" for l t by (cases "(l, t)" rule: reader_left.cases) simp_all
  ultimately show ?thesis by (simp add: steps_left_def)
qed

section \<open>What the threads hold between their steps\<close>

definition writer_holds :: "message set \<Rightarrow> writer_stage \<Rightarrow> bool" where
  "writer_holds W stage \<longleftrightarrow>
     (case stage of
        Writer_idle \<Rightarrow> True
      | Got len m \<Rightarrow> len \<noteq> 0 \<and> (\<exists>i a v rest. recv_block m = received i (a, v) rest
          \<and> message_good (a, v) \<and> (strip a, v) \<in> W))"

definition reader_holds :: "to_user \<Rightarrow> umem \<Rightarrow> message set \<Rightarrow> paxos_kernel_device \<Rightarrow> reader_stage \<Rightarrow> bool" where
  "reader_holds ctu buffer W dev stage \<longleftrightarrow>
     (case stage of
        Reader_idle \<Rightarrow> True
      | Asked len m \<Rightarrow> asked ctu buffer len m dev
      | Found out \<Rightarrow> queued dev \<noteq> [] \<and> (\<exists>a v pad sz. out = [(Live (reply_bytes (first_buf dev) a v @ pad), sz)]
          \<and> reply_ok a v \<and> (v \<noteq> [] \<longrightarrow> (strip a, v) \<in> W)))"

lemma idle_holds [simp]: "writer_holds W Writer_idle" "reader_holds ctu buffer W dev Reader_idle"
  by (simp_all add: writer_holds_def reader_holds_def)

lemma writer_holds_mono: "writer_holds W t \<Longrightarrow> W \<subseteq> W' \<Longrightarrow> writer_holds W' t"
  by (auto simp: writer_holds_def split: writer_stage.splits)

lemma reader_holds_mono: "reader_holds ctu buffer W dev t \<Longrightarrow> W \<subseteq> W' \<Longrightarrow> reader_holds ctu buffer W' dev t"
  by (cases t) (simp_all add: reader_holds_def, blast)

text \<open>
  The library and the process with some of the two handles closed: \<open>ok a b\<close> says that no
  transaction is open, and that the environment of the writer (\<open>a\<close>) and of the reader (\<open>b\<close>) is
  open. A handle obeys the laws as long as it is open, and closing it changes nothing that is
  stored.
\<close>

definition two_handles ::
  "'w lmdb_api \<Rightarrow> lmdb_storage \<Rightarrow> lmdb_storage \<Rightarrow> (bool \<Rightarrow> bool \<Rightarrow> 'w \<Rightarrow> bool) \<Rightarrow> ('w \<Rightarrow> byte list \<rightharpoonup> byte list)
   \<Rightarrow> ('w \<Rightarrow> u64 \<Rightarrow> (byte list \<rightharpoonup> byte list) option) \<Rightarrow> bool" where
  "two_handles M sw sr ok db view \<longleftrightarrow>
     st_txn sw = 0 \<and> st_txn sr = 0
     \<and> (\<forall>b. lmdb_laws M (st_env sw) (st_dbi sw) (ok True b) db view)
     \<and> (\<forall>a. lmdb_laws M (st_env sr) (st_dbi sr) (ok a True) db view)
     \<and> (\<forall>b w. ok True b w \<longrightarrow> (\<exists>w'. lmdb_storage_close M sw w = Inr w' \<and> ok False b w' \<and> db w' = db w))
     \<and> (\<forall>a w. ok a True w \<longrightarrow> (\<exists>w'. lmdb_storage_close M sr w = Inr w' \<and> ok a False w' \<and> db w' = db w))"

definition process_inv ::
  "(bool \<Rightarrow> bool \<Rightarrow> 'w \<Rightarrow> bool) \<Rightarrow> ('w \<Rightarrow> byte list \<rightharpoonup> byte list) \<Rightarrow> to_user \<Rightarrow> from_user \<Rightarrow> umem \<Rightarrow> message set
   \<Rightarrow> 'w storage_process \<Rightarrow> bool" where
  "process_inv ok db ctu cfu buffer W p \<longleftrightarrow>
     dev_inv db ctu cfu buffer W (th_sys (th p))
     \<and> ok (w_loop p \<noteq> Left) (r_loop p \<noteq> Left) (sys_db (th_sys (th p)))
     \<and> mallocs_ok (sys_mem (th_sys (th p))) \<and> db_wf (db (sys_db (th_sys (th p))))
     \<and> writer_holds W (th_writer (th p)) \<and> reader_holds ctu buffer W (rp (sys_rt (th_sys (th p)))) (th_reader (th p))
     \<and> (w_loop p \<noteq> In_round \<longrightarrow> th_writer (th p) = Writer_idle)
     \<and> (r_loop p \<noteq> In_round \<longrightarrow> th_reader (th p) = Reader_idle)"

lemma handles_storage:
  assumes "two_handles M sw sr ok db view" and "ok a b w" and "mallocs_ok e" and "db_wf (db w)"
  shows "a \<Longrightarrow> storage_inv M sw (ok a b) db view (e, w)" and "b \<Longrightarrow> storage_inv M sr (ok a b) db view (e, w)"
  using assms by (auto simp: two_handles_def storage_inv_def)

lemma storage_world: "storage_inv M s ok db view (e, w) \<Longrightarrow> ok w \<and> mallocs_ok e \<and> db_wf (db w)"
  by (simp add: storage_inv_def)

section \<open>The parts of a round, with one handle\<close>

lemma receive_round:
  assumes "wp_inv ctu buffer W wp" and "write_persistence_poll wp = 1"
  shows "\<exists>len m wp'. write_persistence_read ctu buffer wp = Inr (len, m, wp') \<and> writer_holds W (Got len m)
    \<and> wp_inv ctu buffer W wp'"
  using write_receives [OF assms] by (fastforce simp: writer_holds_def)

lemma store_round:
  assumes "writer_holds W (Got len m)" and "storage_inv M s ok db view (e, w)"
    and "\<forall>i m. contents (db w) i = Some m \<longrightarrow> m \<in> W \<and> iid (fst m) = i"
  shows "store_message M s len m e w = Inl AssertFailed
    \<or> (\<exists>e1 w1. store_message M s len m e w = Inr (e1, w1) \<and> storage_inv M s ok db view (e1, w1)
         \<and> (\<forall>i m. contents (db w1) i = Some m \<longrightarrow> m \<in> W \<and> iid (fst m) = i))"
proof -
  from assms(1) obtain i a v rest where m: "len \<noteq> 0" "recv_block m = received i (a, v) rest"
    "message_good (a, v)" "(strip a, v) \<in> W" by (auto simp: writer_holds_def)
  let ?h = "handle_message M False s (Live ()) (received i (a, v) rest) e w"
  have t: "store_message M s len m e w = bindR ?h (\<lambda>(out, e1, w1). Inr (e1, w1))"
    using m(1,2) by (cases ?h) (auto simp: store_message_def storage_round_def)
  from handle_write [OF assms(2) m(3), of "()" i rest] show ?thesis
  proof
    assume "?h = Inl AssertFailed"
    with t show ?thesis by simp
  next
    assume "\<exists>b e1 w1. ?h = Inr ([], e1, w1) \<and> storage_inv M s ok db view (e1, w1) \<and> contents (db w1) =
      (if b then (contents (db w))(iid (fst (a, v)) \<mapsto> (strip (fst (a, v)), snd (a, v))) else contents (db w))"
    then obtain b e1 w1 where h: "?h = Inr ([], e1, w1)" "storage_inv M s ok db view (e1, w1)"
      "contents (db w1) = (if b then (contents (db w))(iid a \<mapsto> (strip a, v)) else contents (db w))"
      unfolding fst_conv snd_conv by blast
    from stored_keeps [OF assms(3) m(4) h(3)] h(1,2) t show ?thesis by simp
  qed
qed

lemma lookup_round:
  assumes "rq_inv ctu cfu buffer W dev" and "asked ctu buffer len m dev" and "storage_inv M s ok db view (e, w)"
    and "msgs_ok W" and "\<forall>i m. contents (db w) i = Some m \<longrightarrow> m \<in> W \<and> iid (fst m) = i"
  shows "\<exists>out e1 w1. look_up M s len m e w = Inr (out, e1, w1) \<and> storage_inv M s ok db view (e1, w1) \<and> db w1 = db w
    \<and> reader_holds ctu buffer W dev (Found out)"
proof -
  have rpi: "rp_inv ctu cfu buffer dev" using assms(1) by (simp add: rq_inv_def)
  have ne: "queued dev \<noteq> []" using assms(2) oldest_polls [OF rpi] by (simp add: asked_def)
  obtain n where n: "ring_ok n dev" using rpi by (auto simp: rp_inv_def elim: channel_okE)
  have pos: "0 < n" using ne ring_ok_used(3) [OF n] by auto
  have c: "\<forall>i m. contents (db w) i = Some m \<longrightarrow> m \<in> W" using assms(5) by blast
  from lookup_answer [OF assms(1) n pos assms(3,4) c] obtain mem a v pad sz e1 w1 where
    r: "read_persistence_read ctu buffer dev = Inr (44, mem)" and h: "handle_message M True s (Live ()) (recv_block mem) e w =
        Inr ([(Live (reply_bytes (first_buf dev) a v @ pad), sz)], e1, w1)"
    and st: "storage_inv M s ok db view (e1, w1)" "db w1 = db w" and rok: "reply_ok a v"
    and W: "v \<noteq> [] \<longrightarrow> (strip a, v) \<in> W" by blast
  have "len = 44" "m = mem" using r assms(2) by (simp_all add: asked_def)
  with h have "look_up M s len m e w = Inr ([(Live (reply_bytes (first_buf dev) a v @ pad), sz)], e1, w1)"
    by (simp add: look_up_def storage_round_def)
  with st ne rok W show ?thesis by (auto simp: reader_holds_def)
qed

lemma send_round:
  assumes "rq_inv ctu cfu buffer W dev" and "reader_holds ctu buffer W dev (Found out)"
  shows "\<exists>d. send_out cfu out dev = Inr d \<and> rq_inv ctu cfu buffer W d"
proof -
  have rpi: "rp_inv ctu cfu buffer dev" using assms(1) by (simp add: rq_inv_def)
  obtain n where n: "ring_ok n dev" using rpi by (auto simp: rp_inv_def elim: channel_okE)
  from assms(2) obtain a v pad sz where out: "out = [(Live (reply_bytes (first_buf dev) a v @ pad), sz)]"
    and rok: "reply_ok a v" and W: "v \<noteq> [] \<longrightarrow> (strip a, v) \<in> W" and ne: "queued dev \<noteq> []"
    by (auto simp: reader_holds_def)
  have bo: "buffers_ok dev" and f: "first_buf dev < BUFFER_SIZE" using n by (simp_all add: ring_ok_def)
  have "send_out cfu out dev = Inr (answered (first_buf dev) a v dev)"
    using read_write_answers [OF bo f _ _ rok, of cfu pad "sint sz"] rpi out
    by (simp add: send_out_def user_block_def rp_inv_def)
  moreover have "0 < n" using ne ring_ok_used(3) [OF n] by auto
  then have "rq_inv ctu cfu buffer W (answered (first_buf dev) a v dev)"
    using answered_rq_inv [OF assms(1) n _ rok] W by blast
  ultimately show ?thesis by blast
qed

section \<open>Everybody outside the process\<close>

lemma outer_event:
  assumes "thread_step M sw sr ctu cfu buffer f (Other ev) f'"
  shows "sys_step M sw sr ctu cfu buffer (th_sys f) ev (th_sys f') \<and> ev \<noteq> Save \<and> ev \<noteq> Reply
    \<and> (write_event ev \<or> query_event ev)"
  using assms by cases auto

text \<open>A message that is written does not touch the query side; a query or a work leaves what the
  reader holds.\<close>

lemma reader_holds_kept:
  assumes "sys_step M sw sr ctu cfu buffer s ev s'" and "write_event ev \<or> query_event ev"
    and "rt_inv ctu cfu buffer (sys_rt s)" and "reader_holds ctu buffer W (rp (sys_rt s)) t"
  shows "reader_holds ctu buffer W (rp (sys_rt s')) t"
proof (cases "write_event ev")
  case True
  from write_side_step [OF assms(1) write_event_side [OF this]] have "sys_rt s' = sys_rt s" by blast
  with assms(4) show ?thesis by simp
next
  case False
  then have q: "query_event ev" using assms(2) by blast
  from asked_kept [OF assms(1) q assms(3)] oldest_stays [OF assms(1) q assms(3)] assms(4)
  show ?thesis by (cases t) (auto simp: reader_holds_def)
qed

lemma outer_keeps:
  assumes "thread_step M sw sr ctu cfu buffer (th p) (Other ev) f" and "process_inv ok db ctu cfu buffer W p"
  shows "process_inv ok db ctu cfu buffer (W \<union> written [ev]) (p\<lparr>th := f\<rparr>)"
proof -
  note e = outer_event [OF assms(1)]
  have inv: "dev_inv db ctu cfu buffer W (th_sys (th p))"
    "reader_holds ctu buffer W (rp (sys_rt (th_sys (th p)))) (th_reader (th p))" "writer_holds W (th_writer (th p))"
    using assms(2) by (simp_all add: process_inv_def)
  have "rt_inv ctu cfu buffer (sys_rt (th_sys (th p)))" using inv(1) by (simp add: dev_inv_def)
  then have "reader_holds ctu buffer W (rp (sys_rt (th_sys f))) (th_reader (th p))"
    using reader_holds_kept [of M sw sr ctu cfu buffer _ ev] e inv(2) by blast
  then have "reader_holds ctu buffer (W \<union> written [ev]) (rp (sys_rt (th_sys f))) (th_reader (th p))"
    by (rule reader_holds_mono) blast
  moreover have "writer_holds (W \<union> written [ev]) (th_writer (th p))" using inv(3) by (rule writer_holds_mono) blast
  moreover have "dev_inv db ctu cfu buffer (W \<union> written [ev]) (th_sys f) \<and> sys_mem (th_sys f) = sys_mem (th_sys (th p))
      \<and> sys_db (th_sys f) = sys_db (th_sys (th p))" using outer_step_keeps [OF _ inv(1)] e by blast
  ultimately show ?thesis using assms(2) other_keeps_stages [OF assms(1)] by (simp add: process_inv_def)
qed

section \<open>Leaving\<close>

text \<open>Closing a device empties its ring: what was still queued is dropped.\<close>

lemma released_ring:
  assumes "ring_ok n dev"
  shows "ring_ok 0 (dev\<lparr>used_buf := 0, current_buf := 0, first_buf := 0, char_mutex := False\<rparr>)"
    and "queued (dev\<lparr>used_buf := 0, current_buf := 0, first_buf := 0, char_mutex := False\<rparr>) = []"
proof -
  let ?d = "dev\<lparr>used_buf := 0, current_buf := 0, first_buf := 0, char_mutex := False\<rparr>"
  have "slots_of ?d = slots_of dev" "callbacks_of ?d = callbacks_of dev"
    by (simp_all add: slots_of_def slot_block_def callbacks_of_def)
  then have "buffers_ok ?d" using assms by (simp add: ring_ok_def buffers_ok_def)
  then show "ring_ok 0 ?d" by (simp add: ring_ok_def BUFFER_SIZE_def)
  then show "queued ?d = []" using ring_ok_used(3) by fastforce
qed

lemma released_write:
  assumes "wp_inv ctu buffer W wp"
  shows "wp_inv ctu buffer W (snd (write_persistence_release wp))" and "frames (snd (write_persistence_release wp)) = []"
proof -
  let ?d = "snd (write_persistence_release wp)"
  have wi: "write_inv ctu buffer wp" using assms by (simp add: wp_inv_def)
  then obtain n where n: "ring_ok n wp" by (auto simp: write_inv_def elim: channel_okE)
  have d: "?d = wp\<lparr>used_buf := 0, current_buf := 0, first_buf := 0, char_mutex := False\<rparr>"
    by (simp add: write_persistence_release_def)
  have "ring_ok 0 ?d" and q: "queued ?d = []" using released_ring [OF n] unfolding d by simp_all
  then have "channel_ok ?d" by (auto simp: channel_ok_def)
  with wi have "write_inv ctu buffer ?d" by (simp add: write_inv_def d)
  with q show "wp_inv ctu buffer W ?d" and "frames ?d = []" by (simp_all add: wp_inv_def frames_def)
qed

lemma released_read:
  assumes "rq_inv ctu cfu buffer W dev"
  shows "rq_inv ctu cfu buffer W (snd (read_persistence_release dev))"
    and "queued (snd (read_persistence_release dev)) = []"
proof -
  let ?d = "snd (read_persistence_release dev)"
  have rpi: "rp_inv ctu cfu buffer dev" using assms by (simp add: rq_inv_def)
  then obtain n where n: "ring_ok n dev" by (auto simp: rp_inv_def elim: channel_okE)
  have d: "?d = dev\<lparr>used_buf := 0, current_buf := 0, first_buf := 0, char_mutex := False\<rparr>"
    by (cases dev) (simp add: read_persistence_release_def)
  have "ring_ok 0 ?d" and q: "queued ?d = []" using released_ring [OF n] unfolding d by simp_all
  then have "channel_ok ?d" by (auto simp: channel_ok_def)
  with rpi have "rp_inv ctu cfu buffer ?d" by (simp add: rp_inv_def d)
  moreover have "responses_in W ?d" using assms by (simp add: rq_inv_def responses_in_def d callbacks_of_def)
  ultimately show "rq_inv ctu cfu buffer W ?d" and "queued ?d = []" using q by (simp_all add: rq_inv_def)
qed

lemma writer_leaves_keeps:
  assumes "two_handles M sw sr ok db view" and "process_inv ok db ctu cfu buffer W p" and "w_loop p = Loop_head"
  shows "\<exists>s. writer_leaves M sw (th_sys (th p)) = Inr s \<and> db (sys_db s) = db (sys_db (th_sys (th p)))
    \<and> frames (sys_wp s) = [] \<and> process_inv ok db ctu cfu buffer W (p\<lparr>th := (th p)\<lparr>th_sys := s\<rparr>, w_loop := Left\<rparr>)"
proof -
  let ?s = "th_sys (th p)"
  have wp: "wp_inv ctu buffer W (sys_wp ?s)" and k: "ok True (r_loop p \<noteq> Left) (sys_db ?s)"
    using assms(2,3) by (simp_all add: process_inv_def dev_inv_def)
  obtain w where w: "lmdb_storage_close M sw (sys_db ?s) = Inr w" "ok False (r_loop p \<noteq> Left) w" "db w = db (sys_db ?s)"
    using assms(1) k unfolding two_handles_def by blast
  with released_write [OF wp] assms(2,3) show ?thesis
    by (simp add: writer_leaves_def process_inv_def dev_inv_def)
qed

lemma reader_leaves_keeps:
  assumes "two_handles M sw sr ok db view" and "process_inv ok db ctu cfu buffer W p" and "r_loop p = Loop_head"
  shows "\<exists>s. reader_leaves M sr (th_sys (th p)) = Inr s \<and> db (sys_db s) = db (sys_db (th_sys (th p)))
    \<and> queued (rp (sys_rt s)) = [] \<and> process_inv ok db ctu cfu buffer W (p\<lparr>th := (th p)\<lparr>th_sys := s\<rparr>, r_loop := Left\<rparr>)"
proof -
  let ?s = "th_sys (th p)"
  have rq: "rq_inv ctu cfu buffer W (rp (sys_rt ?s))" and rt: "rt_inv ctu cfu buffer (sys_rt ?s)"
    and k: "ok (w_loop p \<noteq> Left) True (sys_db ?s)"
    using assms(2,3) by (simp_all add: process_inv_def dev_inv_def)
  obtain w where w: "lmdb_storage_close M sr (sys_db ?s) = Inr w" "ok (w_loop p \<noteq> Left) False w" "db w = db (sys_db ?s)"
    using assms(1) k unfolding two_handles_def by blast
  have "rp_inv ctu cfu buffer (snd (read_persistence_release (rp (sys_rt ?s))))"
    using released_read(1) [OF rq] by (simp add: rq_inv_def)
  with w released_read [OF rq] rt assms(2,3) show ?thesis
    by (simp add: reader_leaves_def process_inv_def dev_inv_def rt_inv_def reader_holds_def)
qed

section \<open>The rounds keep the invariant and go on\<close>

lemma writer_round_keeps:
  assumes "two_handles M sw sr ok db view" and "process_inv ok db ctu cfu buffer W p" and "w_loop p = In_round"
    and "thread_step M sw sr ctu cfu buffer (th p) ev f" and "ev = Receive \<or> ev = Store"
  shows "process_inv ok db ctu cfu buffer W (p\<lparr>th := f, w_loop := (if ev = Store then Loop_head else In_round)\<rparr>)"
  using assms(4)
proof cases
  case (Receive s len m wp rs)
  have "wp_inv ctu buffer W (sys_wp s)" using assms(2) Receive(1) by (simp add: process_inv_def dev_inv_def)
  from receive_round [OF this Receive(4)] Receive(5) have "writer_holds W (Got len m)" "wp_inv ctu buffer W wp" by auto
  with assms(2,3) Receive(1-3) show ?thesis by (simp add: process_inv_def dev_inv_def)
next
  case (Store len m s e w rs)
  let ?b = "r_loop p \<noteq> Left"
  have inv: "ok True ?b (sys_db s)" "mallocs_ok (sys_mem s)" "db_wf (db (sys_db s))" "writer_holds W (Got len m)"
    "\<forall>i m. contents (db (sys_db s)) i = Some m \<longrightarrow> m \<in> W \<and> iid (fst m) = i"
    using assms(2,3) Store(1) unfolding process_inv_def dev_inv_def by simp_all
  note st = handles_storage(1) [OF assms(1) inv(1-3) TrueI]
  from store_round [OF inv(4) st inv(5)] Store(4) have "storage_inv M sw (ok True ?b) db view (e, w)"
    "\<forall>i m. contents (db w) i = Some m \<longrightarrow> m \<in> W \<and> iid (fst m) = i" by auto
  with storage_world [OF this(1)] assms(2,3) Store(1-3) show ?thesis
    by (simp add: process_inv_def dev_inv_def writer_holds_def)
qed (use assms(5) in simp_all)

lemma reader_round_keeps:
  assumes "two_handles M sw sr ok db view" and "process_inv ok db ctu cfu buffer W p" and "r_loop p = In_round"
    and "thread_step M sw sr ctu cfu buffer (th p) ev f" and "ev = Receive_query \<or> ev = Look_up \<or> ev = Send_out"
  shows "process_inv ok db ctu cfu buffer W (p\<lparr>th := f, r_loop := (if ev = Send_out then Loop_head else In_round)\<rparr>)"
  using assms(4)
proof cases
  case (Receive_query s len m ws)
  with assms(2,3) show ?thesis by (simp add: process_inv_def dev_inv_def reader_holds_def asked_def)
next
  case (Look_up len m s out e w ws)
  let ?a = "w_loop p \<noteq> Left"
  have inv: "ok ?a True (sys_db s)" "mallocs_ok (sys_mem s)" "db_wf (db (sys_db s))" "msgs_ok W"
    "rq_inv ctu cfu buffer W (rp (sys_rt s))" "asked ctu buffer len m (rp (sys_rt s))"
    "\<forall>i m. contents (db (sys_db s)) i = Some m \<longrightarrow> m \<in> W \<and> iid (fst m) = i"
    using assms(2,3) Look_up(1) unfolding process_inv_def dev_inv_def reader_holds_def by simp_all
  note st = handles_storage(2) [OF assms(1) inv(1-3) TrueI]
  from lookup_round [OF inv(5,6) st inv(4,7)] Look_up(4) have "storage_inv M sr (ok ?a True) db view (e, w)"
    "db w = db (sys_db s)" "reader_holds ctu buffer W (rp (sys_rt s)) (Found out)" by auto
  with storage_world [OF this(1)] assms(2,3) Look_up(1-3) show ?thesis by (simp add: process_inv_def dev_inv_def)
next
  case (Send_out out s d ws)
  have inv: "rq_inv ctu cfu buffer W (rp (sys_rt s))" "reader_holds ctu buffer W (rp (sys_rt s)) (Found out)"
    using assms(2) Send_out(1) by (simp_all add: process_inv_def dev_inv_def)
  from send_round [OF this] Send_out(4) have d: "rq_inv ctu cfu buffer W d" by simp
  then have "rp_inv ctu cfu buffer d" by (simp add: rq_inv_def)
  with d assms(2,3) Send_out(1-3) show ?thesis
    by (simp add: process_inv_def dev_inv_def rt_inv_def reader_holds_def)
qed (use assms(5) in simp_all)

text \<open>The messages that are written in a trace of the process.\<close>

fun sent :: "process_event list \<Rightarrow> sys_event list" where
  "sent [] = []"
| "sent (Outer ev # tr) = ev # sent tr"
| "sent (_ # tr) = sent tr"

lemma sent_append: "sent (tr @ tr') = sent tr @ sent tr'"
  by (induction tr rule: sent.induct) simp_all

lemma process_step_keeps:
  assumes "process_step M sw sr ctu cfu buffer p ev p'" and "two_handles M sw sr ok db view"
    and "process_inv ok db ctu cfu buffer W p"
  shows "process_inv ok db ctu cfu buffer (W \<union> written (sent [ev])) p'"
proof -
  have W: "W \<union> written [] = W" by (simp add: written_def)
  from assms(1) show ?thesis
  proof cases
    case (Round_w t f)
    with writer_round_keeps [OF assms(2,3) Round_w(3,5,4)] W show ?thesis by simp
  next
    case (Round_r t f)
    with reader_round_keeps [OF assms(2,3) Round_r(3,5,4)] W show ?thesis by simp
  next
    case (Leave_w s)
    with writer_leaves_keeps [OF assms(2,3) Leave_w(3)] W show ?thesis by auto
  next
    case (Leave_r s)
    with reader_leaves_keeps [OF assms(2,3) Leave_r(3)] W show ?thesis by auto
  next
    case (Outer t f)
    with outer_keeps [OF Outer(3) assms(3)] show ?thesis by simp
  qed (use assms(3) W in \<open>simp_all add: process_inv_def stop_threads_def\<close>)
qed

lemma process_run_keeps:
  assumes "process_run M sw sr ctu cfu buffer p0 tr p" and "two_handles M sw sr ok db view"
    and "process_inv ok db ctu cfu buffer W p0"
  shows "process_inv ok db ctu cfu buffer (W \<union> written (sent tr)) p"
  using assms(1)
proof (induction rule: process_run.induct)
  case start
  then show ?case using assms(3) by (simp add: written_def)
next
  case (further tr p ev p')
  from process_step_keeps [OF further.hyps(2) assms(2) further.IH] show ?case
    by (simp add: sent_append written_app Un_assoc)
qed

section \<open>Every thread can go on until it has left\<close>

lemma thread_step_at:
  "th_writer f = Writer_idle \<Longrightarrow> write_persistence_poll (sys_wp (th_sys f)) = 1 \<Longrightarrow>
    write_persistence_read ctu buffer (sys_wp (th_sys f)) = Inr (len, m, wp) \<Longrightarrow>
    \<exists>f'. thread_step M sw sr ctu cfu buffer f Receive f'"
  "th_writer f = Got len m \<Longrightarrow> store_message M sw len m (sys_mem (th_sys f)) (sys_db (th_sys f)) = Inr (e, w) \<Longrightarrow>
    \<exists>f'. thread_step M sw sr ctu cfu buffer f Store f'"
  "th_reader f = Reader_idle \<Longrightarrow> read_persistence_poll (rp (sys_rt (th_sys f))) = 1 \<Longrightarrow>
    read_persistence_read ctu buffer (rp (sys_rt (th_sys f))) = Inr (len, m) \<Longrightarrow>
    \<exists>f'. thread_step M sw sr ctu cfu buffer f Receive_query f'"
  "th_reader f = Asked len m \<Longrightarrow> look_up M sr len m (sys_mem (th_sys f)) (sys_db (th_sys f)) = Inr (out, e, w) \<Longrightarrow>
    \<exists>f'. thread_step M sw sr ctu cfu buffer f Look_up f'"
  "th_reader f = Found out \<Longrightarrow> send_out cfu out (rp (sys_rt (th_sys f))) = Inr d \<Longrightarrow>
    \<exists>f'. thread_step M sw sr ctu cfu buffer f Send_out f'"
  by (cases f; auto intro: thread_step.intros)+

lemma writer_goes_on:
  assumes "two_handles M sw sr ok db view" and "process_inv ok db ctu cfu buffer W p" and "w_loop p \<noteq> Left"
  shows "(\<exists>ev p'. own ev \<and> process_step M sw sr ctu cfu buffer p ev p')
    \<or> (\<exists>len m. th_writer (th p) = Got len m
         \<and> store_message M sw len m (sys_mem (th_sys (th p))) (sys_db (th_sys (th p))) = Inl AssertFailed)"
proof (cases "w_loop p")
  case Loop_head
  with writer_leaves_keeps [OF assms(1,2)] show ?thesis
    by (cases "stop_set p") (force intro: process_step.Leave_w process_step.Poll_w)+
next
  case In_round
  let ?f = "th p" and ?s = "th_sys (th p)"
  have go: ?thesis if "\<exists>f. thread_step M sw sr ctu cfu buffer ?f ev f" "ev = Receive \<or> ev = Store" for ev
    using process_step.Round_w [OF In_round that(2)] that(1) by force
  show ?thesis
  proof (cases "th_writer ?f")
    case Writer_idle
    have wp: "wp_inv ctu buffer W (sys_wp ?s)" using assms(2) by (simp add: process_inv_def dev_inv_def)
    show ?thesis
    proof (cases "write_persistence_poll (sys_wp ?s) = 1")
      case True
      with receive_round [OF wp] obtain len m wp' where "write_persistence_read ctu buffer (sys_wp ?s) = Inr (len, m, wp')"
        by blast
      from thread_step_at(1) [OF Writer_idle True this] show ?thesis by (rule go) simp
    next
      case False
      from process_step.Timeout_w [OF In_round Writer_idle False] show ?thesis by force
    qed
  next
    case (Got len m)
    have inv: "ok True (r_loop p \<noteq> Left) (sys_db ?s)" "mallocs_ok (sys_mem ?s)" "db_wf (db (sys_db ?s))"
      "writer_holds W (Got len m)" "\<forall>i m. contents (db (sys_db ?s)) i = Some m \<longrightarrow> m \<in> W \<and> iid (fst m) = i"
      using assms(2) In_round Got unfolding process_inv_def dev_inv_def by simp_all
    from store_round [OF inv(4) handles_storage(1) [OF assms(1) inv(1-3) TrueI] inv(5)] show ?thesis
    proof
      assume "\<exists>e1 w1. store_message M sw len m (sys_mem ?s) (sys_db ?s) = Inr (e1, w1)
        \<and> storage_inv M sw (ok True (r_loop p \<noteq> Left)) db view (e1, w1)
        \<and> (\<forall>i m. contents (db w1) i = Some m \<longrightarrow> m \<in> W \<and> iid (fst m) = i)"
      then obtain e1 w1 where "store_message M sw len m (sys_mem ?s) (sys_db ?s) = Inr (e1, w1)" by blast
      from thread_step_at(2) [OF Got this] show ?thesis by (rule go) simp
    qed (use Got in blast)
  qed
qed (use assms(3) in simp)

lemma reader_goes_on:
  assumes "two_handles M sw sr ok db view" and "process_inv ok db ctu cfu buffer W p" and "r_loop p \<noteq> Left"
  shows "\<exists>ev p'. own ev \<and> process_step M sw sr ctu cfu buffer p ev p'"
proof (cases "r_loop p")
  case Loop_head
  with reader_leaves_keeps [OF assms(1,2)] show ?thesis
    by (cases "stop_set p") (force intro: process_step.Leave_r process_step.Poll_r)+
next
  case In_round
  let ?f = "th p" and ?s = "th_sys (th p)"
  have go: ?thesis if "\<exists>f. thread_step M sw sr ctu cfu buffer ?f ev f"
    "ev = Receive_query \<or> ev = Look_up \<or> ev = Send_out" for ev
    using process_step.Round_r [OF In_round that(2)] that(1) by force
  have inv: "ok (w_loop p \<noteq> Left) True (sys_db ?s)" "mallocs_ok (sys_mem ?s)" "db_wf (db (sys_db ?s))" "msgs_ok W"
    "rq_inv ctu cfu buffer W (rp (sys_rt ?s))" "reader_holds ctu buffer W (rp (sys_rt ?s)) (th_reader ?f)"
    "\<forall>i m. contents (db (sys_db ?s)) i = Some m \<longrightarrow> m \<in> W \<and> iid (fst m) = i"
    using assms(2) In_round unfolding process_inv_def dev_inv_def by simp_all
  then have rpi: "rp_inv ctu cfu buffer (rp (sys_rt ?s))" by (simp add: rq_inv_def)
  show ?thesis
  proof (cases "th_reader ?f")
    case Reader_idle
    show ?thesis
    proof (cases "read_persistence_poll (rp (sys_rt ?s)) = 1")
      case True
      with oldest_polls [OF rpi] oldest_read [OF rpi] obtain len m where
        "read_persistence_read ctu buffer (rp (sys_rt ?s)) = Inr (len, m)" by auto
      from thread_step_at(3) [OF Reader_idle True this] show ?thesis by (rule go) simp
    next
      case False
      from process_step.Timeout_r [OF In_round Reader_idle False] show ?thesis by force
    qed
  next
    case (Asked len m)
    with inv(6) have "asked ctu buffer len m (rp (sys_rt ?s))" by (simp add: reader_holds_def)
    from lookup_round [OF inv(5) this handles_storage(2) [OF assms(1) inv(1-3) TrueI] inv(4,7)] obtain out e1 w1 where
      "look_up M sr len m (sys_mem ?s) (sys_db ?s) = Inr (out, e1, w1)" by blast
    from thread_step_at(4) [OF Asked this] show ?thesis by (rule go) simp
  next
    case (Found out)
    with send_round [OF inv(5)] inv(6) obtain d where "send_out cfu out (rp (sys_rt ?s)) = Inr d" by auto
    from thread_step_at(5) [OF Found this] show ?thesis by (rule go) simp
  qed
qed (use assms(3) in simp)

section \<open>Properties\<close>

lemma started_process_inv:
  assumes "sys_inv M sw sr (ok True True) db view ctu cfu buffer W s"
  shows "process_inv ok db ctu cfu buffer W (run_threads s)"
proof -
  have "dev_inv db ctu cfu buffer W s" and st: "storage_inv M sw (ok True True) db view (sys_mem s, sys_db s)"
    using assms by (simp_all add: sys_inv_dev)
  with storage_world [OF st] show ?thesis by (simp add: process_inv_def run_threads_def at_rest_def)
qed


lemma demo_two_handles:
  "two_handles (demo_lmdb full) demo_handle demo_handle (\<lambda>_ _. demo_idle) fst demo_view"
  using demo_laws by (simp add: two_handles_def demo_handle_def lmdb_storage_close_def) (simp add: demo_lmdb_def)


end
