(* ===== verification/Throughput.thy ===== *)
theory Throughput
  imports Kp_Prelude
begin

text \<open>
  The elapsed time that \<open>calculateThroughput\<close> of \<open>testekerneldevice.c\<close> and \<open>stop_execution\<close> of
  \<open>kpaxos/user_chardev.c\<close> divide the count of messages by. Both compute it in a \<open>double\<close>; the
  values are integers far below 2^53, so it is exact, and the model uses integers. The printed
  quotient is left as its two numbers.
\<close>

record timeval =
  tv_sec :: int
  tv_usec :: int

definition elapsed_us :: "timeval \<Rightarrow> timeval \<Rightarrow> int" where
  "elapsed_us tv now =
     (let us = (tv_sec now - tv_sec tv) * 1000000;
          us1 = (if us < 0 then 0 else us)
      in us1 + (tv_usec now - tv_usec tv))"

text \<open>What the clock reads: microseconds within a second.\<close>

definition clock_ok :: "timeval \<Rightarrow> bool" where
  "clock_ok t \<longleftrightarrow> 0 \<le> tv_usec t \<and> tv_usec t < 1000000"

definition micros :: "timeval \<Rightarrow> int" where
  "micros t = tv_sec t * 1000000 + tv_usec t"

text \<open>As long as the clock is not set back by a second, the elapsed time is the difference.\<close>

lemma elapsed_difference:
  "tv_sec tv \<le> tv_sec now \<Longrightarrow> elapsed_us tv now = micros now - micros tv"
  by (simp add: elapsed_us_def micros_def algebra_simps)

lemma elapsed_positive:
  assumes "clock_ok tv" and "clock_ok now" and "micros tv < micros now"
  shows "elapsed_us tv now = micros now - micros tv" and "0 < elapsed_us tv now"
proof -
  have "tv_sec tv \<le> tv_sec now" using assms by (simp add: clock_ok_def micros_def)
  then show "elapsed_us tv now = micros now - micros tv" by (rule elapsed_difference)
  with assms(3) show "0 < elapsed_us tv now" by simp
qed

text \<open>The test for a negative time comes before the microseconds are added: when the clock was
  set back, the result can still be negative, and it is not the difference any more.\<close>

lemma elapsed_negative:
  assumes "tv_sec now \<le> tv_sec tv" and "tv_usec now < tv_usec tv"
  shows "elapsed_us tv now < 0"
  using assms by (auto simp: elapsed_us_def Let_def)

lemma elapsed_wrong:
  assumes "clock_ok tv" and "clock_ok now" and "tv_sec now < tv_sec tv"
  shows "elapsed_us tv now = tv_usec now - tv_usec tv" and "micros now - micros tv < elapsed_us tv now"
  using assms by (simp_all add: elapsed_us_def micros_def)

end
