(* ===== verification/User_Chardev.thy ===== *)
theory User_Chardev
  imports Buffer_Codec Throughput
begin

text \<open>
  \<open>kpaxos/user_chardev.c\<close>: the client that reads a character device and answers every
  message with a fixed one, until it is interrupted. \<open>CLIENT_MSG\<close> is the same string in
  \<open>testekerneldevice.c\<close>.
\<close>

section \<open>Strings and messages\<close>

definition CLIENT_MSG :: "char list" where
  "CLIENT_MSG = ''********CCCCCCCCLLLLLLLLIIIIIIIIEEEEEEEENNNNNNNNTTTTTTTT*******''"

definition MSG_LEN :: nat where
  "MSG_LEN = 64"

text \<open>\<open>struct user_msg\<close> is a \<open>size_t\<close> followed by the bytes of its flexible array.\<close>

definition sizeof_user_msg :: nat where
  "sizeof_user_msg = 8"

text \<open>\<open>strcpy\<close> writes the characters and the final 0.\<close>

definition c_bytes :: "char list \<Rightarrow> byte list" where
  "c_bytes s = map of_char s"

definition strcpy_at :: "nat \<Rightarrow> char list \<Rightarrow> byte list \<Rightarrow> cerror + byte list" where
  "strcpy_at off s m = mem_put off (c_bytes s @ [0]) m"

section \<open>Arguments\<close>

text \<open>An option that \<open>getopt_long\<close> delivers; \<open>Opt_usage\<close> is \<open>-h\<close> and everything unknown.\<close>

datatype chardev_option = Opt_path "char list" | Opt_verbose | Opt_usage

text \<open>\<open>None\<close> is the exit of \<open>usage\<close>.\<close>

fun chardev_check_args ::
  "chardev_option list \<Rightarrow> char list option \<times> bool \<Rightarrow> (char list option \<times> bool) option" where
  "chardev_check_args [] a = Some a"
| "chardev_check_args (Opt_path p # os) (path, v) = chardev_check_args os (Some p, v)"
| "chardev_check_args (Opt_verbose # os) (path, v) = chardev_check_args os (path, True)"
| "chardev_check_args (Opt_usage # os) a = None"

section \<open>The loop\<close>

text \<open>
  What one round of the loop meets: whether the signal handler runs before the result of
  \<open>read\<close> is looked at, what \<open>poll\<close> reports and, if there is something to read, what \<open>read\<close>
  stores and returns, and whether the handler runs at the end of the round.
\<close>

record chardev_round =
  interrupted :: bool
  event :: "(byte list \<times> int) option"
  late :: bool

record chardev =
  stop_flag :: int
  msg_count :: u32
  recv_blk :: "byte list cptr"

definition stop_execution :: "chardev \<Rightarrow> chardev" where
  "stop_execution c = c\<lparr>stop_flag := 1\<rparr>"

text \<open>The numbers whose quotient, times a million, the handler prints: \<open>tv\<close> is read when the device
  has been opened.\<close>

definition chardev_throughput :: "chardev \<Rightarrow> timeval \<Rightarrow> timeval \<Rightarrow> u32 \<times> int" where
  "chardev_throughput c tv now = (msg_count c, elapsed_us tv now)"

definition signals :: "bool \<Rightarrow> chardev \<Rightarrow> chardev" where
  "signals b c = (if b then stop_execution c else c)"

text \<open>The messages written to the device are the second result.\<close>

definition chardev_round_run ::
  "byte list \<Rightarrow> chardev_round \<Rightarrow> chardev \<Rightarrow> cerror + chardev \<times> byte list list" where
  "chardev_round_run msg r c =
     (let c1 = signals (interrupted r) c
      in case event r of
           None \<Rightarrow> Inr (signals (late r) c1, [])
         | Some (data, len) \<Rightarrow>
             bindR (deref (recv_blk c1)) (\<lambda>m0. bindR (mem_put 0 data m0) (\<lambda>m.
             let c2 = c1\<lparr>msg_count := msg_count c1 + 1, recv_blk := Live m\<rparr>
             in if len \<noteq> 0 then Inr (signals (late r) c2, [msg])
                else Inr (signals (late r) (c2\<lparr>stop_flag := 0\<rparr>), []))))"

primrec chardev_loop ::
  "byte list \<Rightarrow> chardev_round list \<Rightarrow> chardev \<Rightarrow> cerror + chardev \<times> byte list list" where
  "chardev_loop msg [] c = Inr (c, [])"
| "chardev_loop msg (r # rs) c =
     (if stop_flag c \<noteq> 0 then Inr (c, [])
      else bindR (chardev_round_run msg r c) (\<lambda>(c1, out1).
           bindR (chardev_loop msg rs c1) (\<lambda>(c2, out2). Inr (c2, out1 @ out2))))"

text \<open>
  \<open>run\<close>: \<open>fd\<close> is what \<open>open\<close> returns. The result is the state after the loop, which holds the
  receive block that is not freed, and what was written.
\<close>

definition chardev_run ::
  "int \<Rightarrow> chardev_round list \<Rightarrow> uenv \<Rightarrow> cerror + chardev option \<times> byte list list" where
  "chardev_run fd rounds e =
     (let (a1, msg, e1) = malloc (sizeof_user_msg + MSG_LEN) e;
          (a2, recv, e2) = malloc (sizeof_user_msg + MSG_LEN) e1
      in bindR (deref msg) (\<lambda>m0. bindR (mem_put 0 (le64 (of_nat MSG_LEN)) m0) (\<lambda>m1.
         bindR (strcpy_at sizeof_user_msg CLIENT_MSG m1) (\<lambda>m2.
         bindR (if 0 < fd
                then bindR (chardev_loop m2 rounds \<lparr>stop_flag = 0, msg_count = 0, recv_blk = recv\<rparr>)
                       (\<lambda>(c, out). Inr (Some c, out))
                else Inr (None, [])) (\<lambda>(c, out).
         bindR (cfree (Live m2)) (\<lambda>_. Inr (c, out)))))))"

definition chardev_main ::
  "chardev_option list \<Rightarrow> (char list \<Rightarrow> int) \<Rightarrow> chardev_round list \<Rightarrow> uenv
   \<Rightarrow> (cerror + chardev option \<times> byte list list) option" where
  "chardev_main os open_fd rounds e =
     (case chardev_check_args os (None, False) of
        None \<Rightarrow> None
      | Some (None, v) \<Rightarrow> None
      | Some (Some path, v) \<Rightarrow> Some (chardev_run (open_fd path) rounds e))"

section \<open>What a round does\<close>

definition fits :: "nat \<Rightarrow> chardev_round \<Rightarrow> bool" where
  "fits n r = (case event r of None \<Rightarrow> True | Some (data, len) \<Rightarrow> length data \<le> n)"

text \<open>A round that leaves the loop stopped, one that reads, one that answers.\<close>

definition stops :: "chardev_round \<Rightarrow> bool" where
  "stops r \<longleftrightarrow> late r \<or> interrupted r \<and> (\<forall>data. event r \<noteq> Some (data, 0))"

definition reads :: "chardev_round \<Rightarrow> bool" where
  "reads r \<longleftrightarrow> event r \<noteq> None"

definition answers :: "chardev_round \<Rightarrow> bool" where
  "answers r \<longleftrightarrow> (\<exists>data len. event r = Some (data, len) \<and> len \<noteq> 0)"

text \<open>The rounds the loop goes through: up to the first one that stops it.\<close>

fun rounds_run :: "chardev_round list \<Rightarrow> chardev_round list" where
  "rounds_run [] = []"
| "rounds_run (r # rs) = (if stops r then [r] else r # rounds_run rs)"

lemma round_runs:
  assumes "fits n r" and "stop_flag c = 0" and "recv_blk c = Live m" and "length m = n"
  shows "\<exists>c1 m1. chardev_round_run msg r c = Inr (c1, if answers r then [msg] else [])
    \<and> stop_flag c1 = of_bool (stops r) \<and> recv_blk c1 = Live m1 \<and> length m1 = n
    \<and> msg_count c1 = msg_count c + of_bool (reads r)"
proof (cases "event r")
  case None
  with assms(2-4) show ?thesis
    by (simp add: chardev_round_run_def answers_def stops_def reads_def stop_execution_def signals_def)
next
  case (Some dl)
  obtain data len where dl: "dl = (data, len)" by (cases dl)
  with Some assms(1,4) have "length data \<le> length m" by (simp add: fits_def)
  with Some dl assms(2-4) show ?thesis
    by (simp add: chardev_round_run_def answers_def stops_def reads_def stop_execution_def signals_def mem_put_def)
qed

lemma loop_runs:
  assumes "\<forall>r \<in> set rs. fits n r" and "stop_flag c = 0" and "recv_blk c = Live m" and "length m = n"
  shows "\<exists>c1. chardev_loop msg rs c = Inr (c1, replicate (length (filter answers (rounds_run rs))) msg)
    \<and> stop_flag c1 = of_bool (\<exists>r \<in> set rs. stops r)
    \<and> msg_count c1 = msg_count c + of_nat (length (filter reads (rounds_run rs)))"
  using assms
proof (induction rs arbitrary: c m)
  case (Cons r rs)
  from Cons.prems have "fits n r" by simp
  from round_runs [OF this Cons.prems(2-4)] obtain c1 m1 where
    r: "chardev_round_run msg r c = Inr (c1, if answers r then [msg] else [])" "stop_flag c1 = of_bool (stops r)"
      "recv_blk c1 = Live m1" "length m1 = n" "msg_count c1 = msg_count c + of_bool (reads r)" by blast
  show ?case
  proof (cases "stops r")
    case True
    then have "chardev_loop msg rs c1 = Inr (c1, [])" using r(2) by (cases rs) simp_all
    with True r Cons.prems(2) show ?thesis by simp
  next
    case False
    with r(2-4) Cons.IH [of c1 m1] Cons.prems(1) obtain c2 where
      "chardev_loop msg rs c1 = Inr (c2, replicate (length (filter answers (rounds_run rs))) msg)"
      "stop_flag c2 = of_bool (\<exists>r \<in> set rs. stops r)"
      "msg_count c2 = msg_count c1 + of_nat (length (filter reads (rounds_run rs)))" by auto
    with False r Cons.prems(2) show ?thesis by simp
  qed
qed simp

lemma client_msg_bytes: "length (c_bytes CLIENT_MSG @ [0]) = MSG_LEN"
  by (simp add: c_bytes_def CLIENT_MSG_def MSG_LEN_def)

text \<open>What is sent: the size 64 and the string with its final 0, which just fill the block.\<close>

definition client_user_msg :: "byte list" where
  "client_user_msg = le64 64 @ c_bytes CLIENT_MSG @ [0]"

lemma run_builds_message:
  assumes "mallocs_ok e" and "0 < fd"
  obtains rm where "length rm = 72" and "chardev_run fd rs e =
    bindR (chardev_loop client_user_msg rs \<lparr>stop_flag = 0, msg_count = 0, recv_blk = Live rm\<rparr>) (\<lambda>(c, out).
      Inr (Some c, out))"
proof -
  obtain a1 e1 where m1: "malloc 72 e = (a1, Live (map (garbage e) [0..<72]), e1)" "mallocs_ok e1"
    by (rule malloc_all [OF assms(1)])
  obtain a2 e2 where m2: "malloc 72 e1 = (a2, Live (map (garbage e1) [0..<72]), e2)" by (rule malloc_all [OF m1(2)])
  let ?rm = "map (garbage e1) [0..<72]"
  have l: "length (c_bytes CLIENT_MSG) = 63" using client_msg_bytes by (simp add: MSG_LEN_def)
  have "chardev_run fd rs e =
    bindR (chardev_loop client_user_msg rs \<lparr>stop_flag = 0, msg_count = 0, recv_blk = Live ?rm\<rparr>) (\<lambda>(c, out).
      Inr (Some c, out))"
    using m1(1) m2 l assms(2)
    by (cases "chardev_loop client_user_msg rs \<lparr>stop_flag = 0, msg_count = 0, recv_blk = Live ?rm\<rparr>")
       (auto simp: chardev_run_def sizeof_user_msg_def MSG_LEN_def strcpy_at_def mem_put_def client_user_msg_def
        simp del: upt_rec_numeral)
  with that [of ?rm] show ?thesis by simp
qed

section \<open>Properties\<close>

text \<open>C24. The client answers every message it reads with the same 72 bytes, in the rounds up to the
  first interrupt that takes effect, and counts what it read; it is stopped exactly when there
  is such a round. An interrupt that arrives before the result 0 of a read is looked at, the
  result of a device that is being unloaded, is lost: the branch meant to stop the loop
  clears the flag instead.\<close>

theorem chardev_stops_iff:
  assumes "mallocs_ok e" and "0 < fd" and "\<forall>r \<in> set rs. fits 72 r"
  shows "\<exists>c. chardev_run fd rs e =
      Inr (Some c, replicate (length (filter answers (rounds_run rs))) client_user_msg)
    \<and> msg_count c = of_nat (length (filter reads (rounds_run rs)))
    \<and> (stop_flag c \<noteq> 0 \<longleftrightarrow>
         (\<exists>r \<in> set rs. late r \<or> interrupted r \<and> (\<forall>data. event r \<noteq> Some (data, 0))))"
proof -
  obtain rm where rm: "length rm = 72" "chardev_run fd rs e =
    bindR (chardev_loop client_user_msg rs \<lparr>stop_flag = 0, msg_count = 0, recv_blk = Live rm\<rparr>) (\<lambda>(c, out).
      Inr (Some c, out))" by (rule run_builds_message [OF assms(1,2)])
  obtain c where
    "chardev_loop client_user_msg rs \<lparr>stop_flag = 0, msg_count = 0, recv_blk = Live rm\<rparr> =
       Inr (c, replicate (length (filter answers (rounds_run rs))) client_user_msg)"
    "stop_flag c = of_bool (\<exists>r \<in> set rs. stops r)"
    "msg_count c = of_nat (length (filter reads (rounds_run rs)))"
    using loop_runs [OF assms(3) _ _ rm(1), of "\<lparr>stop_flag = 0, msg_count = 0, recv_blk = Live rm\<rparr>"] by auto
  with rm(2) show ?thesis by (simp add: stops_def)
qed

theorem chardev_stops_iff_witness:
  "\<exists>c. chardev_run 3 [\<lparr>interrupted = False, event = Some ([1, 2], 2), late = False\<rparr>,
       \<lparr>interrupted = True, event = Some ([], 0), late = False\<rparr>] demo_uenv = Inr (Some c, [client_user_msg])
     \<and> msg_count c = 2 \<and> stop_flag c = 0"
proof -
  let ?rs = "[\<lparr>interrupted = False, event = Some ([1::byte, 2], 2::int), late = False\<rparr>,
     \<lparr>interrupted = True, event = Some ([], 0), late = False\<rparr>]"
  have f: "\<forall>r \<in> set ?rs. fits 72 r" by (simp add: fits_def)
  have r: "rounds_run ?rs = ?rs" by (simp add: stops_def)
  have a: "filter answers ?rs = [hd ?rs]" "filter reads ?rs = ?rs" by (simp_all add: answers_def reads_def)
  from chardev_stops_iff [OF demo_uenv_ok _ f, of 3] show ?thesis unfolding r a by simp
qed

text \<open>The client does not check how much a device delivers: when the first message is longer
  than its 72-byte block, whatever its length and result, the loop writes past the block.\<close>

lemma chardev_overruns:
  assumes "mallocs_ok e" and "0 < fd" and "event r = Some (data, len)" and "72 < length data"
  shows "chardev_run fd (r # rs) e = Inl OutOfBounds"
proof -
  obtain rm where rm: "length rm = 72" "chardev_run fd (r # rs) e =
    bindR (chardev_loop client_user_msg (r # rs) \<lparr>stop_flag = 0, msg_count = 0, recv_blk = Live rm\<rparr>) (\<lambda>(c, out).
      Inr (Some c, out))" by (rule run_builds_message [OF assms(1,2)])
  with assms(3,4) show ?thesis
    by (simp add: chardev_round_run_def signals_def stop_execution_def mem_put_bad)
qed

end
