(* ===== verification/Test_Program.thy ===== *)
theory Test_Program
  imports System User_Chardev
begin

text \<open>
  \<open>testekerneldevice.c\<close>: the program that asks the read-test device for the instances 1 to
  99, and its writer, which writes 100 messages to the write-test device (its thread is
  commented out of \<open>main\<close>). The program runs over the file operations of a device, which are
  then those of the model of the module.
\<close>

section \<open>Files\<close>

text \<open>A device file: \<open>open\<close> gives the descriptor or a negative number.\<close>

record 'k dev_file =
  dev_open :: "'k \<Rightarrow> int \<times> 'k"
  dev_write :: "byte list \<Rightarrow> u64 \<Rightarrow> 'k \<Rightarrow> cerror + int \<times> 'k"
  dev_close :: "'k \<Rightarrow> 'k"

text \<open>What \<open>open\<close> of the C library makes of the result of a driver's open.\<close>

definition fd_of :: "int \<Rightarrow> int" where
  "fd_of r = (if r = 0 then 3 else - 1)"

definition read_test_file :: "u32 \<Rightarrow> rt_system dev_file" where
  "read_test_file junk =
     \<lparr>dev_open = (\<lambda>k. let (r, t) = read_test_open (rt k) in (fd_of r, k\<lparr>rt := t\<rparr>)),
      dev_write = (\<lambda>b n k. bindR (read_test_write b n junk (rt k) (rp k) (env k)) (\<lambda>(r, t, p, e).
        Inr (r, \<lparr>rt = t, rp = p, env = e\<rparr>))),
      dev_close = (\<lambda>k. k\<lparr>rt := snd (read_test_release (rt k))\<rparr>)\<rparr>"

definition write_test_file :: "(paxos_kernel_device \<times> paxos_kernel_device) dev_file" where
  "write_test_file =
     \<lparr>dev_open = (\<lambda>(dev, p). let (r, d) = write_test_open dev in (fd_of r, d, p)),
      dev_write = (\<lambda>b n (dev, p). bindR (write_test_write b n dev p) (\<lambda>(r, p1). Inr (r, dev, p1))),
      dev_close = (\<lambda>(dev, p). (snd (write_test_release dev), p))\<rparr>"

section \<open>The program\<close>

definition totalMessages :: nat where
  "totalMessages = 100"

text \<open>The program's own copy of the conversion, over a struct and the block of its value.\<close>

definition test_accepted_to_buffer ::
  "paxos_accepted \<Rightarrow> byte list cptr \<Rightarrow> uenv \<Rightarrow> cerror + byte list cptr \<times> uenv" where
  "test_accepted_to_buffer acc val e =
     (let len = int_to_size (paxos_value_len (acc_value acc));
          (addr, buffer, e1) = malloc (unat (of_nat sizeof_paxos_accepted + len)) e
      in bindR (nonnull buffer) (\<lambda>b.
         if \<not> b then Inr (Null, e1)
         else bindR (deref buffer) (\<lambda>m0.
              bindR (mem_put 0 (accepted_image acc) m0) (\<lambda>m1.
              if 0 < len
              then bindR (deref val) (\<lambda>v. bindR (mem_get 0 (unat len) v) (\<lambda>src.
                   bindR (mem_put sizeof_paxos_accepted src m1) (\<lambda>m2. Inr (Live m2, e1))))
              else Inr (Live m1, e1)))))"

text \<open>Printing a string reads it up to its 0.\<close>

definition print_string :: "byte list \<Rightarrow> cerror + byte list" where
  "print_string b = (if 0 \<in> set b then Inr (takeWhile (\<lambda>x. x \<noteq> 0) b) else Inl OutOfBounds)"

text \<open>The body of the loop of \<open>readProcess\<close>.\<close>

definition send_query :: "'k dev_file \<Rightarrow> u32 \<Rightarrow> uenv \<Rightarrow> 'k \<Rightarrow> cerror + int \<times> uenv \<times> 'k" where
  "send_query F i e k =
     (let (addr, accepted, e1) = malloc sizeof_paxos_accepted e
      in bindR (deref accepted) (\<lambda>m.
         bindR (mem_put 0 (replicate sizeof_paxos_accepted 0) m) (\<lambda>m1.
         let acc = (accepted_of_image m1)\<lparr>iid := i\<rparr>
         in bindR (test_accepted_to_buffer acc Null e1) (\<lambda>(str, e2).
            bindR (deref str) (\<lambda>b. bindR (print_string b) (\<lambda>_.
            bindR (dev_write F b (of_nat sizeof_paxos_accepted + int_to_size (paxos_value_len (acc_value acc))) k)
              (\<lambda>(ret, k1).
            bindR (cfree accepted) (\<lambda>_. bindR (cfree str) (\<lambda>_. Inr (ret, e2, k1)))))))))) "

lemma counter_step:
  assumes "(i :: u32) < limit"
  shows "unat (i + 1) = Suc (unat i)" and "unat limit - unat (i + 1) < unat limit - unat i"
proof -
  have l: "unat i < unat limit" using assms by (simp add: word_less_nat_alt)
  moreover have "unat limit < 2 ^ 32" using unsigned_less [of limit, where ?'a = nat] by simp
  ultimately show u: "unat (i + 1) = Suc (unat i)" by (simp add: unat_word_ariths)
  show "unat limit - unat (i + 1) < unat limit - unat i" unfolding u using l by linarith
qed

text \<open>The loop of \<open>readProcess\<close>; the result says whether it went to its end.\<close>

function read_loop :: "'k dev_file \<Rightarrow> u32 \<Rightarrow> u32 \<Rightarrow> uenv \<Rightarrow> 'k \<Rightarrow> cerror + bool \<times> uenv \<times> 'k" where
  "read_loop F limit i e k =
     (if i < limit
      then bindR (send_query F i e k) (\<lambda>(ret, e1, k1).
           if ret < 0 then Inr (False, e1, k1) else read_loop F limit (i + 1) e1 k1)
      else Inr (True, e, k))"
  by auto

termination
  by (relation "measure (\<lambda>(F, limit, i, e, k). unat limit - unat i)") (auto dest: counter_step(2) simp del: unat_plus_simple)

declare read_loop.simps [simp del]

definition readProcess :: "'k dev_file \<Rightarrow> uenv \<Rightarrow> 'k \<Rightarrow> cerror + bool \<times> uenv \<times> 'k" where
  "readProcess F e k =
     (let (readDevice, k1) = dev_open F k
      in if readDevice < 0 then Inr (False, e, k1)
         else bindR (read_loop F (of_nat totalMessages) 1 e k1) (\<lambda>(ended, e1, k2).
              Inr (ended, e1, dev_close F k2)))"

text \<open>
  The body of the loop of \<open>writeProcess\<close>: of the struct only the instance and the value are
  assigned, the rest is what the block held.
\<close>

definition send_message :: "'k dev_file \<Rightarrow> u32 \<Rightarrow> uenv \<Rightarrow> 'k \<Rightarrow> cerror + int \<times> uenv \<times> 'k" where
  "send_message F i e k =
     (let (addr, accepted, e1) = malloc sizeof_paxos_accepted e
      in bindR (deref accepted) (\<lambda>m.
         let (vaddr, val, e2) = malloc MSG_LEN e1;
             a = accepted_of_image m;
             acc = a\<lparr>iid := i, acc_value := (acc_value a)\<lparr>paxos_value_len := of_nat MSG_LEN, paxos_value_val := vaddr\<rparr>\<rparr>
         in bindR (deref val) (\<lambda>v0. bindR (strcpy_at 0 CLIENT_MSG v0) (\<lambda>v.
            bindR (test_accepted_to_buffer acc (Live v) e2) (\<lambda>(str, e3).
            bindR (print_string v) (\<lambda>_. bindR (deref str) (\<lambda>b.
            bindR (dev_write F b (of_nat sizeof_paxos_accepted + int_to_size (paxos_value_len (acc_value acc))) k)
              (\<lambda>(ret, k1).
            bindR (cfree (Live v)) (\<lambda>_. bindR (cfree accepted) (\<lambda>_. bindR (cfree str) (\<lambda>_.
            Inr (ret, e3, k1)))))))))))) "

text \<open>The counter of \<open>writeProcess\<close> is an \<open>int\<close>; \<open>n\<close> is what is left of \<open>totalMessages\<close>.\<close>

primrec write_loop :: "'k dev_file \<Rightarrow> nat \<Rightarrow> u32 \<Rightarrow> uenv \<Rightarrow> 'k \<Rightarrow> cerror + bool \<times> uenv \<times> 'k" where
  "write_loop F 0 i e k = Inr (True, e, k)"
| "write_loop F (Suc n) i e k =
     bindR (send_message F i e k) (\<lambda>(ret, e1, k1).
       if ret < 0 then Inr (False, e1, k1) else write_loop F n (i + 1) e1 k1)"

definition writeProcess :: "'k dev_file \<Rightarrow> uenv \<Rightarrow> 'k \<Rightarrow> cerror + bool \<times> uenv \<times> 'k" where
  "writeProcess F e k =
     (let (readDevice, k1) = dev_open F k
      in if readDevice < 0 then Inr (False, e, k1)
         else bindR (write_loop F totalMessages 0 e k1) (\<lambda>(ended, e1, k2).
              Inr (ended, e1, dev_close F k2)))"

text \<open>The numbers whose quotient, times a million, is printed at the end; the count is that of the
  limit, not of the messages that were sent.\<close>

definition calculateThroughput :: "timeval \<Rightarrow> timeval \<Rightarrow> nat \<times> int" where
  "calculateThroughput tv now = (totalMessages, elapsed_us tv now)"

text \<open>\<open>main\<close> starts the thread of the reader and waits for it; it does not look at the result of
  \<open>pthread_create\<close>, so that without a thread it waits for a handle that was never assigned.\<close>

definition test_main :: "bool \<Rightarrow> 'k dev_file \<Rightarrow> uenv \<Rightarrow> 'k \<Rightarrow> cerror + int \<times> uenv \<times> 'k" where
  "test_main created F e k =
     (if created then bindR (readProcess F e k) (\<lambda>(ended, e1, k1). Inr (0, e1, k1)) else Inl UninitRead)"

section \<open>One query\<close>

definition zero_struct :: paxos_accepted where
  "zero_struct = accepted_of_image (replicate 40 0)"

text \<open>The program's conversion is the one of the storage process.\<close>

lemma test_buffer_same:
  "test_accepted_to_buffer (obj_acc o') (obj_val o') e = paxos_accepted_to_buffer o' e"
  by (simp add: test_accepted_to_buffer_def paxos_accepted_to_buffer_def)

definition query_image :: "u32 \<Rightarrow> byte list" where
  "query_image i = accepted_image (zero_struct\<lparr>iid := i\<rparr>)"

lemma zero_fields: "paxos_value_len (acc_value zero_struct) = 0" "aid zero_struct = 0"
  unfolding zero_struct_def by code_simp+

lemma query_image_good: "read_good (query_image i, 40)" and query_image_iid: "iid (accepted_of_image (query_image i)) = i"
  by (simp_all add: read_good_def query_image_def frame_len_def int_to_size_def size_defs zero_fields)

lemma send_query_result:
  assumes "mallocs_ok e"
  obtains e1 where "mallocs_ok e1" and "\<And>k. send_query F i e k =
    bindR (dev_write F (query_image i) 40 k) (\<lambda>(ret, k1). Inr (ret, e1, k1))"
proof -
  obtain addr e1 where m: "malloc 40 e = (addr, Live (map (garbage e) [0..<40]), e1)" "mallocs_ok e1"
    by (rule malloc_all [OF assms])
  let ?o = "\<lparr>obj_acc = zero_struct\<lparr>iid := i\<rparr>, obj_val = Null\<rparr>"
  have "holds ?o []" by (simp add: holds_def zero_fields)
  then obtain e2 where b: "paxos_accepted_to_buffer ?o e1 = Inr (Live (query_image i), e2)" "mallocs_ok e2"
    using to_buffer_result [OF _ m(2), of ?o "[]"] by (auto simp: query_image_def)
  have t: "test_accepted_to_buffer (zero_struct\<lparr>iid := i\<rparr>) Null e1 = Inr (Live (query_image i), e2)"
    using test_buffer_same [of ?o e1] b(1) by simp
  have z: "0 \<in> set (query_image i)"
    by (simp add: query_image_def accepted_image_def zero_fields le32_def)
  have "send_query F i e k = bindR (dev_write F (query_image i) 40 k) (\<lambda>(ret, k1). Inr (ret, e2, k1))" for k
    using m(1) t z
    by (cases "dev_write F (query_image i) 40 k")
       (auto simp: send_query_def size_defs mem_put_def print_string_def zero_fields int_to_size_def
         simp flip: zero_struct_def simp del: upt_rec_numeral)
  with b(2) that show ?thesis by blast
qed

section \<open>The loop of queries\<close>

text \<open>Over any device whose writes return, with \<open>w\<close> as their result.\<close>

lemma read_loop_ends:
  assumes "\<And>i k. dev_write F (query_image i) 40 k = Inr (w i k)" and "mallocs_ok e"
  shows "\<exists>n ended e1. n \<le> unat limit - unat i \<and> (ended \<longrightarrow> n = unat limit - unat i) \<and> read_loop F limit i e k =
    Inr (ended, e1, fold (\<lambda>j k. snd (w j k)) (map of_nat [unat i..<unat i + n]) k)"
  using assms(2)
proof (induction "unat limit - unat i" arbitrary: i e k)
  case 0
  then have "\<not> i < limit" by (simp add: word_less_nat_alt)
  with 0 show ?case by (intro exI [of _ 0] exI [of _ True]) (simp add: read_loop.simps)
next
  case (Suc d)
  then have i: "i < limit" by (simp add: word_less_nat_alt)
  note c = counter_step [OF i]
  obtain e1 where e1: "mallocs_ok e1" "\<And>k. send_query F i e k =
      bindR (dev_write F (query_image i) 40 k) (\<lambda>(ret, k1). Inr (ret, e1, k1))" by (rule send_query_result [OF Suc.prems]) blast
  obtain ret k1 where w: "w i k = (ret, k1)" by (cases "w i k")
  have s: "send_query F i e k = Inr (ret, e1, k1)" unfolding e1(2) using assms(1) [of i k] w by simp
  have d: "d = unat limit - unat (i + 1)" using Suc.hyps(2) c by simp
  show ?case
  proof (cases "ret < 0")
    case True
    with i s w Suc.hyps(2) show ?thesis
      by (intro exI [of _ 1] exI [of _ False]) (auto simp: read_loop.simps [of F limit i])
  next
    case False
    obtain n ended e2 where n: "n \<le> d" "ended \<longrightarrow> n = d" "read_loop F limit (i + 1) e1 k1 =
        Inr (ended, e2, fold (\<lambda>j k. snd (w j k)) (map of_nat [unat (i + 1)..<unat (i + 1) + n]) k1)"
      using Suc.hyps(1) [OF d e1(1), of k1] d by metis
    have "[unat i..<unat i + Suc n] = unat i # [unat (i + 1)..<unat (i + 1) + n]"
      unfolding c(1) by (simp add: upt_conv_Cons)
    then have "fold (\<lambda>j k. snd (w j k)) (map of_nat [unat i..<unat i + Suc n]) k =
        fold (\<lambda>j k. snd (w j k)) (map of_nat [unat (i + 1)..<unat (i + 1) + n]) k1" using w by simp
    with n Suc.hyps(2) i s False show ?thesis
      by (intro exI [of _ "Suc n"] exI [of _ ended] exI [of _ e2]) (auto simp: read_loop.simps [of F limit i])
  qed
qed

definition queued_iids :: "paxos_kernel_device \<Rightarrow> u32 list" where
  "queued_iids dev = map (\<lambda>b. iid (accepted_of_image b)) (queued dev)"

text \<open>Over the read-test device with room for the queries.\<close>

lemma read_loop_queries:
  assumes "rt_inv ctu cfu buffer k" and "ring_ok n (rp k)" and "n + (unat limit - unat i) \<le> BUFFER_SIZE"
    and "working (rt_dev (rt k)) \<noteq> 0" and "alloc_all (env k)" and "mallocs_ok e"
  shows "\<exists>e' k'. read_loop (read_test_file junk) limit i e k = Inr (True, e', k') \<and> rt_inv ctu cfu buffer k'
    \<and> queued_iids (rp k') = queued_iids (rp k) @ map of_nat [unat i..<unat limit]
    \<and> messagesReceived (rt k') = messagesReceived (rt k) + of_nat (unat limit - unat i)
    \<and> messagesFound (rt k') = messagesFound (rt k)
    \<and> image_mset work_iid (works_of k') = image_mset work_iid (works_of k) + mset (map of_nat [unat i..<unat limit])"
  using assms
proof (induction "unat limit - unat i" arbitrary: i e k n)
  case 0
  then have "\<not> i < limit" by (simp add: word_less_nat_alt)
  with 0 show ?case by (simp add: read_loop.simps)
next
  case (Suc d)
  then have i: "i < limit" by (simp add: word_less_nat_alt)
  note c = counter_step [OF i]
  have n: "n < BUFFER_SIZE" using Suc.hyps(2) Suc.prems(3) by simp
  let ?q = "query_image i"
  obtain e1 where e1: "mallocs_ok e1" "\<And>k. send_query (read_test_file junk) i e k =
      bindR (dev_write (read_test_file junk) ?q 40 k) (\<lambda>(ret, k1). Inr (ret, e1, k1))"
    by (rule send_query_result [OF Suc.prems(6)]) blast
  obtain t e' where w: "read_test_write ?q 40 junk (rt k) (rp k) (env k) =
      Inr (sint (40 :: u64), t, read_added ?q 40 (rp k), e')" "rt_inv ctu cfu buffer \<lparr>rt = t, rp = read_added ?q 40 (rp k), env = e'\<rparr>"
    "alloc_all e'" "working (rt_dev t) = working (rt_dev (rt k))" "messagesFound t = messagesFound (rt k)"
    "messagesReceived t = messagesReceived (rt k) + 1"
    "pending_works (pool (rt_dev t)) = add_mset (work_on (current_buf (rp k)) i) (works_of k)"
    using query_queued [OF Suc.prems(1,2) n query_image_good [of i] Suc.prems(4,5)] query_image_iid [of i] by metis
  let ?k1 = "\<lparr>rt = t, rp = read_added ?q 40 (rp k), env = e'\<rparr>"
  note add = read_added_ring [OF Suc.prems(2) n query_image_good [of i]]
  have s: "send_query (read_test_file junk) i e k = Inr (40, e1, ?k1)"
    unfolding e1(2) using w(1) by (simp add: read_test_file_def)
  have d: "d = unat limit - unat (i + 1)" using Suc.hyps(2) c by simp
  have room: "Suc n + (unat limit - unat (i + 1)) \<le> BUFFER_SIZE" using Suc.hyps(2) Suc.prems(3) d by simp
  have wk: "working (rt_dev (rt ?k1)) \<noteq> 0" "alloc_all (env ?k1)" "ring_ok (Suc n) (rp ?k1)"
    using w(3,4) Suc.prems(4) add(1) by simp_all
  have q: "queued_iids (rp ?k1) = queued_iids (rp k) @ [i]"
    using add(2) read_block_frame(3) [OF query_image_good] query_image_iid by (simp add: queued_iids_def)
  have u: "[unat i..<unat limit] = unat i # [unat (i + 1)..<unat limit]"
    unfolding c(1) using i by (simp add: upt_conv_Cons word_less_nat_alt)
  have m: "image_mset work_iid (works_of ?k1) = add_mset i (image_mset work_iid (works_of k))"
    using w(7) by (simp add: work_on_def)
  have one: "of_nat (unat limit - unat i) = (1 :: u32) + of_nat (unat limit - unat (i + 1))"
    unfolding d [symmetric] Suc.hyps(2) [symmetric] by (rule of_nat_Suc)
  from Suc.hyps(1) [OF d w(2) wk(3) room wk(1,2) e1(1)] q u m one w(5,6) s i show ?case
    by (auto simp: read_loop.simps [of _ limit i])
qed

section \<open>One message\<close>

definition client_value_bytes :: "byte list" where
  "client_value_bytes = c_bytes CLIENT_MSG @ [0]"

lemma client_value_length [simp]: "length client_value_bytes = 64"
  using client_msg_bytes by (simp add: client_value_bytes_def MSG_LEN_def)

text \<open>The struct of message \<open>i\<close>: its other fields are what the heap held.\<close>

definition message_struct :: "(nat \<Rightarrow> byte) \<Rightarrow> u32 \<Rightarrow> u64 \<Rightarrow> paxos_accepted" where
  "message_struct g i addr =
     (let a = accepted_of_image (map g [0..<40])
      in a\<lparr>iid := i, acc_value := (acc_value a)\<lparr>paxos_value_len := 64, paxos_value_val := addr\<rparr>\<rparr>)"

lemma send_message_result:
  assumes "mallocs_ok e"
  obtains addr e1 where "mallocs_ok e1" and "garbage e1 = garbage e" and "\<And>k. send_message F i e k =
    bindR (dev_write F (accepted_image (message_struct (garbage e) i addr) @ client_value_bytes) 104 k)
      (\<lambda>(ret, k1). Inr (ret, e1, k1))"
proof -
  obtain a1 e1 where m1: "malloc 40 e = (a1, Live (map (garbage e) [0..<40]), e1)" "mallocs_ok e1" "garbage e1 = garbage e"
    by (rule malloc_all [OF assms])
  obtain a2 e2 where m2: "malloc 64 e1 = (a2, Live (map (garbage e1) [0..<64]), e2)" "mallocs_ok e2" "garbage e2 = garbage e1"
    by (rule malloc_all [OF m1(2)])
  let ?acc = "message_struct (garbage e) i a2" and ?v = client_value_bytes
  let ?o = "\<lparr>obj_acc = ?acc, obj_val = Live ?v\<rparr>"
  have "holds ?o ?v" by (simp add: holds_def message_struct_def Let_def)
  then obtain e3 where b: "paxos_accepted_to_buffer ?o e2 = Inr (Live (accepted_image ?acc @ ?v), e3)"
    "mallocs_ok e3" "garbage e3 = garbage e2" using to_buffer_result [OF _ m2(2), of ?o ?v] by auto
  have t: "test_accepted_to_buffer ?acc (Live ?v) e2 = Inr (Live (accepted_image ?acc @ ?v), e3)"
    using test_buffer_same [of ?o e2] b(1) by simp
  have l: "length (c_bytes CLIENT_MSG) = 63" using client_msg_bytes by (simp add: MSG_LEN_def)
  have v: "strcpy_at 0 CLIENT_MSG (map (garbage e1) [0..<64]) = Inr ?v"
    using l by (simp add: strcpy_at_def mem_put_def client_value_bytes_def)
  have p: "print_string ?v = Inr (takeWhile (\<lambda>x. x \<noteq> 0) ?v)" by (simp add: print_string_def client_value_bytes_def)
  have acc: "(let a = accepted_of_image (map (garbage e) [0..<40]) in a\<lparr>iid := i,
      acc_value := (acc_value a)\<lparr>paxos_value_len := of_nat 64, paxos_value_val := a2\<rparr>\<rparr>) = ?acc"
    by (simp add: message_struct_def Let_def)
  have n: "int_to_size (paxos_value_len (acc_value ?acc)) = 64" by (simp add: message_struct_def Let_def int_to_size_def)
  have n64: "int_to_size 64 = 64" by (simp add: int_to_size_def)
  have "send_message F i e k = bindR (dev_write F (accepted_image ?acc @ ?v) 104 k) (\<lambda>(ret, k1). Inr (ret, e3, k1))" for k
    using m1(1) m2(1) t v p n n64 acc
    by (cases "dev_write F (accepted_image ?acc @ ?v) 104 k")
       (auto simp: send_message_def size_defs MSG_LEN_def Let_def simp del: upt_rec_numeral)
  with b(2,3) m1(3) m2(3) that show ?thesis by metis
qed

text \<open>Over the write-test device with room for the messages.\<close>

definition message_frame :: "(nat \<Rightarrow> byte) \<Rightarrow> nat \<Rightarrow> byte list \<Rightarrow> bool" where
  "message_frame g i f \<longleftrightarrow> (\<exists>addr. f = accepted_image (message_struct g (of_nat i) addr) @ client_value_bytes)"

lemma message_written:
  "write_good (accepted_image (message_struct g i addr) @ client_value_bytes, 104)"
  "write_frame (accepted_image (message_struct g i addr) @ client_value_bytes, 104) =
    accepted_image (message_struct g i addr) @ client_value_bytes"
proof -
  have "with_len (message_struct g i addr) client_value_bytes = message_struct g i addr"
    by (simp add: with_len_def message_struct_def Let_def)
  with write_frame_carries [of client_value_bytes "message_struct g i addr"]
  show "write_good (accepted_image (message_struct g i addr) @ client_value_bytes, 104)"
    "write_frame (accepted_image (message_struct g i addr) @ client_value_bytes, 104) =
    accepted_image (message_struct g i addr) @ client_value_bytes" by simp_all
qed

lemma write_loop_messages:
  assumes "ring_ok n p" and "n + m \<le> BUFFER_SIZE" and "working dev \<noteq> 0" and "mallocs_ok e"
  shows "\<exists>e' p' fs. write_loop write_test_file m (of_nat i) e (dev, p) = Inr (True, e', (dev, p'))
    \<and> frames p' = frames p @ fs \<and> list_all2 (message_frame (garbage e)) [i..<i + m] fs"
  using assms
proof (induction m arbitrary: i e p n)
  case (Suc m)
  have n: "n < BUFFER_SIZE" using Suc.prems(2) by simp
  obtain addr e1 where e1: "mallocs_ok e1" "garbage e1 = garbage e" and s: "\<And>k. send_message write_test_file (of_nat i) e k =
    bindR (dev_write write_test_file (accepted_image (message_struct (garbage e) (of_nat i) addr) @ client_value_bytes) 104 k)
      (\<lambda>(ret, k1). Inr (ret, e1, k1))" by (rule send_message_result [OF Suc.prems(4)]) blast
  let ?msg = "accepted_image (message_struct (garbage e) (of_nat i) addr) @ client_value_bytes"
  let ?p = "write_added ?msg 104 p"
  note good = message_written(1) [of "garbage e" "of_nat i" addr]
  note a = write_added_ring [OF Suc.prems(1) n good]
  have f: "frames ?p = frames p @ [?msg]"
    using a(2) message_written(2) [of "garbage e" "of_nat i" addr] by (simp add: frames_def write_frame_def)
  have w: "write_loop write_test_file (Suc m) (of_nat i) e (dev, p) =
      write_loop write_test_file m (of_nat (Suc i)) e1 (dev, ?p)"
    using s [of "(dev, p)"] write_test_write_room [OF Suc.prems(1) n good Suc.prems(3)]
    by (simp add: write_test_file_def add.commute)
  have "Suc n + m \<le> BUFFER_SIZE" using Suc.prems(2) by simp
  from Suc.IH [OF a(1) this Suc.prems(3) e1(1), of "Suc i"] obtain e' p' fs where
    r: "write_loop write_test_file m (of_nat (Suc i)) e1 (dev, ?p) = Inr (True, e', (dev, p'))"
    "frames p' = frames ?p @ fs" "list_all2 (message_frame (garbage e1)) [Suc i..<Suc i + m] fs" by blast
  have "[i..<i + Suc m] = i # [Suc i..<Suc i + m]" by (simp add: upt_conv_Cons)
  then have "list_all2 (message_frame (garbage e)) [i..<i + Suc m] (?msg # fs)"
    using r(3) e1(2) by (auto simp: message_frame_def)
  moreover have "frames p' = frames p @ (?msg # fs)" using r(2) f by simp
  ultimately show ?case unfolding w r(1) by blast
qed simp

section \<open>Properties\<close>



text \<open>C18. On the device it is written for, the program does what it reports: with room for 99
  queries it queues exactly the instances 1 to 99, in order, leaves one work for each of them
  and the count 99, gives the device back, and \<open>main\<close> returns 0; if the device is in use, it
  does nothing.\<close>

theorem read_process_queries:
  assumes "rt_inv ctu cfu buffer k" and "ring_ok n (rp k)" and "n + 99 \<le> BUFFER_SIZE"
    and "working (rt_dev (rt k)) \<noteq> 0" and "alloc_all (env k)" and "mallocs_ok e"
  shows "if char_mutex (rt_dev (rt k)) then readProcess (read_test_file junk) e k = Inr (False, e, k)
    else \<exists>e' k'. readProcess (read_test_file junk) e k = Inr (True, e', k')
      \<and> test_main True (read_test_file junk) e k = Inr (0, e', k')
      \<and> queued_iids (rp k') = queued_iids (rp k) @ map of_nat [1..<100]
      \<and> image_mset work_iid (works_of k') = image_mset work_iid (works_of k) + mset (map of_nat [1..<100])
      \<and> messagesReceived (rt k') = 99 \<and> messagesFound (rt k') = 0 \<and> \<not> char_mutex (rt_dev (rt k'))"
proof (cases "char_mutex (rt_dev (rt k))")
  case True
  then show ?thesis by (simp add: readProcess_def read_test_file_def read_test_open_def fd_of_def)
next
  case False
  let ?k1 = "k\<lparr>rt := (rt k)\<lparr>rt_dev := (rt_dev (rt k))\<lparr>char_mutex := True\<rparr>, messagesReceived := 0, messagesFound := 0\<rparr>\<rparr>"
  have u: "unat (of_nat totalMessages :: u32) = 100" "unat (1 :: u32) = 1" by (simp_all add: totalMessages_def)
  have k1: "rt_inv ctu cfu buffer ?k1" "ring_ok n (rp ?k1)" "working (rt_dev (rt ?k1)) \<noteq> 0" "alloc_all (env ?k1)"
    using assms by (simp_all add: rt_inv_def)
  have room: "n + (unat (of_nat totalMessages :: u32) - unat (1 :: u32)) \<le> BUFFER_SIZE" using assms(3) unfolding u by simp
  obtain e' k' where r: "read_loop (read_test_file junk) (of_nat totalMessages) 1 e ?k1 = Inr (True, e', k')"
    "queued_iids (rp k') = queued_iids (rp ?k1) @ map of_nat [1..<100]"
    "messagesReceived (rt k') = messagesReceived (rt ?k1) + of_nat (100 - 1)" "messagesFound (rt k') = messagesFound (rt ?k1)"
    "image_mset work_iid (works_of k') = image_mset work_iid (works_of ?k1) + mset (map of_nat [1..<100])"
    using read_loop_queries [OF k1(1,2) room k1(3,4) assms(6), of junk] unfolding u by blast
  let ?c = "k'\<lparr>rt := snd (read_test_release (rt k'))\<rparr>"
  have "readProcess (read_test_file junk) e k = Inr (True, e', ?c)"
    using False r(1) by (simp add: readProcess_def read_test_open_def fd_of_def)
      (simp add: read_test_file_def read_test_open_def fd_of_def)
  with False r(2-5) show ?thesis by (simp add: read_test_release_def test_main_def)
qed

theorem read_process_queries_witness:
  "\<exists>e' k'. test_main True (read_test_file 0) demo_uenv demo_rt = Inr (0, e', k')
    \<and> queued_iids (rp k') = map of_nat [1..<100] \<and> messagesReceived (rt k') = 99"
proof -
  have r0: "ring_ok 0 (rp demo_rt)" by (simp add: demo_rt_def demo_read_device_def ready_ring_ok)
  have w: "working (rt_dev (rt demo_rt)) \<noteq> 0" "alloc_all (env demo_rt)" using demo_system_idle(4,5) by (simp_all add: demo_system_def)
  have m: "\<not> char_mutex (rt_dev (rt demo_rt))" and q: "queued_iids (rp demo_rt) = []"
    using demo_system_idle(2) by (simp_all add: demo_rt_def ready_device_def Let_def queued_iids_def demo_system_def)
  from read_process_queries [OF demo_rt_inv r0 _ w demo_uenv_ok, of 0] m q show ?thesis by (auto simp: BUFFER_SIZE_def)
qed

text \<open>The writer of the test program, on its device with room for 100 messages: all 100 are
  queued in order, each with its instance number and the client string with its final 0,
  which is just as long as its length field says. The rest of the header, ballots and
  promise included, is what the heap held.\<close>

lemma write_process_messages:
  assumes "ring_ok n p" and "n + 100 \<le> BUFFER_SIZE" and "working dev \<noteq> 0" and "\<not> char_mutex dev"
    and "mallocs_ok e"
  shows "\<exists>e' dev' p' fs. writeProcess write_test_file e (dev, p) = Inr (True, e', (dev', p'))
    \<and> frames p' = frames p @ fs \<and> list_all2 (message_frame (garbage e)) [0..<100] fs \<and> \<not> char_mutex dev'"
proof -
  let ?d = "dev\<lparr>char_mutex := True\<rparr>"
  have d: "working ?d \<noteq> 0" using assms(3) by simp
  have o: "dev_open write_test_file (dev, p) = (3, ?d, p)"
    using assms(4) by (simp add: write_test_file_def write_test_open_def fd_of_def)
  have c: "dev_close write_test_file (?d, q) = (?d\<lparr>char_mutex := False, used_buf := 1\<rparr>, q)" for q
    by (simp add: write_test_file_def write_test_release_def)
  obtain e' p' fs where r: "write_loop write_test_file 100 (of_nat 0) e (?d, p) = Inr (True, e', (?d, p'))"
    "frames p' = frames p @ fs" "list_all2 (message_frame (garbage e)) [0..<0 + 100] fs"
    using write_loop_messages [OF assms(1,2) d assms(5), of 0] by blast
  have "writeProcess write_test_file e (dev, p) = Inr (True, e', ?d\<lparr>char_mutex := False, used_buf := 1\<rparr>, p')"
    unfolding writeProcess_def o totalMessages_def using r(1) c by simp
  with r(2,3) show ?thesis
    by (intro exI [of _ e'] exI [of _ "?d\<lparr>char_mutex := False, used_buf := 1\<rparr>"] exI [of _ p'] exI [of _ fs])
       (simp del: upt_rec_numeral)
qed

end
