(* ===== verification/Interleaving.thy ===== *)
theory Interleaving
  imports Write_Persistence "HOL-Library.Sublist"
begin

text \<open>
  \<open>write_persistence_add_message\<close> and \<open>write_persistence_read\<close> take no lock: they run beside each
  other and beside themselves on other processors. Here both are cut into the steps in which
  they access the shared device, and writers and a reader are interleaved step by step. One
  after the other the steps are the handlers; one writer and a reader that stays behind are a
  channel.
\<close>

section \<open>The steps of the handler\<close>

datatype add_stage = Check | Claim | Clear | Fill | Set_length | Publish

primrec after :: "add_stage \<Rightarrow> add_stage" where
  "after Check = Claim"
| "after Claim = Clear"
| "after Clear = Fill"
| "after Fill = Set_length"
| "after Set_length = Publish"
| "after Publish = Check"

text \<open>A change of the message block of the slot at the current position.\<close>

definition update_slot ::
  "(byte list \<Rightarrow> cerror + byte list) \<Rightarrow> paxos_kernel_device \<Rightarrow> cerror + paxos_kernel_device" where
  "update_slot f dev =
     bindR (load_slot dev (current_buf dev)) (\<lambda>b. bindR (f b) (store_slot dev (current_buf dev)))"

definition cut_size :: "u64 \<Rightarrow> u64" where
  "cut_size sz =
     (let limit = of_nat (sizeof_paxos_accepted + MAX_PAXOS_VALUE_SIZE) in if limit < sz then limit else sz)"

primrec stage_run ::
  "add_stage \<Rightarrow> byte list \<times> u64 \<Rightarrow> paxos_kernel_device \<Rightarrow> cerror + paxos_kernel_device" where
  "stage_run Check m dev = Inr dev"
| "stage_run Claim m dev = Inr (dev\<lparr>used_buf := used_buf dev + 1\<rparr>)"
| "stage_run Clear m dev =
     update_slot (mem_put 0 (replicate (sizeof_paxos_accepted + MAX_PAXOS_VALUE_SIZE) 0)) dev"
| "stage_run Fill m dev =
     update_slot (\<lambda>b. bindR (mem_get 0 (unat (cut_size (snd m))) (fst m)) (\<lambda>src. mem_put 0 src b)) dev"
| "stage_run Set_length m dev =
     update_slot (mem_put offset_value_len
       (le32 (size_to_int (cut_size (snd m) - of_nat sizeof_paxos_accepted)))) dev"
| "stage_run Publish m dev =
     (let cur = current_buf dev
      in bindR (load_slot dev cur) (\<lambda>b. bindR (load_callback dev cur) (\<lambda>cb.
         bindR (store_callback dev cur
                  (cb\<lparr>buffer_id := cur, cb_iid := iid (accepted_of_image b), is_done := 0\<rparr>)) (\<lambda>dev1.
         Inr (dev1\<lparr>current_buf := next_slot cur, access_wait := access_wait dev1 + 1\<rparr>)))))"

section \<open>Writers and the reader\<close>

text \<open>
  A writer: the messages it still has to write, where it is with the first of them, and
  for the earlier ones whether the handler returned a callback or NULL.
\<close>

record writer =
  w_todo :: "(byte list \<times> u64) list"
  w_at :: add_stage
  w_got :: "bool list"

definition new_writer :: "(byte list \<times> u64) list \<Rightarrow> writer" where
  "new_writer ms = \<lparr>w_todo = ms, w_at = Check, w_got = []\<rparr>"

definition returned :: "bool \<Rightarrow> writer \<Rightarrow> writer" where
  "returned got w = \<lparr>w_todo = tl (w_todo w), w_at = Check, w_got = w_got w @ [got]\<rparr>"

definition writer_step :: "writer \<Rightarrow> paxos_kernel_device \<Rightarrow> cerror + writer \<times> paxos_kernel_device" where
  "writer_step w dev =
     (case w_todo w of
        [] \<Rightarrow> Inr (w, dev)
      | m # ms \<Rightarrow>
          if w_at w = Check \<and> ring_full dev then Inr (returned False w, dev)
          else bindR (stage_run (w_at w) m dev) (\<lambda>dev1.
               Inr (if w_at w = Publish then returned True w else w\<lparr>w_at := after (w_at w)\<rparr>, dev1)))"

text \<open>
  The reader polls and, when it is told that there is a message, reads: the slot is copied,
  the message is counted as gone, and the position is advanced. A read's result is what it
  returned and the user's buffer.
\<close>

datatype read_stage = Poll | Copy | Count | Advance

record reader =
  r_at :: read_stage
  r_len :: int
  r_buf :: umem
  r_failed :: bool

definition new_reader :: reader where
  "new_reader = \<lparr>r_at = Poll, r_len = 0, r_buf = [], r_failed = False\<rparr>"

definition read_copy ::
  "to_user \<Rightarrow> umem \<Rightarrow> paxos_kernel_device \<Rightarrow> cerror + reader" where
  "read_copy ctu buffer dev =
     bindR (load_slot dev (first_buf dev)) (\<lambda>accepted.
       let llen = of_nat sizeof_paxos_accepted + int_to_size (value_len_of accepted);
           (buffer1, error_count_buffer_id) = ctu buffer 0 (le32 (of_nat (first_buf dev)))
       in bindR (mem_get 0 (unat llen) accepted) (\<lambda>src.
          let (buffer2, error_count) = ctu buffer1 4 src
          in Inr \<lparr>r_at = Count, r_len = sint llen, r_buf = buffer2,
                  r_failed = (error_count \<noteq> 0 \<or> error_count_buffer_id \<noteq> 0)\<rparr>))"

definition reader_step ::
  "to_user \<Rightarrow> umem \<Rightarrow> reader \<Rightarrow> paxos_kernel_device
   \<Rightarrow> cerror + (int \<times> umem) list \<times> reader \<times> paxos_kernel_device" where
  "reader_step ctu buffer r dev =
     (case r_at r of
        Poll \<Rightarrow> Inr ([], if write_persistence_poll dev = 1 then r\<lparr>r_at := Copy\<rparr> else r, dev)
      | Copy \<Rightarrow>
          if working dev = 0 then Inr ([(0, buffer)], new_reader, dev)
          else bindR (read_copy ctu buffer dev) (\<lambda>r1. Inr ([], r1, dev))
      | Count \<Rightarrow> Inr ([], r\<lparr>r_at := Advance\<rparr>, dev\<lparr>used_buf := used_buf dev - 1\<rparr>)
      | Advance \<Rightarrow>
          if r_failed r then Inr ([(- 1, r_buf r)], new_reader, dev)
          else Inr ([(r_len r, r_buf r)], new_reader, dev\<lparr>first_buf := next_slot (first_buf dev)\<rparr>))"

datatype race_event = Writer nat | Reader

text \<open>The result is what the reads returned, the device, the writers and the reader.\<close>

primrec race ::
  "to_user \<Rightarrow> umem \<Rightarrow> race_event list \<Rightarrow> paxos_kernel_device \<Rightarrow> writer list \<Rightarrow> reader
   \<Rightarrow> cerror + (int \<times> umem) list \<times> paxos_kernel_device \<times> writer list \<times> reader" where
  "race ctu buffer [] dev ws r = Inr ([], dev, ws, r)"
| "race ctu buffer (x # xs) dev ws r =
     (case x of
        Writer i \<Rightarrow>
          if i < length ws
          then bindR (writer_step (ws ! i) dev) (\<lambda>(w, dev1). race ctu buffer xs dev1 (ws[i := w]) r)
          else race ctu buffer xs dev ws r
      | Reader \<Rightarrow>
          bindR (reader_step ctu buffer r dev) (\<lambda>(out, r1, dev1).
          bindR (race ctu buffer xs dev1 ws r1) (\<lambda>(del, rest). Inr (out @ del, rest))))"

text \<open>The message in a buffer that a read returned with; it stands behind the slot number.\<close>

definition message_of :: "int \<times> umem \<Rightarrow> byte list" where
  "message_of d = take (nat (fst d)) (drop 4 (snd d))"

text \<open>The messages for which the handler returned a callback.\<close>

definition accepted_of :: "'m list \<Rightarrow> bool list \<Rightarrow> 'm list" where
  "accepted_of ms got = map fst (filter snd (zip ms got))"

section \<open>A message in flight\<close>

definition filled :: "byte list \<Rightarrow> paxos_kernel_device \<Rightarrow> paxos_kernel_device" where
  "filled b dev = with_slots ((slots_of dev)[current_buf dev := b]) (dev\<lparr>used_buf := used_buf dev + 1\<rparr>)"

definition raw_block :: "byte list \<times> u64 \<Rightarrow> byte list" where
  "raw_block m = take (write_size (snd m)) (fst m) @ replicate (240 - write_size (snd m)) 0"

text \<open>The device when a writer has come to a stage with a message, over the device it began with.\<close>

primrec in_flight :: "add_stage \<Rightarrow> byte list \<times> u64 \<Rightarrow> paxos_kernel_device \<Rightarrow> paxos_kernel_device" where
  "in_flight Check m dev = dev"
| "in_flight Claim m dev = dev"
| "in_flight Clear m dev = dev\<lparr>used_buf := used_buf dev + 1\<rparr>"
| "in_flight Fill m dev = filled (replicate 240 0) dev"
| "in_flight Set_length m dev = filled (raw_block m) dev"
| "in_flight Publish m dev = filled (write_block (fst m) (snd m)) dev"

lemma filled_fields [simp]:
  "current_buf (filled b dev) = current_buf dev" "first_buf (filled b dev) = first_buf dev"
  "used_buf (filled b dev) = used_buf dev + 1" "working (filled b dev) = working dev"
  "slots_of (filled b dev) = (slots_of dev)[current_buf dev := b]" "callbacks_of (filled b dev) = callbacks_of dev"
  "access_wait (filled b dev) = access_wait dev"
  by (simp_all add: filled_def)

lemma filled_buffers:
  assumes "buffers_ok dev" and "length b = 240"
  shows "buffers_ok (filled b dev)"
proof -
  have "buffers_ok (dev\<lparr>used_buf := used_buf dev + 1\<rparr>)" using assms(1) by simp
  from with_slots_buffers [OF this, of b "current_buf dev"] assms(2) show ?thesis by (simp add: filled_def size_defs)
qed

lemma with_slots_filled: "with_slots bs (filled b dev) = with_slots bs (dev\<lparr>used_buf := used_buf dev + 1\<rparr>)"
  by (simp add: filled_def with_slots_def)

lemma write_added_buffers:
  assumes "buffers_ok dev" and "current_buf dev < BUFFER_SIZE" and "write_good m"
  shows "buffers_ok (write_added (fst m) (snd m) dev)"
proof -
  let ?b = "write_block (fst m) (snd m)"
  have "length ?b = 240" using assms(3) by (cases m) (simp add: length_write_block)
  note bo = filled_buffers [OF assms(1) this]
  have "callback_ok ((callbacks_of dev ! current_buf dev)
      \<lparr>buffer_id := current_buf dev, cb_iid := iid (accepted_of_image ?b), is_done := 0\<rparr>)"
    using load_callback_ok(2) [OF assms(1,2)] by (simp add: callback_ok_def)
  from with_callbacks_buffers [OF bo this, of "current_buf dev"] show ?thesis
    by (simp add: write_added_def Let_def filled_def)
qed

lemma raw_block_length: "write_good m \<Longrightarrow> length (raw_block m) = 240"
  using write_size_le [of "snd m"] by (simp add: raw_block_def write_good_def)

lemma block_length: "write_good m \<Longrightarrow> length (write_block (fst m) (snd m)) = 240"
  by (cases m) (simp add: length_write_block)

lemma update_slot_filled:
  assumes "buffers_ok dev" and "current_buf dev < BUFFER_SIZE" and "length b = 240" and "f b = Inr b'"
  shows "update_slot f (filled b dev) = Inr (filled b' dev)"
proof -
  note bo = filled_buffers [OF assms(1,3)]
  have l: "length (slots_of dev) = BUFFER_SIZE" using assms(1) by (rule buffers_okD)
  show ?thesis
    using load_slot_ok(1) [OF bo assms(2)] store_slot_ok [OF bo assms(2), of b'] assms(2,4) l
    by (simp add: update_slot_def with_slots_filled) (simp add: filled_def)
qed

lemma cut_size_eq: "cut_size sz = of_nat (write_size sz)"
  using size1_eq [of sz] by (simp add: cut_size_def Let_def size_defs)

lemma set_length_block:
  assumes "write_good m"
  shows "mem_put offset_value_len (le32 (size_to_int (cut_size (snd m) - of_nat sizeof_paxos_accepted))) (raw_block m)
    = Inr (write_block (fst m) (snd m))"
proof -
  let ?n = "write_size (snd m)"
  have "of_nat ?n - of_nat 40 = (word_of_int (int ?n - 40) :: u64)" by simp
  then have "size_to_int (of_nat ?n - of_nat 40) = word_of_int (int ?n - 40)" by (simp only: size_to_int_of_int)
  with raw_block_length [OF assms] show ?thesis
    by (simp add: cut_size_eq size_defs mem_put_def write_block_def raw_block_def Let_def)
qed

text \<open>Every stage leads to the next, and the last one to the device of the whole handler.\<close>

lemma stage_runs:
  assumes "buffers_ok dev" and "current_buf dev < BUFFER_SIZE" and "write_good m"
  shows "stage_run s m (in_flight s m dev) =
    Inr (if s = Publish then write_added (fst m) (snd m) dev else in_flight (after s) m dev)"
proof (cases s)
  case Clear
  have b: "buffers_ok (dev\<lparr>used_buf := used_buf dev + 1\<rparr>)" using assms(1) by simp
  have "length (slots_of dev ! current_buf dev) = 240"
    using load_slot_ok(2) [OF assms(1,2)] by (simp add: size_defs)
  with Clear load_slot_ok(1) [OF b] store_slot_ok [OF b] assms(2) show ?thesis
    by (simp add: update_slot_def mem_put_def size_defs filled_def)
next
  case Fill
  let ?n = "write_size (snd m)"
  have n: "?n \<le> 240" "?n \<le> length (fst m)" "unat (cut_size (snd m)) = ?n"
    using write_size_le [of "snd m"] assms(3) by (simp_all add: write_good_def cut_size_eq unat_of_nat64)
  then have "bindR (mem_get 0 (unat (cut_size (snd m))) (fst m)) (\<lambda>src. mem_put 0 src (replicate 240 0)) = Inr (raw_block m)"
    by (simp add: mem_get_def mem_put_def raw_block_def)
  with Fill update_slot_filled [OF assms(1,2)] show ?thesis by simp
next
  case Set_length
  have "update_slot (mem_put offset_value_len (le32 (size_to_int (cut_size (snd m) - of_nat sizeof_paxos_accepted))))
      (filled (raw_block m) dev) = Inr (filled (write_block (fst m) (snd m)) dev)"
    by (rule update_slot_filled [OF assms(1,2) raw_block_length [OF assms(3)]]) (rule set_length_block [OF assms(3)])
  with Set_length show ?thesis by simp
next
  case Publish
  let ?b = "write_block (fst m) (snd m)"
  note bo = filled_buffers [OF assms(1) block_length [OF assms(3)]]
  have l: "length (slots_of dev) = BUFFER_SIZE" using assms(1) by (rule buffers_okD)
  show ?thesis
    using Publish assms(2) l load_slot_ok(1) [OF bo, of "current_buf dev"] load_callback_ok(1) [OF bo, of "current_buf dev"]
      store_callback_ok [OF bo, of "current_buf dev"]
    by (simp add: write_added_def Let_def) (simp add: filled_def)
qed simp_all

lemma in_flight_claimed:
  assumes "s \<noteq> Check" and "s \<noteq> Claim"
  shows "used_buf (in_flight s m dev) = used_buf dev + 1"
  using assms by (cases s) simp_all

lemma in_flight_fields [simp]:
  "current_buf (in_flight s m dev) = current_buf dev" "first_buf (in_flight s m dev) = first_buf dev"
  "working (in_flight s m dev) = working dev" "callbacks_of (in_flight s m dev) = callbacks_of dev"
  by (cases s; simp)+

lemma in_flight_buffers: "buffers_ok dev \<Longrightarrow> write_good m \<Longrightarrow> buffers_ok (in_flight s m dev)"
  by (cases s) (simp_all add: filled_buffers raw_block_length block_length)

text \<open>Only the slot at the current position is written.\<close>

lemma in_flight_slots:
  assumes "i \<noteq> current_buf dev"
  shows "slots_of (in_flight s m dev) ! i = slots_of dev ! i"
  using assms by (cases s) simp_all

section \<open>One writer, undisturbed\<close>

lemma returned_at [simp]: "returned got (w\<lparr>w_at := s\<rparr>) = returned got w"
  by (simp add: returned_def)

lemma returned_fields [simp]:
  "w_todo (returned got w) = tl (w_todo w)" "w_at (returned got w) = Check" "w_got (returned got w) = w_got w @ [got]"
  by (simp_all add: returned_def)

lemma new_writer_fields [simp]:
  "w_todo (new_writer ms) = ms" "w_at (new_writer ms) = Check" "w_got (new_writer ms) = []"
  by (simp_all add: new_writer_def)

lemma writer_same: "w_at w = s \<Longrightarrow> w\<lparr>w_at := s\<rparr> = w"
  by (cases w) simp

lemma writer_steps:
  assumes "buffers_ok dev" and "current_buf dev < BUFFER_SIZE" and "write_good m" and "w_todo w = m # ms"
    and "\<not> (s = Check \<and> ring_full dev)"
  shows "writer_step (w\<lparr>w_at := s\<rparr>) (in_flight s m dev) =
    Inr (if s = Publish then (returned True w, write_added (fst m) (snd m) dev)
         else (w\<lparr>w_at := after s\<rparr>, in_flight (after s) m dev))"
  using stage_runs [OF assms(1-3), of s] assms(4,5) by (cases s) (auto simp: writer_step_def)

section \<open>A writer and a reader that stays behind\<close>

text \<open>
  \<open>calm\<close>: whenever the reader is told that there is a message, there is one that was
  published; a claimed slot whose message is still being written does not count.
\<close>

definition claims :: "writer \<Rightarrow> int" where
  "claims w = of_bool (w_todo w \<noteq> [] \<and> w_at w \<noteq> Check \<and> w_at w \<noteq> Claim)"

primrec calm ::
  "to_user \<Rightarrow> umem \<Rightarrow> race_event list \<Rightarrow> paxos_kernel_device \<Rightarrow> writer \<Rightarrow> reader \<Rightarrow> bool" where
  "calm ctu buffer [] dev w r = True"
| "calm ctu buffer (x # xs) dev w r =
     (case x of
        Writer i \<Rightarrow> i = 0 \<and> (case writer_step w dev of Inl _ \<Rightarrow> True | Inr (w1, dev1) \<Rightarrow> calm ctu buffer xs dev1 w1 r)
      | Reader \<Rightarrow>
          (r_at r = Poll \<and> write_persistence_poll dev = 1 \<longrightarrow> claims w < sint (used_buf dev))
          \<and> (case reader_step ctu buffer r dev of Inl _ \<Rightarrow> True | Inr (out, r1, dev1) \<Rightarrow> calm ctu buffer xs dev1 w r1))"

text \<open>The state of a writer over a device \<open>base\<close> that holds the published messages.\<close>

definition flight_inv ::
  "to_user \<Rightarrow> umem \<Rightarrow> paxos_kernel_device \<Rightarrow> paxos_kernel_device \<Rightarrow> writer \<Rightarrow> bool" where
  "flight_inv ctu buffer base dev w \<longleftrightarrow> write_inv ctu buffer base \<and> (\<forall>m \<in> set (w_todo w). write_good m)
     \<and> (w_at w = Check \<longrightarrow> dev = base)
     \<and> (w_at w \<noteq> Check \<longrightarrow> w_todo w \<noteq> [] \<and> dev = in_flight (w_at w) (hd (w_todo w)) base
          \<and> length (frames base) < BUFFER_SIZE)"

lemma flight_dev: "flight_inv ctu buffer base dev w \<Longrightarrow> dev = in_flight (w_at w) (hd (w_todo w)) base"
  by (cases "w_at w = Check") (simp_all add: flight_inv_def)

lemma write_inv_ring:
  assumes "write_inv ctu buffer dev"
  obtains n where "ring_ok n dev" and "length (frames dev) = n" and "buffers_ok dev" and "current_buf dev < BUFFER_SIZE"
    and "first_buf dev < BUFFER_SIZE"
proof -
  from assms obtain n where n: "ring_ok n dev" "length (frames dev) = n"
    by (auto simp: write_inv_def elim: channel_okE)
  with ring_ok_bounds [OF n(1)] show ?thesis by (intro that [of n]) (simp_all add: ring_ok_def)
qed

lemma write_added_inv:
  assumes "write_inv ctu buffer dev" and "write_good m" and "length (frames dev) < BUFFER_SIZE"
  shows "write_inv ctu buffer (write_added (fst m) (snd m) dev)"
    and "frames (write_added (fst m) (snd m) dev) = frames dev @ [write_frame m]"
proof -
  from write_inv_ring [OF assms(1)] obtain n where n: "ring_ok n dev" "length (frames dev) = n" by blast
  have "write_put m dev = Inr (Some (current_buf dev), write_added (fst m) (snd m) dev)"
    using add_message_room [OF n(1), of "fst m" "snd m"] assms(2,3) n(2) by (simp add: write_put_def)
  with write_put_room [OF assms] show "write_inv ctu buffer (write_added (fst m) (snd m) dev)"
    "frames (write_added (fst m) (snd m) dev) = frames dev @ [write_frame m]" by auto
qed

text \<open>
  A writer's step publishes nothing, or its message, or drops the message for a full ring:
  \<open>a\<close> is what it publishes, \<open>g\<close> what it is done with and \<open>got\<close> what the handler returned for it.
\<close>

lemma flight_writer:
  assumes "flight_inv ctu buffer base dev w"
  obtains w1 dev1 base1 a g got where "writer_step w dev = Inr (w1, dev1)" and "flight_inv ctu buffer base1 dev1 w1"
    and "frames base1 = frames base @ map write_frame a" and "w_todo w = g @ w_todo w1" and "w_got w1 = w_got w @ got"
    and "length got = length g" and "a = accepted_of g got"
proof (cases "w_todo w")
  case Nil
  with assms show ?thesis by (intro that [of w dev base "[]" "[]" "[]"]) (simp_all add: writer_step_def accepted_of_def)
next
  case (Cons m ms)
  have inv: "write_inv ctu buffer base" and good: "write_good m" "\<forall>m \<in> set ms. write_good m"
    using assms Cons by (simp_all add: flight_inv_def)
  obtain n where n: "ring_ok n base" "length (frames base) = n" "buffers_ok base" "current_buf base < BUFFER_SIZE"
    by (rule write_inv_ring [OF inv])
  have dev: "dev = in_flight (w_at w) m base" using flight_dev [OF assms] Cons by simp
  consider (drop) "w_at w = Check" "ring_full base" | (publish) "w_at w = Publish"
    | (go) "w_at w \<noteq> Publish" "\<not> (w_at w = Check \<and> ring_full base)" by blast
  then show ?thesis
  proof cases
    case drop
    with Cons dev inv good show ?thesis
      by (intro that [of "returned False w" dev base "[]" "[m]" "[False]"])
        (simp_all add: writer_step_def accepted_of_def flight_inv_def)
  next
    case publish
    have room: "length (frames base) < BUFFER_SIZE" using publish assms by (simp add: flight_inv_def)
    have "writer_step w dev = Inr (returned True w, write_added (fst m) (snd m) base)"
      using writer_steps [OF n(3,4) good(1) Cons, of Publish] publish dev by (simp add: writer_same)
    with write_added_inv [OF inv good(1) room] good(2) Cons show ?thesis
      by (intro that [of "returned True w" _ "write_added (fst m) (snd m) base" "[m]" "[m]" "[True]"])
        (simp_all add: accepted_of_def flight_inv_def)
  next
    case go
    have "writer_step w dev = Inr (w\<lparr>w_at := after (w_at w)\<rparr>, in_flight (after (w_at w)) m base)"
      using writer_steps [OF n(3,4) good(1) Cons go(2)] go(1) dev by (simp add: writer_same)
    moreover have "length (frames base) < BUFFER_SIZE"
    proof (cases "w_at w = Check")
      case True
      with go(2) n show ?thesis using ring_ok_used(4) [OF n(1)] by (auto simp: ring_ok_def)
    qed (use assms in \<open>simp add: flight_inv_def\<close>)
    moreover have "after (w_at w) \<noteq> Check" using go(1) by (cases "w_at w") simp_all
    ultimately show ?thesis using Cons inv good
      by (intro that [of "w\<lparr>w_at := after (w_at w)\<rparr>" "in_flight (after (w_at w)) m base" base "[]" "[]" "[]"])
        (simp_all add: accepted_of_def flight_inv_def)
  qed
qed

text \<open>A writer does not look at the reader's position.\<close>

lemma bindR_map_sum: "bindR (map_sum id f m) g = bindR m (\<lambda>x. g (f x))"
  by (cases m) simp_all

lemma load_first_buf [simp]:
  "load_slot (dev\<lparr>first_buf := p\<rparr>) i = load_slot dev i"
  "load_callback (dev\<lparr>first_buf := p\<rparr>) i = load_callback dev i"
  by (simp_all add: load_slot_def load_callback_def)

lemma swap_first_buf:
  "dev\<lparr>msg_buf := ms, first_buf := p\<rparr> = dev\<lparr>first_buf := p, msg_buf := ms\<rparr>"
  "dev\<lparr>callback_buf := cs, first_buf := p\<rparr> = dev\<lparr>first_buf := p, callback_buf := cs\<rparr>"
  "dev\<lparr>used_buf := u, first_buf := p\<rparr> = dev\<lparr>first_buf := p, used_buf := u\<rparr>"
  "dev\<lparr>current_buf := c, access_wait := a, first_buf := p\<rparr> = dev\<lparr>first_buf := p, current_buf := c, access_wait := a\<rparr>"
  by (cases dev; simp)+

lemma store_first_buf [simp]:
  "store_slot (dev\<lparr>first_buf := p\<rparr>) i = (\<lambda>b. map_sum id (\<lambda>d. d\<lparr>first_buf := p\<rparr>) (store_slot dev i b))"
  "store_callback (dev\<lparr>first_buf := p\<rparr>) i = (\<lambda>c. map_sum id (\<lambda>d. d\<lparr>first_buf := p\<rparr>) (store_callback dev i c))"
  by (simp_all add: fun_eq_iff store_slot_def store_callback_def map_sum_bindR swap_first_buf)

lemma update_slot_first_buf [simp]:
  "update_slot f (dev\<lparr>first_buf := p\<rparr>) = map_sum id (\<lambda>d. d\<lparr>first_buf := p\<rparr>) (update_slot f dev)"
  by (simp add: update_slot_def map_sum_bindR)

lemma stage_first_buf:
  "stage_run s m (dev\<lparr>first_buf := p\<rparr>) = map_sum id (\<lambda>d. d\<lparr>first_buf := p\<rparr>) (stage_run s m dev)"
  by (cases s) (simp_all add: Let_def map_sum_bindR bindR_map_sum swap_first_buf)

lemma writer_first_buf:
  "writer_step w (dev\<lparr>first_buf := p\<rparr>) = map_sum id (\<lambda>(w1, d). (w1, d\<lparr>first_buf := p\<rparr>)) (writer_step w dev)"
proof (cases "w_todo w")
  case (Cons m ms)
  have "ring_full (dev\<lparr>first_buf := p\<rparr>) = ring_full dev" by (simp add: ring_full_def)
  with Cons show ?thesis
    by (cases "w_at w = Check \<and> ring_full dev") (auto simp: writer_step_def stage_first_buf map_sum_bindR bindR_map_sum)
qed (simp add: writer_step_def)

lemma writer_keeps_first_buf:
  assumes "writer_step w dev = Inr (w1, dev1)"
  shows "first_buf dev1 = first_buf dev"
proof -
  have "writer_step w dev = map_sum id (\<lambda>(w1, d). (w1, d\<lparr>first_buf := first_buf dev\<rparr>)) (writer_step w dev)"
    using writer_first_buf [of w "first_buf dev" dev] by simp
  with assms have "dev1 = dev1\<lparr>first_buf := first_buf dev\<rparr>" by simp
  then have "first_buf dev1 = first_buf (dev1\<lparr>first_buf := first_buf dev\<rparr>)" by (rule arg_cong)
  then show ?thesis by simp
qed

lemma flight_published:
  assumes "flight_inv ctu buffer base dev w" and "claims w < sint (used_buf dev)" and "w_at w \<noteq> Check"
    and "ring_ok n base" and "length (frames base) = n"
  shows "0 < n"
proof -
  have todo: "w_todo w \<noteq> []" and dev: "dev = in_flight (w_at w) (hd (w_todo w)) base"
    and room: "length (frames base) < BUFFER_SIZE" using assms(1,3) by (simp_all add: flight_inv_def)
  have u: "used_buf base = of_nat n" using assms(4) by (simp add: ring_ok_def)
  show ?thesis
  proof (cases "w_at w = Claim")
    case True
    then show ?thesis using assms(2) todo u dev by (cases n) (simp_all add: claims_def)
  next
    case False
    have "used_buf dev = of_nat (n + 1)" using in_flight_claimed [OF assms(3) False] u dev by (simp add: add.commute)
    then have "sint (used_buf dev) = int (n + 1)"
      using room assms(5) by (simp only:) (rule sint_of_nat32, simp add: BUFFER_SIZE_def)
    with assms(2,3) False todo show ?thesis by (simp add: claims_def)
  qed
qed

lemma in_flight_pop:
  "in_flight s m (base\<lparr>used_buf := used_buf base - 1, first_buf := f\<rparr>) =
    (in_flight s m base)\<lparr>used_buf := used_buf (in_flight s m base) - 1, first_buf := f\<rparr>"
  by (cases s) (simp_all add: filled_def with_slots_def slots_of_def)

text \<open>The oldest published message is where the reader looks, whatever the writer is doing.\<close>

lemma flight_front:
  assumes "flight_inv ctu buffer base dev w" and "frames base \<noteq> []"
  shows "buffers_ok dev" and "first_buf dev < BUFFER_SIZE" and "working dev \<noteq> 0" and "copy_to_user_ok ctu"
    and "244 \<le> length buffer" and "payload (slots_of dev ! first_buf dev) = hd (frames base)"
    and "frame_len (slots_of dev ! first_buf dev) \<le> 240"
proof -
  let ?m = "hd (w_todo w)" and ?s = "w_at w"
  have inv: "write_inv ctu buffer base" using assms(1) by (simp add: flight_inv_def)
  note dev = flight_dev [OF assms(1)]
  obtain n where n: "ring_ok n base" "length (frames base) = n" "buffers_ok base" "current_buf base < BUFFER_SIZE"
    "first_buf base < BUFFER_SIZE" by (rule write_inv_ring [OF inv])
  have pos: "0 < n" using n(2) assms(2) by auto
  have "slots_of dev ! first_buf base = slots_of base ! first_buf base"
  proof (cases "?s = Check")
    case False
    then have "length (frames base) < BUFFER_SIZE" using assms(1) by (simp add: flight_inv_def)
    then have "first_buf base \<noteq> current_buf base"
      using n(1,2,5) pos ring_slot_distinct [of 0 n BUFFER_SIZE "first_buf base"] by (simp add: ring_ok_def)
    then show ?thesis using in_flight_slots [of "first_buf base" base ?s ?m] dev by simp
  qed (use dev in simp)
  moreover note pop = ring_pop [OF n(1) pos refl]
  ultimately have b: "slots_of dev ! first_buf dev = hd (queued base)" using dev by simp
  then show "payload (slots_of dev ! first_buf dev) = hd (frames base)"
    using pop(4) by (simp add: frames_def hd_map)
  show "frame_len (slots_of dev ! first_buf dev) \<le> 240"
    using inv pop(4) unfolding b by (auto simp: write_inv_def channel_ok_def size_defs)
  show "buffers_ok dev"
  proof (cases "?s = Check")
    case False
    then have "write_good ?m" using assms(1) by (auto simp: flight_inv_def)
    then show ?thesis using in_flight_buffers [OF n(3), of ?m ?s] dev by simp
  qed (use dev n(3) in simp)
  show "first_buf dev < BUFFER_SIZE" "working dev \<noteq> 0" "copy_to_user_ok ctu" "244 \<le> length buffer"
    using dev n(5) inv by (simp_all add: write_inv_def)
qed

lemma flight_pop:
  assumes "flight_inv ctu buffer base dev w" and "frames base \<noteq> []"
  shows "\<exists>base1. flight_inv ctu buffer base1 (dev\<lparr>used_buf := used_buf dev - 1, first_buf := next_slot (first_buf dev)\<rparr>) w
    \<and> frames base1 = tl (frames base)"
proof -
  let ?base1 = "base\<lparr>used_buf := used_buf base - 1, first_buf := next_slot (first_buf base)\<rparr>"
  have inv: "write_inv ctu buffer base" using assms(1) by (simp add: flight_inv_def)
  obtain n where n: "ring_ok n base" "length (frames base) = n" "buffers_ok base" "first_buf base < BUFFER_SIZE"
    by (rule write_inv_ring [OF inv])
  have pos: "0 < n" using n(2) assms(2) by auto
  note pop = ring_pop [OF n(1) pos refl]
  have fl: "frame_len (hd (queued base)) \<le> 240" using inv pop(4) by (auto simp: write_inv_def channel_ok_def size_defs)
  have base1: "write_inv ctu buffer ?base1" "frames ?base1 = tl (frames base)"
    using write_get_item [OF inv assms(2)] write_get_slot [OF n(3,4) _ _ pop(3) fl] inv
    by (auto simp: write_inv_def)
  have "in_flight s m ?base1 = (in_flight s m base)
      \<lparr>used_buf := used_buf (in_flight s m base) - 1, first_buf := next_slot (first_buf (in_flight s m base))\<rparr>" for s m
    using in_flight_pop [where f = "next_slot (first_buf base)"] by simp
  then have "flight_inv ctu buffer ?base1
      (dev\<lparr>used_buf := used_buf dev - 1, first_buf := next_slot (first_buf dev)\<rparr>) w"
    using assms(1) base1 flight_dev [OF assms(1)] by (auto simp: flight_inv_def)
  with base1(2) show ?thesis by blast
qed

section \<open>The reader's steps\<close>

lemma new_reader_fields [simp]: "r_at new_reader = Poll"
  by (simp add: new_reader_def)

text \<open>The read handler is its copy, and then the two changes of the device.\<close>

lemma read_by_copy:
  assumes "working dev \<noteq> 0"
  shows "write_persistence_read ctu buffer dev =
    map_sum id (\<lambda>r. (if r_failed r then - 1 else r_len r, r_buf r,
      if r_failed r then dev\<lparr>used_buf := used_buf dev - 1\<rparr>
      else dev\<lparr>used_buf := used_buf dev - 1, first_buf := next_slot (first_buf dev)\<rparr>)) (read_copy ctu buffer dev)"
  using assms by (auto simp: write_persistence_read_def read_copy_def Let_def map_sum_bindR case_prod_beta intro!: bindR_cong)

lemma copy_at: "read_copy ctu buffer dev = Inr r \<Longrightarrow> r_at r = Count"
  by (auto simp: read_copy_def bindR_eq_Inr Let_def case_prod_beta)

lemma copy_front:
  assumes "flight_inv ctu buffer base dev w" and "frames base \<noteq> []"
  obtains r where "read_copy ctu buffer dev = Inr r" and "r_at r = Count" and "\<not> r_failed r"
    and "message_of (r_len r, r_buf r) = hd (frames base)"
proof -
  note f = flight_front [OF assms]
  let ?b = "slots_of dev ! first_buf dev"
  have l: "length (payload ?b) = frame_len ?b"
    using load_slot_ok(2) [OF f(1,2)] f(7) by (simp add: payload_def size_defs)
  have "write_persistence_read ctu buffer dev =
    Inr (int (frame_len ?b), le32 (of_nat (first_buf dev)) @ payload ?b @ drop (4 + frame_len ?b) buffer,
         dev\<lparr>used_buf := used_buf dev - 1, first_buf := next_slot (first_buf dev)\<rparr>)"
    using f(5,7) by (intro read_slot f refl) simp
  then obtain r where r: "read_copy ctu buffer dev = Inr r"
    "(if r_failed r then - 1 else r_len r) = int (frame_len ?b)"
    "r_buf r = le32 (of_nat (first_buf dev)) @ payload ?b @ drop (4 + frame_len ?b) buffer"
    unfolding read_by_copy [OF f(3)] by (cases "read_copy ctu buffer dev") auto
  then have "\<not> r_failed r" "r_len r = int (frame_len ?b)" by (simp_all split: if_splits)
  with r l f(6) copy_at [OF r(1)] show ?thesis by (intro that [of r]) (simp_all add: message_of_def)
qed

text \<open>
  Writer and reader together. Between its last two steps the reader has a message in hand
  that is no longer counted, and its position is one behind.
\<close>

definition joint_inv ::
  "to_user \<Rightarrow> umem \<Rightarrow> paxos_kernel_device \<Rightarrow> paxos_kernel_device \<Rightarrow> writer \<Rightarrow> reader \<Rightarrow> byte list list \<Rightarrow> bool" where
  "joint_inv ctu buffer base dev w r hand \<longleftrightarrow>
     (if r_at r = Advance
      then flight_inv ctu buffer base (dev\<lparr>first_buf := next_slot (first_buf dev)\<rparr>) w
        \<and> \<not> r_failed r \<and> hand = [message_of (r_len r, r_buf r)]
      else flight_inv ctu buffer base dev w \<and> hand = [] \<and> (r_at r \<noteq> Poll \<longrightarrow> frames base \<noteq> [])
        \<and> (r_at r = Count \<longrightarrow> \<not> r_failed r \<and> message_of (r_len r, r_buf r) = hd (frames base)))"

lemma joint_writer:
  assumes "joint_inv ctu buffer base dev w r hand"
  obtains w1 dev1 base1 a g got where "writer_step w dev = Inr (w1, dev1)" and "joint_inv ctu buffer base1 dev1 w1 r hand"
    and "frames base1 = frames base @ map write_frame a" and "w_todo w = g @ w_todo w1" and "w_got w1 = w_got w @ got"
    and "length got = length g" and "a = accepted_of g got"
proof (cases "r_at r = Advance")
  case True
  let ?dev = "dev\<lparr>first_buf := next_slot (first_buf dev)\<rparr>"
  have "flight_inv ctu buffer base ?dev w" using assms True by (simp add: joint_inv_def)
  then obtain w1 d base1 a g got where st: "writer_step w ?dev = Inr (w1, d)" "flight_inv ctu buffer base1 d w1"
    "frames base1 = frames base @ map write_frame a" "w_todo w = g @ w_todo w1" "w_got w1 = w_got w @ got"
    "length got = length g" "a = accepted_of g got" by (rule flight_writer)
  from st(1) obtain dev1 where dev1: "writer_step w dev = Inr (w1, dev1)" "d = dev1\<lparr>first_buf := next_slot (first_buf dev)\<rparr>"
    unfolding writer_first_buf by (cases "writer_step w dev") auto
  with st(2) assms True writer_keeps_first_buf [OF dev1(1)] have "joint_inv ctu buffer base1 dev1 w1 r hand"
    by (simp add: joint_inv_def)
  with dev1(1) show ?thesis using st(3-7) by (rule that)
next
  case False
  then have "flight_inv ctu buffer base dev w" using assms by (simp add: joint_inv_def)
  then obtain w1 dev1 base1 a g got where st: "writer_step w dev = Inr (w1, dev1)" "flight_inv ctu buffer base1 dev1 w1"
    "frames base1 = frames base @ map write_frame a" "w_todo w = g @ w_todo w1" "w_got w1 = w_got w @ got"
    "length got = length g" "a = accepted_of g got" by (rule flight_writer)
  have "joint_inv ctu buffer base1 dev1 w1 r hand" using False assms st(2,3) by (auto simp: joint_inv_def)
  with st(1) show ?thesis using st(3-7) by (rule that)
qed

lemma joint_reader:
  assumes "joint_inv ctu buffer base dev w r hand"
    and "r_at r = Poll \<longrightarrow> write_persistence_poll dev = 1 \<longrightarrow> claims w < sint (used_buf dev)"
  obtains out r1 dev1 base1 hand1 where "reader_step ctu buffer r dev = Inr (out, r1, dev1)"
    and "joint_inv ctu buffer base1 dev1 w r1 hand1"
    and "hand @ frames base = map message_of out @ hand1 @ frames base1"
proof (cases "r_at r")
  case Poll
  then have fl: "flight_inv ctu buffer base dev w" using assms(1) by (simp add: joint_inv_def)
  have "frames base \<noteq> []" if poll: "write_persistence_poll dev = 1"
  proof (cases "w_at w = Check")
    case True
    then have "dev = base" "write_inv ctu buffer base" using fl by (simp_all add: flight_inv_def)
    with poll show ?thesis using wchan.ready_iff by simp
  next
    case False
    have c: "claims w < sint (used_buf dev)" using assms(2) Poll poll by simp
    have "write_inv ctu buffer base" using fl by (simp add: flight_inv_def)
    then obtain n where "ring_ok n base" "length (frames base) = n" by (rule write_inv_ring)
    with flight_published [OF fl c False] show ?thesis by auto
  qed
  then show ?thesis using Poll assms(1)
    by (intro that [of "[]" "if write_persistence_poll dev = 1 then r\<lparr>r_at := Copy\<rparr> else r" dev base "[]"])
      (simp_all add: reader_step_def joint_inv_def)
next
  case Copy
  then have fl: "flight_inv ctu buffer base dev w" "frames base \<noteq> []" using assms(1) by (simp_all add: joint_inv_def)
  obtain r1 where r1: "read_copy ctu buffer dev = Inr r1" "r_at r1 = Count" "\<not> r_failed r1"
    "message_of (r_len r1, r_buf r1) = hd (frames base)" by (rule copy_front [OF fl])
  with Copy fl assms(1) flight_front(3) [OF fl] show ?thesis
    by (intro that [of "[]" r1 dev base "[]"]) (simp_all add: reader_step_def joint_inv_def)
next
  case Count
  then have fl: "flight_inv ctu buffer base dev w" "frames base \<noteq> []" using assms(1) by (simp_all add: joint_inv_def)
  from flight_pop [OF fl] obtain base1 where
    "flight_inv ctu buffer base1 (dev\<lparr>used_buf := used_buf dev - 1, first_buf := next_slot (first_buf dev)\<rparr>) w"
    "frames base1 = tl (frames base)" by blast
  with Count fl(2) assms(1) show ?thesis
    by (intro that [of "[]" "r\<lparr>r_at := Advance\<rparr>" "dev\<lparr>used_buf := used_buf dev - 1\<rparr>" base1 "[hd (frames base)]"])
      (simp_all add: reader_step_def joint_inv_def)
next
  case Advance
  with assms(1) show ?thesis
    by (intro that [of "[(r_len r, r_buf r)]" new_reader "dev\<lparr>first_buf := next_slot (first_buf dev)\<rparr>" base "[]"])
      (simp_all add: reader_step_def joint_inv_def)
qed

lemma accepted_of_append:
  "length g = length got \<Longrightarrow> accepted_of (g @ g') (got @ got') = accepted_of g got @ accepted_of g' got'"
  by (simp add: accepted_of_def)

lemma calm_race:
  assumes "joint_inv ctu buffer base dev w r hand" and "calm ctu buffer xs dev w r"
  shows "\<exists>del dev' w' r' base' hand' gone got. race ctu buffer xs dev [w] r = Inr (del, dev', [w'], r')
    \<and> joint_inv ctu buffer base' dev' w' r' hand' \<and> w_todo w = gone @ w_todo w' \<and> w_got w' = w_got w @ got
    \<and> length got = length gone
    \<and> hand @ frames base @ map write_frame (accepted_of gone got) = map message_of del @ hand' @ frames base'"
  using assms
proof (induction xs arbitrary: base dev w r hand)
  case Nil
  then show ?case
    by (intro exI [of _ "[]"] exI [of _ dev] exI [of _ w] exI [of _ r] exI [of _ base] exI [of _ hand])
      (simp add: accepted_of_def)
next
  case (Cons x xs)
  show ?case
  proof (cases x)
    case Reader
    with Cons.prems(2) have "r_at r = Poll \<longrightarrow> write_persistence_poll dev = 1 \<longrightarrow> claims w < sint (used_buf dev)" by simp
    with Cons.prems(1) obtain out r1 dev1 base1 hand1 where st: "reader_step ctu buffer r dev = Inr (out, r1, dev1)"
      "joint_inv ctu buffer base1 dev1 w r1 hand1" "hand @ frames base = map message_of out @ hand1 @ frames base1"
      by (rule joint_reader)
    with Reader Cons.prems(2) have "calm ctu buffer xs dev1 w r1" by simp
    from Cons.IH [OF st(2) this] obtain del dev' w' r' base' hand' gone got where
      r: "race ctu buffer xs dev1 [w] r1 = Inr (del, dev', [w'], r')" "joint_inv ctu buffer base' dev' w' r' hand'"
        "w_todo w = gone @ w_todo w'" "w_got w' = w_got w @ got" "length got = length gone"
        "hand1 @ frames base1 @ map write_frame (accepted_of gone got) = map message_of del @ hand' @ frames base'"
      by blast
    have "race ctu buffer (x # xs) dev [w] r = Inr (out @ del, dev', [w'], r')" using Reader st(1) r(1) by simp
    moreover have "hand @ frames base @ map write_frame (accepted_of gone got) = map message_of (out @ del) @ hand' @ frames base'"
      using st(3) r(6) by (simp flip: append_assoc) (simp add: append_assoc)
    ultimately show ?thesis using r(2-5) by blast
  next
    case (Writer i)
    obtain w1 dev1 base1 a g gs where st: "writer_step w dev = Inr (w1, dev1)" "joint_inv ctu buffer base1 dev1 w1 r hand"
      "frames base1 = frames base @ map write_frame a" "w_todo w = g @ w_todo w1" "w_got w1 = w_got w @ gs"
      "length gs = length g" "a = accepted_of g gs" by (rule joint_writer [OF Cons.prems(1)])
    with Writer Cons.prems(2) have i: "i = 0" and "calm ctu buffer xs dev1 w1 r" by simp_all
    from Cons.IH [OF st(2) this(2)] obtain del dev' w' r' base' hand' gone got where
      r: "race ctu buffer xs dev1 [w1] r = Inr (del, dev', [w'], r')" "joint_inv ctu buffer base' dev' w' r' hand'"
        "w_todo w1 = gone @ w_todo w'" "w_got w' = w_got w1 @ got" "length got = length gone"
        "hand @ frames base1 @ map write_frame (accepted_of gone got) = map message_of del @ hand' @ frames base'"
      by blast
    have "race ctu buffer (x # xs) dev [w] r = Inr (del, dev', [w'], r')" using Writer i st(1) r(1) by simp
    moreover have "w_todo w = (g @ gone) @ w_todo w'" "w_got w' = w_got w @ (gs @ got)" "length (gs @ got) = length (g @ gone)"
      using st(4-6) r(3-5) by simp_all
    moreover have "hand @ frames base @ map write_frame (accepted_of (g @ gone) (gs @ got)) =
        map message_of del @ hand' @ frames base'"
      using st(3,6,7) r(6) by (simp add: accepted_of_append)
    ultimately show ?thesis using r(2) by blast
  qed
qed

section \<open>Whole schedules\<close>

lemma race_step:
  assumes "i < length ws" and "writer_step (ws ! i) dev = Inr (w, dev1)"
  shows "race ctu buffer (Writer i # xs) dev ws r = race ctu buffer xs dev1 (ws[i := w]) r"
  using assms by simp

text \<open>A stage of the \<open>i\<close>-th writer, in any company.\<close>

lemma race_stage:
  assumes "buffers_ok dev" and "current_buf dev < BUFFER_SIZE" and "write_good m" and "w_todo w = m # ms"
    and "i < length ws" and "ws ! i = w\<lparr>w_at := s\<rparr>" and "\<not> (s = Check \<and> ring_full dev)"
  shows "race ctu buffer (Writer i # xs) (in_flight s m dev) ws r =
    (if s = Publish then race ctu buffer xs (write_added (fst m) (snd m) dev) (ws[i := returned True w]) r
     else race ctu buffer xs (in_flight (after s) m dev) (ws[i := w\<lparr>w_at := after s\<rparr>]) r)"
  using race_step [OF assms(5), of "in_flight s m dev"] writer_steps [OF assms(1-4,7)] assms(6)
  by (cases "s = Publish") (simp_all del: race.simps in_flight.simps)

text \<open>The three stages that write a claimed slot.\<close>

lemma race_fill:
  assumes "buffers_ok dev" and "current_buf dev < BUFFER_SIZE" and "write_good m" and "w_todo w = m # ms"
    and "i < length ws" and "ws ! i = w\<lparr>w_at := Clear\<rparr>"
  shows "race ctu buffer (Writer i # Writer i # Writer i # xs) (in_flight Clear m dev) ws r =
    race ctu buffer xs (in_flight Publish m dev) (ws[i := w\<lparr>w_at := Publish\<rparr>]) r"
  using assms(5,6) by (simp add: race_stage [OF assms(1-4)] del: race.simps in_flight.simps)

lemma race_claim:
  assumes "\<not> ring_full dev"
  shows "race ctu buffer (Writer 0 # Writer 0 # xs) dev [new_writer (m # ms)] r =
    race ctu buffer xs (dev\<lparr>used_buf := used_buf dev + 1\<rparr>) [(new_writer (m # ms))\<lparr>w_at := Clear\<rparr>] r"
  using assms by (simp add: writer_step_def)

lemma race_add:
  assumes "buffers_ok dev" and "current_buf dev < BUFFER_SIZE" and "write_good m"
  shows "race ctu buffer (Writer 0 # Writer 0 # Writer 0 # Writer 0 # xs) (dev\<lparr>used_buf := used_buf dev + 1\<rparr>)
      [(new_writer (m # ms))\<lparr>w_at := Clear\<rparr>] r =
    race ctu buffer xs (write_added (fst m) (snd m) dev) [returned True (new_writer (m # ms))] r"
proof -
  have t: "w_todo (new_writer (m # ms)) = m # ms" by simp
  have c: "dev\<lparr>used_buf := used_buf dev + 1\<rparr> = in_flight Clear m dev" by simp
  show ?thesis unfolding c
    using race_fill [OF assms t, of 0 "[(new_writer (m # ms))\<lparr>w_at := Clear\<rparr>]" ctu buffer "Writer 0 # xs" r]
      race_stage [OF assms t, of 0 "[(new_writer (m # ms))\<lparr>w_at := Publish\<rparr>]" Publish ctu buffer xs r]
    by (simp del: race.simps in_flight.simps)
qed

lemma six_steps: "replicate 6 x = [x, x, x, x, x, x]"
  by (simp add: numeral_eq_Suc)

lemma race_handler_bad:
  assumes "buffers_ok dev" and "current_buf dev < BUFFER_SIZE" and "\<not> ring_full dev" and "\<not> write_good m"
  shows "race ctu buffer (replicate 6 (Writer 0)) dev [new_writer [m]] r = Inl OutOfBounds"
    and "write_persistence_add_message (fst m) (snd m) dev = Inl OutOfBounds"
proof -
  let ?d = "dev\<lparr>used_buf := used_buf dev + 1\<rparr>"
  have l: "length (slots_of dev ! current_buf dev) = 240" using load_slot_ok(2) [OF assms(1,2)] by (simp add: size_defs)
  have b: "buffers_ok ?d" using assms(1) by simp
  have n: "length (fst m) < unat (cut_size (snd m))"
    using assms(4) write_size_le [of "snd m"] by (simp add: write_good_def cut_size_eq unat_of_nat64)
  have "stage_run Clear m ?d = Inr (filled (replicate 240 0) dev)"
    using load_slot_ok(1) [OF b] store_slot_ok [OF b] assms(2) l
    by (simp add: update_slot_def mem_put_def size_defs filled_def)
  moreover have "length (slots_of dev) = BUFFER_SIZE" using assms(1) by (rule buffers_okD)
  then have "load_slot (filled (replicate 240 0) dev) (current_buf dev) = Inr (replicate 240 0)"
    using load_slot_ok(1) [OF filled_buffers [OF assms(1), of "replicate 240 0"], of "current_buf dev"] assms(2) by simp
  then have "stage_run Fill m (filled (replicate 240 0) dev) = Inl OutOfBounds"
    using n by (simp add: update_slot_def mem_get_bad)
  ultimately show "race ctu buffer (replicate 6 (Writer 0)) dev [new_writer [m]] r = Inl OutOfBounds"
    unfolding six_steps race_claim [OF assms(3)] by (simp add: writer_step_def)
  show "write_persistence_add_message (fst m) (snd m) dev = Inl OutOfBounds"
    using assms(2,3) load_slot_ok(1) [OF b] l n
    by (simp add: write_persistence_add_message_def Let_def size_defs mem_put_def mem_get_bad cut_size_def)
qed

lemma race_handler:
  assumes "buffers_ok dev" and "current_buf dev < BUFFER_SIZE"
  shows "race ctu buffer (replicate 6 (Writer 0)) dev [new_writer [m]] r =
    map_sum id (\<lambda>(c, dev'). ([], dev', [returned (c \<noteq> None) (new_writer [m])], r))
      (write_persistence_add_message (fst m) (snd m) dev)"
proof (cases "ring_full dev")
  case True
  then show ?thesis by (simp add: six_steps writer_step_def add_message_full)
next
  case room: False
  show ?thesis
  proof (cases "write_good m")
    case True
    have "race ctu buffer (replicate 6 (Writer 0)) dev [new_writer [m]] r =
        Inr ([], write_added (fst m) (snd m) dev, [returned True (new_writer [m])], r)"
      unfolding six_steps race_claim [OF room] race_add [OF assms True] by simp
    with add_message_adds [OF assms room, of "fst m" "snd m"] True show ?thesis by simp
  next
    case False
    show ?thesis unfolding race_handler_bad [OF assms room False] by simp
  qed
qed

lemma bindR_Inr [simp]: "bindR m Inr = m"
  by (cases m) simp_all

lemma race_read:
  assumes "working dev \<noteq> 0" and "write_persistence_poll dev = 1"
  shows "race ctu buffer (Reader # Reader # Reader # Reader # xs) dev ws new_reader =
    bindR (write_persistence_read ctu buffer dev) (\<lambda>(n, b, dev'). bindR (race ctu buffer xs dev' ws new_reader)
      (\<lambda>(del, rest). Inr ((n, b) # del, rest)))"
proof (cases "read_copy ctu buffer dev")
  case (Inl e)
  with assms show ?thesis by (simp add: read_by_copy reader_step_def)
next
  case (Inr r)
  then show ?thesis
    using assms copy_at [OF Inr] by (cases "r_failed r") (simp_all add: read_by_copy reader_step_def case_prod_beta)
qed

section \<open>Properties\<close>

text \<open>C32. The steps, run without a break, are the handlers: for every message and every device with its
  buffers in place the six steps of a writer end in the same device and result as
  \<open>write_persistence_add_message\<close>, or in the same error, full rings included; and when poll
  announces a message, the four steps of the reader are one \<open>write_persistence_read\<close>, failed
  copies included.\<close>

theorem steps_are_handlers:
  assumes "buffers_ok dev" and "current_buf dev < BUFFER_SIZE"
  shows "race ctu buffer (replicate 6 (Writer 0)) dev [new_writer [m]] r =
      map_sum id (\<lambda>(c, dev'). ([], dev', [returned (c \<noteq> None) (new_writer [m])], r))
        (write_persistence_add_message (fst m) (snd m) dev)
    \<and> (working dev \<noteq> 0 \<and> write_persistence_poll dev = 1 \<longrightarrow>
        race ctu buffer (replicate 4 Reader) dev ws new_reader =
          map_sum id (\<lambda>(n, b, dev'). ([(n, b)], dev', ws, new_reader)) (write_persistence_read ctu buffer dev))"
proof -
  have "race ctu buffer (replicate 4 Reader) dev ws new_reader =
      map_sum id (\<lambda>(n, b, dev'). ([(n, b)], dev', ws, new_reader)) (write_persistence_read ctu buffer dev)"
    if "working dev \<noteq> 0" and "write_persistence_poll dev = 1"
    using race_read [OF that, of ctu buffer "[]" ws]
    by (cases "write_persistence_read ctu buffer dev") (auto simp: numeral_eq_Suc)
  with race_handler [OF assms] show ?thesis by blast
qed

theorem steps_are_handlers_witness:
  "race plain_to_user [] (replicate 6 (Writer 0)) demo_device [new_writer [(replicate 40 1, 40)]] new_reader =
    map_sum id (\<lambda>(c, dev'). ([], dev', [returned (c \<noteq> None) (new_writer [(replicate 40 1, 40)])], new_reader))
      (write_persistence_add_message (replicate 40 1) 40 demo_device)"
proof -
  have r0: "ring_ok 0 demo_device" by (simp add: demo_device_def ready_ring_ok)
  then have "buffers_ok demo_device" "current_buf demo_device < BUFFER_SIZE"
    using ring_ok_bounds [OF r0] by (simp_all add: ring_ok_def)
  from steps_are_handlers [OF this, of plain_to_user "[]" "(replicate 40 1, 40)" new_reader] show ?thesis by simp
qed

text \<open>C33. One writer and one reader that stays behind need no lock: over any schedule of their
  steps in which the reader, whenever it is told that there is a message, finds a published
  one, no step goes wrong, and the reads deliver what was queued and then, in order and each
  complete, exactly the messages for which the handler returned a callback. When neither is
  in the middle of a message the ring is well-formed and holds exactly what is left.\<close>

theorem calm_reader_gets_all:
  assumes "write_inv ctu buffer dev" and "\<forall>m \<in> set ms. write_good m"
    and "calm ctu buffer xs dev (new_writer ms) new_reader"
  shows "\<exists>del dev' w r gone left. race ctu buffer xs dev [new_writer ms] new_reader = Inr (del, dev', [w], r)
    \<and> ms = gone @ w_todo w \<and> length (w_got w) = length gone
    \<and> frames dev @ map write_frame (accepted_of gone (w_got w)) = map message_of del @ left
    \<and> (w_at w = Check \<and> r_at r = Poll \<longrightarrow> write_inv ctu buffer dev' \<and> frames dev' = left)"
proof -
  have "joint_inv ctu buffer dev dev (new_writer ms) new_reader []"
    using assms(1,2) by (simp add: joint_inv_def flight_inv_def)
  from calm_race [OF this assms(3)] obtain del dev' w r base hand gone where
    c: "race ctu buffer xs dev [new_writer ms] new_reader = Inr (del, dev', [w], r)" "joint_inv ctu buffer base dev' w r hand"
      "ms = gone @ w_todo w" "length (w_got w) = length gone"
      "frames dev @ map write_frame (accepted_of gone (w_got w)) = map message_of del @ hand @ frames base" by auto
  from c(2) have "w_at w = Check \<and> r_at r = Poll \<longrightarrow> write_inv ctu buffer dev' \<and> frames dev' = hand @ frames base"
    by (auto simp: joint_inv_def flight_inv_def split: if_splits)
  with c show ?thesis by blast
qed

text \<open>A schedule for its witness: the writer adds a message, the reader reads it beside the next one.\<close>

lemma calm_writer: "calm ctu buffer (replicate k (Writer 0)) dev w r"
  by (induction k arbitrary: dev w) (auto split: sum.splits)

lemma calm_counting:
  "r_at r = Count \<Longrightarrow> calm ctu buffer (Writer 0 # Writer 0 # Reader # Writer 0 # Reader # replicate k (Writer 0)) dev w r"
  by (auto simp: reader_step_def calm_writer split: sum.splits)

lemma calm_reader_step:
  "calm ctu buffer (Reader # xs) dev w r =
    ((r_at r = Poll \<and> write_persistence_poll dev = 1 \<longrightarrow> claims w < sint (used_buf dev))
     \<and> (case reader_step ctu buffer r dev of Inl _ \<Rightarrow> True | Inr (out, r1, dev1) \<Rightarrow> calm ctu buffer xs dev1 w r1))"
  by simp

lemma calm_read:
  assumes "w_at w = Check" and "write_persistence_poll dev = 1" and "working dev \<noteq> 0"
  shows "calm ctu buffer
    (Reader # Reader # Writer 0 # Writer 0 # Reader # Writer 0 # Reader # replicate k (Writer 0)) dev w new_reader"
proof -
  have c: "claims w < sint (used_buf dev)"
    using assms(1,2) by (auto simp: claims_def write_persistence_poll_def ring_nonempty_def split: if_splits)
  then show ?thesis
    using assms by (cases "read_copy ctu buffer dev") (simp_all add: calm_reader_step reader_step_def calm_counting copy_at del: calm.simps replicate.simps)
qed

lemma calm_handler:
  assumes "buffers_ok dev" and "current_buf dev < BUFFER_SIZE" and "write_good m" and "w_todo w = m # ms"
    and "w_at w = Check" and "\<not> ring_full dev"
  shows "calm ctu buffer (replicate 6 (Writer 0) @ xs) dev w r =
    calm ctu buffer xs (write_added (fst m) (snd m) dev) (returned True w) r"
proof -
  have go: "calm ctu buffer (Writer 0 # ys) (in_flight s m dev) (w\<lparr>w_at := s\<rparr>) r =
      (if s = Publish then calm ctu buffer ys (write_added (fst m) (snd m) dev) (returned True w) r
       else calm ctu buffer ys (in_flight (after s) m dev) (w\<lparr>w_at := after s\<rparr>) r)" for s ys
    using writer_steps [OF assms(1-4), of s] assms(6) by (simp del: in_flight.simps)
  have "calm ctu buffer (replicate 6 (Writer 0) @ xs) (in_flight Check m dev) (w\<lparr>w_at := Check\<rparr>) r =
      calm ctu buffer xs (write_added (fst m) (snd m) dev) (returned True w) r"
    by (simp add: six_steps go del: calm.simps in_flight.simps)
  then show ?thesis by (simp add: writer_same [OF assms(5)])
qed

theorem calm_reader_gets_all_witness:
  "\<exists>del dev' w r left. race plain_to_user (replicate 244 0)
      (replicate 6 (Writer 0) @ Reader # Reader # Writer 0 # Writer 0 # Reader # Writer 0 # Reader # replicate 3 (Writer 0))
      demo_device [new_writer [(replicate 40 1, 40), (replicate 41 2, 41)]] new_reader = Inr (del, dev', [w], r)
    \<and> map write_frame (accepted_of [(replicate 40 1, 40), (replicate 41 2, 41)] (w_got w)) = map message_of del @ left"
proof -
  let ?m1 = "(replicate 40 1, 40)" and ?m2 = "(replicate 41 2, 41)"
  let ?xs = "Reader # Reader # Writer 0 # Writer 0 # Reader # Writer 0 # Reader # replicate 3 (Writer 0)"
  have g: "\<forall>m \<in> set [?m1, ?m2]. write_good m" by (simp add: write_good_def write_size_def size_defs)
  then have g1: "write_good ?m1" by simp
  have f: "frames demo_device = []" by (simp add: demo_device_def)
  obtain n where n: "ring_ok n demo_device" "length (frames demo_device) = n" "buffers_ok demo_device"
    "current_buf demo_device < BUFFER_SIZE" by (rule write_inv_ring [OF demo_write_inv])
  have nf: "\<not> ring_full demo_device" using n(1,2) f by (simp add: ring_ok_def ring_full_def BUFFER_SIZE_def)
  have "length (frames demo_device) < BUFFER_SIZE" using f by (simp add: BUFFER_SIZE_def)
  note added = write_added_inv [OF demo_write_inv g1 this]
  have "write_persistence_poll (write_added (fst ?m1) (snd ?m1) demo_device) = 1"
    using wchan.ready_iff [OF added(1)] added(2) by simp
  moreover have "working (write_added (fst ?m1) (snd ?m1) demo_device) \<noteq> 0"
    using added(1) by (simp add: write_inv_def)
  ultimately have c: "calm plain_to_user (replicate 244 0) (replicate 6 (Writer 0) @ ?xs) demo_device
      (new_writer [?m1, ?m2]) new_reader"
    by (subst calm_handler [OF n(3,4) g1 _ _ nf]) (simp_all add: calm_read del: calm.simps replicate.simps)
  from calm_reader_gets_all [OF demo_write_inv g c] obtain del dev' w r gone left where
    r: "race plain_to_user (replicate 244 0) (replicate 6 (Writer 0) @ ?xs) demo_device [new_writer [?m1, ?m2]] new_reader =
        Inr (del, dev', [w], r)" "[?m1, ?m2] = gone @ w_todo w" "length (w_got w) = length gone"
      "map write_frame (accepted_of gone (w_got w)) = map message_of del @ left"
    unfolding f append_Nil by blast
  have "accepted_of [?m1, ?m2] (w_got w) = accepted_of gone (w_got w)"
    unfolding r(2) using r(3) by (simp add: accepted_of_def zip_append1)
  then have "map write_frame (accepted_of [?m1, ?m2] (w_got w)) = map message_of del @ left" using r(4) by (simp only:)
  with r(1) show ?thesis by blast
qed

end
