(* ===== verification/Lost_Messages.thy ===== *)
theory Lost_Messages
  imports Interleaving
begin

text \<open>
  Two schedules in which messages are lost because the ring is not locked: a reader that
  overtakes the writer, and two writers. The mutex of the test device admits one opener, not
  one writer: threads and children of the opener share its descriptor.
\<close>

section \<open>The reader overtakes\<close>

text \<open>C38. A reader that comes right after the slot was claimed overtakes the writer: on an empty
  ring it is told that there is a message, delivers whatever an earlier use left in the slot,
  and the message that is then written is never announced or delivered, though its call
  returns a callback.\<close>

theorem reader_overtakes:
  assumes "write_inv ctu buffer dev" and "frames dev = []" and "write_good m"
    and "frame_len (slots_of dev ! current_buf dev) \<le> 240"
  shows "\<exists>d dev'. race ctu buffer
        [Writer 0, Writer 0, Reader, Reader, Reader, Reader, Writer 0, Writer 0, Writer 0, Writer 0]
        dev [new_writer [m]] new_reader =
      Inr ([d], dev', [returned True (new_writer [m])], new_reader)
    \<and> message_of d = payload (slots_of dev ! current_buf dev)
    \<and> ring_ok 0 dev' \<and> frames dev' = [] \<and> write_persistence_poll dev' = 0"
proof -
  obtain n where n: "ring_ok n dev" "length (frames dev) = n" "buffers_ok dev" "current_buf dev < BUFFER_SIZE"
    "first_buf dev < BUFFER_SIZE" by (rule write_inv_ring [OF assms(1)])
  then have r0: "ring_ok 0 dev" using assms(2) by simp
  then have fc: "current_buf dev = first_buf dev" and u: "used_buf dev = 0" and nf: "\<not> ring_full dev"
    using n(5) by (simp_all add: ring_ok_def ring_full_def BUFFER_SIZE_def)
  let ?d1 = "dev\<lparr>used_buf := used_buf dev + 1\<rparr>" and ?b = "slots_of dev ! first_buf dev"
  let ?base = "dev\<lparr>used_buf := used_buf dev - 1, first_buf := next_slot (first_buf dev)\<rparr>"
  let ?out = "le32 (of_nat (first_buf dev)) @ payload ?b @ drop (4 + frame_len ?b) buffer"
  have poll: "write_persistence_poll ?d1 = 1" using u by (simp add: write_persistence_poll_def ring_nonempty_def)
  have w: "working ?d1 \<noteq> 0" using assms(1) by (simp add: write_inv_def)
  have b: "frame_len ?b \<le> 240" using assms(4) fc by simp
  have "write_persistence_read ctu buffer ?d1 =
      Inr (int (frame_len ?b), ?out, ?base\<lparr>used_buf := used_buf ?base + 1\<rparr>)"
    using read_slot [of ?d1 ctu ?b buffer] n(3,5) b assms(1) by (simp add: write_inv_def)
  then have race: "race ctu buffer
        [Writer 0, Writer 0, Reader, Reader, Reader, Reader, Writer 0, Writer 0, Writer 0, Writer 0]
        dev [new_writer [m]] new_reader =
      Inr ([(int (frame_len ?b), ?out)], write_added (fst m) (snd m) ?base, [returned True (new_writer [m])], new_reader)"
    using race_add [of ?base m ctu buffer "[]" "[]" new_reader] n(3,4) assms(3)
    unfolding race_claim [OF nf] by (subst race_read [OF w poll]) simp
  have "length (payload ?b) = frame_len ?b"
    using load_slot_ok(2) [OF n(3,5)] b by (simp add: payload_def size_defs)
  then have "message_of (int (frame_len ?b), ?out) = payload (slots_of dev ! current_buf dev)"
    using fc by (simp add: message_of_def)
  moreover let ?e = "write_added (fst m) (snd m) ?base"
  have "buffers_ok ?e" by (rule write_added_buffers) (use n(3,4) assms(3) in simp_all)
  moreover have "used_buf ?e = 0" "first_buf ?e = next_slot (first_buf dev)" "current_buf ?e = next_slot (first_buf dev)"
    using u fc by (simp_all add: write_added_def Let_def)
  moreover have "next_slot (first_buf dev) < BUFFER_SIZE" by (simp add: next_slot_def BUFFER_SIZE_def)
  ultimately have ok: "message_of (int (frame_len ?b), ?out) = payload (slots_of dev ! current_buf dev)" "ring_ok 0 ?e"
    by (simp_all add: ring_ok_def)
  moreover have "frames ?e = []" using ring_ok_used(3) [OF ok(2)] by (simp add: frames_def)
  moreover have "write_persistence_poll ?e = 0"
    using ring_ok_used(5) [OF ok(2)] by (simp add: write_persistence_poll_def)
  ultimately show ?thesis using race by blast
qed

theorem reader_overtakes_witness:
  "\<exists>d dev'. race plain_to_user (replicate 244 0)
        [Writer 0, Writer 0, Reader, Reader, Reader, Reader, Writer 0, Writer 0, Writer 0, Writer 0]
        demo_device [new_writer [(replicate 40 1, 40)]] new_reader =
      Inr ([d], dev', [returned True (new_writer [(replicate 40 1, 40)])], new_reader)
    \<and> message_of d = replicate 40 0 \<and> frames dev' = []"
proof -
  have c: "current_buf demo_device < BUFFER_SIZE" by (simp add: demo_device_def BUFFER_SIZE_def)
  then have b: "slots_of demo_device ! current_buf demo_device = replicate 240 0" by (simp add: demo_slots)
  have f: "frames demo_device = []" by (simp add: demo_device_def)
  have g: "write_good (replicate 40 1, 40)" by (simp add: write_good_def write_size_def size_defs)
  have l: "frame_len (slots_of demo_device ! current_buf demo_device) = 40" unfolding b by (rule frame_len_zero)
  then have "payload (slots_of demo_device ! current_buf demo_device) = replicate 40 0"
    unfolding payload_def b by (simp only: take_replicate) simp
  with reader_overtakes [OF demo_write_inv f g] l show ?thesis by auto
qed

section \<open>Two writers\<close>

lemma filled_claimed: "filled b (dev\<lparr>used_buf := used_buf dev + 1\<rparr>) = (filled b dev)\<lparr>used_buf := used_buf (filled b dev) + 1\<rparr>"
  by (simp add: filled_def with_slots_def)

lemma filled_twice:
  "filled b (filled c dev) = filled b (dev\<lparr>used_buf := used_buf dev + 1\<rparr>)"
  by (simp add: filled_def with_slots_def slots_of_def slot_block_def comp_def)

text \<open>Publishing does not look at the message: what is in the slot is what is published.\<close>

lemma publish_any: "stage_run Publish m dev = stage_run Publish m' dev"
  by simp

definition pushed :: "byte list \<Rightarrow> kernel_device_callback \<Rightarrow> nat \<Rightarrow> paxos_kernel_device \<Rightarrow> paxos_kernel_device" where
  "pushed b c a dev = (with_callbacks ((callbacks_of dev)[current_buf dev := c])
     (with_slots ((slots_of dev)[current_buf dev := b]) (dev\<lparr>used_buf := used_buf dev + 1\<rparr>)))
     \<lparr>current_buf := next_slot (current_buf dev), access_wait := a\<rparr>"

text \<open>A claimed slot that is published as it is: an old block joins the ring.\<close>

lemma publish_stale:
  assumes "ring_ok n dev" and "n < BUFFER_SIZE"
  shows "\<exists>dev'. stage_run Publish m (dev\<lparr>used_buf := used_buf dev + 1\<rparr>) = Inr dev' \<and> ring_ok (Suc n) dev'
    \<and> queued dev' = queued dev @ [slots_of dev ! current_buf dev]"
proof -
  have bo: "buffers_ok dev" and cur: "current_buf dev < BUFFER_SIZE"
    using assms(1) ring_ok_bounds [OF assms(1)] by (simp_all add: ring_ok_def)
  let ?d = "dev\<lparr>used_buf := used_buf dev + 1\<rparr>" and ?b = "slots_of dev ! current_buf dev"
  have bd: "buffers_ok ?d" using bo by simp
  let ?c = "(callbacks_of dev ! current_buf dev)\<lparr>buffer_id := current_buf dev, cb_iid := iid (accepted_of_image ?b), is_done := 0\<rparr>"
  have c: "callback_ok ?c" using load_callback_ok(2) [OF bo cur] by (simp add: callback_ok_def)
  have l: "length ?b = sizeof_paxos_accepted + MAX_PAXOS_VALUE_SIZE" using load_slot_ok(2) [OF bo cur] .
  have "with_slots (slots_of dev) ?d = ?d"
    using buffers_okD(1) [OF bo] by (simp add: with_slots_def)
  then have "stage_run Publish m ?d = Inr (pushed ?b ?c (access_wait dev + 1) dev)"
    using load_slot_ok(1) [OF bd cur] load_callback_ok(1) [OF bd cur] store_callback_ok [OF bd cur]
    by (simp add: pushed_def Let_def)
  with ring_push [OF assms l c pushed_def] show ?thesis by blast
qed

lemma both_claim:
  assumes "\<not> ring_full dev" and "\<not> ring_full (dev\<lparr>used_buf := used_buf dev + 1\<rparr>)"
  shows "race ctu buffer (Writer 0 # Writer 0 # Writer 1 # Writer 1 # xs) dev [new_writer [m1], new_writer [m2]] r =
    race ctu buffer xs (dev\<lparr>used_buf := used_buf dev + 1 + 1\<rparr>)
      [(new_writer [m1])\<lparr>w_at := Clear\<rparr>, (new_writer [m2])\<lparr>w_at := Clear\<rparr>] r"
  using assms by (simp add: writer_step_def)

lemma publish_step:
  assumes "stage_run Publish m dev = Inr dev1" and "w_todo w = m # ms"
  shows "writer_step (w\<lparr>w_at := Publish\<rparr>) dev = Inr (returned True w, dev1)"
  using assms by (simp add: writer_step_def)

text \<open>Both write the slot at the current position, the second over the first.\<close>

lemma both_fill:
  assumes "buffers_ok dev" and "current_buf dev < BUFFER_SIZE" and "write_good m1" and "write_good m2"
  shows "race ctu buffer (Writer 0 # Writer 0 # Writer 0 # Writer 1 # Writer 1 # Writer 1 # xs)
      (dev\<lparr>used_buf := used_buf dev + 1 + 1\<rparr>) [(new_writer [m1])\<lparr>w_at := Clear\<rparr>, (new_writer [m2])\<lparr>w_at := Clear\<rparr>] r =
    race ctu buffer xs (in_flight Publish m2 (dev\<lparr>used_buf := used_buf dev + 1\<rparr>))
      [(new_writer [m1])\<lparr>w_at := Publish\<rparr>, (new_writer [m2])\<lparr>w_at := Publish\<rparr>] r"
proof -
  let ?d1 = "dev\<lparr>used_buf := used_buf dev + 1\<rparr>" and ?base = "filled (write_block (fst m1) (snd m1)) dev"
  have d1: "buffers_ok ?d1" "current_buf ?d1 < BUFFER_SIZE" using assms(1,2) by simp_all
  have b2: "buffers_ok ?base" "current_buf ?base < BUFFER_SIZE"
    using filled_buffers [OF assms(1) block_length [OF assms(3)]] assms(2) by simp_all
  have e1: "dev\<lparr>used_buf := used_buf dev + 1 + 1\<rparr> = in_flight Clear m1 ?d1" by simp
  have e2: "in_flight Publish m1 ?d1 = in_flight Clear m2 ?base" by (simp add: filled_claimed)
  have e3: "in_flight Publish m2 ?base = in_flight Publish m2 ?d1" by (simp add: filled_twice)
  have t: "w_todo (new_writer [m1]) = m1 # []" "w_todo (new_writer [m2]) = m2 # []" by simp_all
  show ?thesis unfolding e1
    using race_fill [OF d1 assms(3) t(1), of 0 "[(new_writer [m1])\<lparr>w_at := Clear\<rparr>, (new_writer [m2])\<lparr>w_at := Clear\<rparr>]"]
      race_fill [OF b2 assms(4) t(2), of 1 "[(new_writer [m1])\<lparr>w_at := Publish\<rparr>, (new_writer [m2])\<lparr>w_at := Clear\<rparr>]"]
    by (simp add: e2 e3 del: in_flight.simps race.simps)
qed

text \<open>The first to publish publishes what is in the slot, the second the slot after it as it is.\<close>

lemma both_publish:
  assumes "ring_ok n dev" and "n + 2 \<le> BUFFER_SIZE" and "write_good m2"
  shows "\<exists>dev'. race ctu buffer [Writer 0, Writer 1] (in_flight Publish m2 (dev\<lparr>used_buf := used_buf dev + 1\<rparr>))
      [(new_writer [m1])\<lparr>w_at := Publish\<rparr>, (new_writer [m2])\<lparr>w_at := Publish\<rparr>] r =
      Inr ([], dev', [returned True (new_writer [m1]), returned True (new_writer [m2])], r)
    \<and> ring_ok (n + 2) dev'
    \<and> frames dev' = frames dev @ [write_frame m2, payload (slots_of dev ! next_slot (current_buf dev))]"
proof -
  have bo: "buffers_ok dev" and cur: "current_buf dev < BUFFER_SIZE" and l: "length (slots_of dev) = BUFFER_SIZE"
    using assms(1) ring_ok_bounds [OF assms(1)] by (simp_all add: ring_ok_def buffers_ok_def)
  let ?d1 = "dev\<lparr>used_buf := used_buf dev + 1\<rparr>" and ?b = "write_added (fst m2) (snd m2) dev"
  have d1: "buffers_ok ?d1" "current_buf ?d1 < BUFFER_SIZE" using bo cur by simp_all
  have "write_added (fst m2) (snd m2) ?d1 = ?b\<lparr>used_buf := used_buf ?b + 1\<rparr>"
    by (simp add: write_added_def Let_def with_slots_def with_callbacks_def callbacks_of_def slots_of_def)
  with stage_runs [OF d1 assms(3), of Publish]
  have "stage_run Publish m1 (in_flight Publish m2 ?d1) = Inr (?b\<lparr>used_buf := used_buf ?b + 1\<rparr>)"
    by (simp add: publish_any [of m1 _ m2] del: stage_run.simps in_flight.simps)
  note p1 = publish_step [OF this, of "new_writer [m1]" "[]"]
  have n1: "n < BUFFER_SIZE" "Suc n < BUFFER_SIZE" using assms(2) by simp_all
  note base = write_added_ring [OF assms(1) n1(1), of "fst m2" "snd m2"]
  obtain dev' where p2: "stage_run Publish m2 (?b\<lparr>used_buf := used_buf ?b + 1\<rparr>) = Inr dev'"
    "ring_ok (Suc (Suc n)) dev'" "queued dev' = queued ?b @ [slots_of ?b ! current_buf ?b]"
    using publish_stale [OF _ n1(2), of ?b m2] base(1) assms(3) by auto
  have "next_slot (current_buf dev) \<noteq> current_buf dev"
    using cur by (cases "Suc (current_buf dev) < BUFFER_SIZE") (auto simp: next_slot_def BUFFER_SIZE_def mod_Suc)
  then have stale: "slots_of ?b ! current_buf ?b = slots_of dev ! next_slot (current_buf dev)"
    by (simp add: write_added_def Let_def)
  have "race ctu buffer [Writer 0, Writer 1] (in_flight Publish m2 ?d1)
      [(new_writer [m1])\<lparr>w_at := Publish\<rparr>, (new_writer [m2])\<lparr>w_at := Publish\<rparr>] r =
      Inr ([], dev', [returned True (new_writer [m1]), returned True (new_writer [m2])], r)"
    using p1 publish_step [OF p2(1), of "new_writer [m2]" "[]"] by (simp del: in_flight.simps)
  with p2(2,3) base(2) assms(3) stale show ?thesis
    by (intro exI [of _ dev']) (simp add: frames_def write_frame_def)
qed

text \<open>C39. Two writers lose a message: when both have claimed a slot before either publishes, they
  write the same slot. What is queued then is the second writer's message and, as a message,
  the old contents of the slot after it; the first writer's message is gone, though both
  calls return a callback and the ring is well-formed.\<close>

theorem two_writers_lose:
  assumes "ring_ok n dev" and "n + 2 \<le> BUFFER_SIZE" and "write_good m1" and "write_good m2"
  shows "\<exists>dev'. race ctu buffer [Writer 0, Writer 0, Writer 1, Writer 1, Writer 0, Writer 0, Writer 0,
        Writer 1, Writer 1, Writer 1, Writer 0, Writer 1] dev [new_writer [m1], new_writer [m2]] r =
      Inr ([], dev', [returned True (new_writer [m1]), returned True (new_writer [m2])], r)
    \<and> ring_ok (n + 2) dev'
    \<and> frames dev' = frames dev @ [write_frame m2, payload (slots_of dev ! next_slot (current_buf dev))]"
proof -
  have bo: "buffers_ok dev" "current_buf dev < BUFFER_SIZE"
    using assms(1) ring_ok_bounds [OF assms(1)] by (simp_all add: ring_ok_def)
  have used: "used_buf dev = of_nat n" using assms(1) by (simp add: ring_ok_def)
  then have "sint (used_buf dev) = int n" "sint (used_buf dev + 1) = int (n + 1)"
    using assms(2) sint_of_nat32 [of n] sint_of_nat32 [of "n + 1"] by (simp_all add: BUFFER_SIZE_def add.commute)
  then have nf: "\<not> ring_full dev" "\<not> ring_full (dev\<lparr>used_buf := used_buf dev + 1\<rparr>)"
    using assms(2) by (simp_all add: ring_full_def)
  show ?thesis unfolding both_claim [OF nf] both_fill [OF bo assms(3,4)] by (rule both_publish [OF assms(1,2,4)])
qed

theorem two_writers_lose_witness:
  "\<exists>dev'. race plain_to_user [] [Writer 0, Writer 0, Writer 1, Writer 1, Writer 0, Writer 0, Writer 0,
        Writer 1, Writer 1, Writer 1, Writer 0, Writer 1] demo_device
        [new_writer [(replicate 40 1, 40)], new_writer [(replicate 41 2, 41)]] new_reader =
      Inr ([], dev', [returned True (new_writer [(replicate 40 1, 40)]), returned True (new_writer [(replicate 41 2, 41)])],
        new_reader)
    \<and> frames dev' = [write_frame (replicate 41 2, 41), payload (replicate 240 0)]"
proof -
  have r0: "ring_ok 0 demo_device" by (simp add: demo_device_def ready_ring_ok)
  have g: "write_good (replicate 40 1, 40)" "write_good (replicate 41 2, 41)"
    by (simp_all add: write_good_def write_size_def size_defs)
  have f: "frames demo_device = []" by (simp add: demo_device_def)
  have n: "next_slot (current_buf demo_device) < BUFFER_SIZE" by (simp add: next_slot_def BUFFER_SIZE_def)
  then have s: "slots_of demo_device ! next_slot (current_buf demo_device) = replicate 240 0"
    unfolding demo_slots by (rule nth_replicate)
  have "0 + 2 \<le> BUFFER_SIZE" by (simp add: BUFFER_SIZE_def)
  from two_writers_lose [OF r0 this g, of plain_to_user "[]" new_reader] show ?thesis unfolding s f append_Nil by blast
qed

end
