(* ===== verification/Device_Sessions.thy ===== *)
theory Device_Sessions
  imports Write_Test Read_Test
begin

text \<open>
  Opening and closing the devices. Each device has a mutex that \<open>open\<close> tries to take and
  \<open>release\<close> gives back; the handlers between them rely on having one opener.
\<close>

section \<open>The contract of a device with one opener\<close>

text \<open>
  Processes open and close a device. The kernel calls \<open>release\<close> only for a descriptor that
  \<open>open\<close> has granted; the second part of a run's state is the set of those descriptors.
\<close>

datatype session_event = Opens nat | Closes nat

primrec sessions ::
  "('s \<Rightarrow> int \<times> 's) \<Rightarrow> ('s \<Rightarrow> int \<times> 's) \<Rightarrow> session_event list \<Rightarrow> 's \<times> nat set \<Rightarrow> 's \<times> nat set" where
  "sessions open_dev release_dev [] s = s"
| "sessions open_dev release_dev (x # xs) s =
     sessions open_dev release_dev xs
       (case x of
          Opens p \<Rightarrow>
            if p \<in> snd s then s
            else let (r, d) = open_dev (fst s) in (d, if r = 0 then insert p (snd s) else snd s)
        | Closes p \<Rightarrow> if p \<in> snd s then (snd (release_dev (fst s)), snd s - {p}) else s)"

text \<open>At most one process holds the device, and an open is granted exactly when none does.\<close>

definition exclusive :: "('s \<Rightarrow> int \<times> 's) \<Rightarrow> 's \<times> nat set \<Rightarrow> bool" where
  "exclusive open_dev s \<longleftrightarrow>
     (\<forall>p \<in> snd s. \<forall>q \<in> snd s. p = q) \<and> fst (open_dev (fst s)) = (if snd s = {} then 0 else - 16)"

locale one_opener =
  fixes open_dev :: "'s \<Rightarrow> int \<times> 's" and release_dev :: "'s \<Rightarrow> int \<times> 's" and held :: "'s \<Rightarrow> bool"
  assumes open_free: "\<not> held s \<Longrightarrow> fst (open_dev s) = 0 \<and> held (snd (open_dev s))"
    and open_held: "held s \<Longrightarrow> open_dev s = (- 16, s)"
    and release_frees: "\<not> held (snd (release_dev s))"
begin

definition consistent :: "'s \<times> nat set \<Rightarrow> bool" where
  "consistent s \<longleftrightarrow> (if held (fst s) then \<exists>p. snd s = {p} else snd s = {})"

lemma sessions_consistent:
  "consistent s \<Longrightarrow> consistent (sessions open_dev release_dev xs s)"
proof (induction xs arbitrary: s)
  case (Cons x xs)
  obtain d H where s: "s = (d, H)" by (cases s)
  show ?case
  proof (cases x)
    case (Opens p)
    show ?thesis
    proof (cases "held d")
      case True
      with Opens s Cons show ?thesis by (simp add: open_held)
    next
      case False
      with Cons.prems s have "H = {}" by (simp add: consistent_def)
      with False Opens s Cons.IH [of "(snd (open_dev d), {p})"] open_free [OF False] show ?thesis
        by (simp add: consistent_def case_prod_beta)
    qed
  next
    case (Closes p)
    show ?thesis
    proof (cases "p \<in> H")
      case True
      with Cons.prems s have "H = {p}" by (auto simp: consistent_def split: if_splits)
      with Closes s Cons.IH [of "(snd (release_dev d), {})"] release_frees show ?thesis by (simp add: consistent_def)
    qed (use Closes s Cons in simp)
  qed
qed simp

lemma sessions_exclusive:
  assumes "\<not> held d"
  shows "exclusive open_dev (sessions open_dev release_dev xs (d, {}))"
proof -
  let ?s = "sessions open_dev release_dev xs (d, {})"
  have "consistent ?s" using assms by (intro sessions_consistent) (simp add: consistent_def)
  then show ?thesis
    using open_free [of "fst ?s"] open_held [of "fst ?s"] by (auto simp: consistent_def exclusive_def split: if_splits)
qed

end

section \<open>The four devices\<close>

interpretation wp: one_opener write_persistence_open write_persistence_release char_mutex
  by unfold_locales (simp_all add: write_persistence_open_def write_persistence_release_def)

interpretation rp: one_opener read_persistence_open read_persistence_release char_mutex
  by unfold_locales (simp_all add: read_persistence_open_def read_persistence_release_def)

interpretation wt: one_opener write_test_open write_test_release char_mutex
  by unfold_locales (simp_all add: write_test_open_def write_test_release_def)

interpretation rt: one_opener read_test_open read_test_release "\<lambda>s. char_mutex (rt_dev s)"
  by unfold_locales (simp_all add: read_test_open_def read_test_release_def)

section \<open>Properties\<close>

text \<open>C37. Mutual exclusion: whatever sequence of processes opens and closes one of the four devices,
  from a state in which it is closed, at most one process has it open at any time; the next
  open is granted exactly when none has, and fails with \<open>-EBUSY\<close> otherwise.\<close>

theorem one_process_holds:
  assumes "\<not> char_mutex dev" and "\<not> char_mutex (rt_dev st)"
  shows "exclusive write_persistence_open (sessions write_persistence_open write_persistence_release xs (dev, {}))
    \<and> exclusive read_persistence_open (sessions read_persistence_open read_persistence_release xs (dev, {}))
    \<and> exclusive write_test_open (sessions write_test_open write_test_release xs (dev, {}))
    \<and> exclusive read_test_open (sessions read_test_open read_test_release xs (st, {}))"
  using wp.sessions_exclusive rp.sessions_exclusive wt.sessions_exclusive rt.sessions_exclusive assms by blast

theorem one_process_holds_witness:
  "exclusive write_persistence_open
     (sessions write_persistence_open write_persistence_release [Opens 1, Opens 2, Closes 2, Closes 1, Opens 2]
       (zero_device, {}))
   \<and> snd (sessions write_persistence_open write_persistence_release [Opens 1, Opens 2, Closes 2, Closes 1, Opens 2]
       (zero_device, {})) = {2}"
proof -
  have z: "\<not> char_mutex zero_device" by (simp add: zero_device_def)
  then have "\<not> char_mutex (rt_dev \<lparr>rt_dev = zero_device, messagesReceived = 0, messagesFound = 0\<rparr>)" by simp
  note one = one_process_holds [OF z this, of "[Opens 1, Opens 2, Closes 2, Closes 1, Opens 2]"]
  have "snd (sessions write_persistence_open write_persistence_release [Opens 1, Opens 2, Closes 2, Closes 1, Opens 2]
       (zero_device, {})) = {2}"
    using z by (simp add: write_persistence_open_def write_persistence_release_def)
  with conjunct1 [OF one] show ?thesis by blast
qed

end
