(* ===== verification/Device_Types.thy ===== *)
theory Device_Types
  imports Write_Test Read_Test
begin

text \<open>
  Type soundness of the device memory. A device is typed when each of its pointers is live,
  its names included, its blocks have their sizes, and its positions are slots. Every handler, with any bytes
  and any user copies, leaves a typed device or stops at an access out of bounds: it never
  follows a pointer that is NULL, freed or unassigned.
\<close>

section \<open>Typed results\<close>

text \<open>A computation that yields a value of a type or runs out of a block.\<close>

definition typed_as :: "('a \<Rightarrow> bool) \<Rightarrow> cerror + 'a \<Rightarrow> bool" where
  "typed_as T m \<longleftrightarrow> (case m of Inl e \<Rightarrow> e = OutOfBounds | Inr x \<Rightarrow> T x)"

named_theorems typing \<open>the types of the operations\<close>

lemma typed_simps [simp]:
  "typed_as T (Inr x) = T x" "typed_as T (Inl e) = (e = OutOfBounds)"
  by (simp_all add: typed_as_def)

lemma typed_bind:
  assumes "typed_as S m" and "\<And>x. S x \<Longrightarrow> typed_as T (f x)"
  shows "typed_as T (bindR m f)"
  using assms by (cases m) simp_all

lemma typed_if: "(c \<Longrightarrow> typed_as T x) \<Longrightarrow> (\<not> c \<Longrightarrow> typed_as T y) \<Longrightarrow> typed_as T (if c then x else y)"
  by simp

definition device_typed :: "paxos_kernel_device \<Rightarrow> bool" where
  "device_typed dev \<longleftrightarrow> buffers_ok dev \<and> current_buf dev < BUFFER_SIZE \<and> first_buf dev < BUFFER_SIZE
     \<and> (\<exists>n. de_name dev = Live n) \<and> (\<exists>c. clas_name dev = Live c)"

text \<open>The blocks of the ring, and the types of the operations on memory.\<close>

abbreviation is_block :: "byte list \<Rightarrow> bool" where
  "is_block b \<equiv> length b = sizeof_paxos_accepted + MAX_PAXOS_VALUE_SIZE"

lemma next_slot_less [simp]: "next_slot i < BUFFER_SIZE"
  by (simp add: next_slot_def BUFFER_SIZE_def)

lemma buffers_ok_pool [simp]: "buffers_ok (dev\<lparr>pool := p\<rparr>) = buffers_ok dev"
  by (simp add: buffers_ok_def slots_of_def callbacks_of_def)

lemma with_names [simp]:
  "de_name (with_slots bs dev) = de_name dev" "de_name (with_callbacks cs dev) = de_name dev"
  "clas_name (with_slots bs dev) = clas_name dev" "clas_name (with_callbacks cs dev) = clas_name dev"
  by (simp_all add: with_slots_def with_callbacks_def)

lemma device_typed_fields [simp]:
  "device_typed (dev\<lparr>used_buf := u\<rparr>) = device_typed dev"
  "device_typed (dev\<lparr>access_wait := a\<rparr>) = device_typed dev"
  "device_typed (dev\<lparr>char_mutex := m\<rparr>) = device_typed dev"
  "device_typed (dev\<lparr>pool := p\<rparr>) = device_typed dev"
  "device_typed dev \<Longrightarrow> c < BUFFER_SIZE \<Longrightarrow> device_typed (dev\<lparr>current_buf := c\<rparr>)"
  "device_typed dev \<Longrightarrow> c < BUFFER_SIZE \<Longrightarrow> device_typed (dev\<lparr>first_buf := c\<rparr>)"
  by (simp_all add: device_typed_def)

lemma typed_put [typing]: "typed_as (\<lambda>m'. length m' = length m) (mem_put off bs m)"
  by (auto simp: mem_put_def)

lemma typed_get [typing]: "typed_as (\<lambda>bs. length bs = n) (mem_get off n m)"
  by (auto simp: mem_get_def)

lemma typed_load_slot [typing]:
  assumes "device_typed dev"
  shows "typed_as is_block (load_slot dev i)"
proof (cases "i < BUFFER_SIZE")
  case True
  then show ?thesis using assms load_slot_ok [of dev i] by (simp add: device_typed_def)
next
  case False
  then show ?thesis using assms buffers_okD(1,2) [of dev] by (simp add: device_typed_def load_slot_def arr_get_def)
qed

lemma typed_store_slot [typing]:
  assumes "device_typed dev" and "is_block b"
  shows "typed_as device_typed (store_slot dev i b)"
proof (cases "i < BUFFER_SIZE")
  case True
  then show ?thesis using assms store_slot_ok [of dev i b] with_slots_buffers [of dev b i] by (simp add: device_typed_def)
next
  case False
  then show ?thesis using assms buffers_okD(1,2) [of dev] by (simp add: device_typed_def store_slot_def arr_set_def)
qed

lemma typed_load_callback [typing]:
  assumes "device_typed dev"
  shows "typed_as callback_ok (load_callback dev i)"
proof (cases "i < BUFFER_SIZE")
  case True
  then show ?thesis using assms load_callback_ok [of dev i] by (simp add: device_typed_def)
next
  case False
  then show ?thesis using assms buffers_okD(4,5) [of dev] by (simp add: device_typed_def load_callback_def arr_get_def)
qed

lemma typed_store_callback [typing]:
  assumes "device_typed dev" and "callback_ok c"
  shows "typed_as device_typed (store_callback dev i c)"
proof (cases "i < BUFFER_SIZE")
  case True
  then show ?thesis
    using assms store_callback_ok [of dev i c] with_callbacks_buffers [of dev c i] by (simp add: device_typed_def)
next
  case False
  then show ?thesis using assms buffers_okD(4,5) [of dev] by (simp add: device_typed_def store_callback_def arr_set_def)
qed

lemma callback_ok_fields [simp]:
  "callback_ok (cb\<lparr>buffer_id := b\<rparr>) = callback_ok cb" "callback_ok (cb\<lparr>cb_iid := i\<rparr>) = callback_ok cb"
  "callback_ok (cb\<lparr>is_done := d\<rparr>) = callback_ok cb" "callback_ok (cb\<lparr>response_wait := n\<rparr>) = callback_ok cb"
  "callback_ok (cb\<lparr>response := Live r\<rparr>) = response_ok r"
  by (simp_all add: callback_ok_def)

lemma typed_response [typing]: "callback_ok cb \<Longrightarrow> typed_as response_ok (deref (response cb))"
  by (auto simp: callback_ok_def)

lemma typed_nonnull [typing]: "callback_ok cb \<Longrightarrow> typed_as (\<lambda>_. True) (nonnull (response cb))"
  by (auto simp: callback_ok_def)

lemma typed_value [typing]: "response_ok r \<Longrightarrow> typed_as (\<lambda>b. length b = MAX_PAXOS_VALUE_SIZE) (deref (obj_val r))"
  by (auto simp: response_ok_def)

lemma typed_clear [typing]: "response_ok r \<Longrightarrow> typed_as response_ok (clearPaxosAccepted r)"
  by (simp add: clear_ok) (simp add: response_ok_def)

lemma response_ok_fields [simp]:
  "response_ok (r\<lparr>obj_acc := a\<rparr>) = response_ok r"
  "response_ok (r\<lparr>obj_val := Live b\<rparr>) = (length b = MAX_PAXOS_VALUE_SIZE)"
  by (simp_all add: response_ok_def)

lemma typed_set_response [typing]:
  "device_typed dev \<Longrightarrow> response_ok r \<Longrightarrow> typed_as device_typed (set_response dev i r)"
  unfolding set_response_def by (rule typed_bind, erule typing) (simp add: typing)

lemmas typed_steps = typed_bind [OF typed_load_slot] typed_bind [OF typed_get] typed_bind [OF typed_put]
  typed_bind [OF typed_store_slot] typed_bind [OF typed_load_callback] typed_bind [OF typed_store_callback]
  typed_bind [OF typed_response] typed_bind [OF typed_clear] typed_bind [OF typed_set_response] typed_bind [OF typed_value]

section \<open>The handlers\<close>

lemma typed_write_read:
  "device_typed dev \<Longrightarrow> typed_as (\<lambda>(n, out, dev'). device_typed dev') (write_persistence_read ctu buffer dev)"
  unfolding write_persistence_read_def Let_def case_prod_beta
  by (auto intro!: typed_steps)

lemma typed_write_add:
  "device_typed dev \<Longrightarrow> typed_as (\<lambda>(c, dev'). device_typed dev') (write_persistence_add_message msg sz dev)"
  unfolding write_persistence_add_message_def Let_def case_prod_beta
  by (auto intro!: typed_steps)

lemma typed_read_read:
  "device_typed dev \<Longrightarrow> typed_as (\<lambda>_. True) (read_persistence_read ctu buffer dev)"
  unfolding read_persistence_read_def Let_def case_prod_beta
  by (auto intro!: typed_steps)

lemma typed_finish:
  "device_typed dev \<Longrightarrow> typed_as (\<lambda>(n, dev'). device_typed dev') (read_write_finish len i ec dev)"
  unfolding read_write_finish_def Let_def
  by (auto intro!: typed_steps)

lemma typed_read_write:
  "device_typed dev \<Longrightarrow> typed_as (\<lambda>(n, dev'). device_typed dev') (read_persistence_write cfu buffer len dev)"
  unfolding read_persistence_write_def Let_def case_prod_beta
  by (auto intro!: typed_steps typed_finish [unfolded case_prod_beta])

lemma typed_read_add:
  "device_typed dev \<Longrightarrow> typed_as (\<lambda>(c, dev'). device_typed dev') (read_persistence_add_message msg sz dev)"
  unfolding read_persistence_add_message_def Let_def
  by (auto intro!: typed_steps)

lemma typed_wait:
  assumes "device_typed dev" and "param w = Live i"
  shows "typed_as (\<lambda>(n, w', st', dev'). device_typed dev') (wait_response slept (Live w) st dev)"
  using assms unfolding wait_response_def Let_def
  by (auto intro!: typed_bind [OF typed_load_callback] typed_bind [where S = "\<lambda>_. True" and m = "nonnull (response x)" for x] typed_nonnull
      typed_bind [where S = "\<lambda>_ :: bool. True"] typed_bind [OF typed_response] typed_bind [OF typed_store_callback])

section \<open>Any calls\<close>

text \<open>
  The calls that reach the memory of a persistence device, with what their caller chooses.
  Handlers that are not called by the process that holds the device are possible too.
\<close>

datatype device_call =
    Write_open | Write_read to_user umem | Write_release | Write_add "byte list" u64
  | Read_open | Read_read to_user umem | Read_write from_user umem int | Read_release | Read_add "byte list" u64
  | Wait int persistence_work read_test

primrec call_device :: "device_call \<Rightarrow> paxos_kernel_device \<Rightarrow> cerror + paxos_kernel_device" where
  "call_device Write_open dev = Inr (snd (write_persistence_open dev))"
| "call_device (Write_read ctu buffer) dev = map_sum id (\<lambda>(n, out, dev'). dev') (write_persistence_read ctu buffer dev)"
| "call_device Write_release dev = Inr (snd (write_persistence_release dev))"
| "call_device (Write_add msg sz) dev = map_sum id snd (write_persistence_add_message msg sz dev)"
| "call_device Read_open dev = Inr (snd (read_persistence_open dev))"
| "call_device (Read_read ctu buffer) dev = map_sum id (\<lambda>_. dev) (read_persistence_read ctu buffer dev)"
| "call_device (Read_write cfu buffer len) dev = map_sum id snd (read_persistence_write cfu buffer len dev)"
| "call_device Read_release dev = Inr (snd (read_persistence_release dev))"
| "call_device (Read_add msg sz) dev = map_sum id snd (read_persistence_add_message msg sz dev)"
| "call_device (Wait slept w st) dev = map_sum id (\<lambda>(n, w', st', dev'). dev') (wait_response slept (Live w) st dev)"

primrec call_all :: "device_call list \<Rightarrow> paxos_kernel_device \<Rightarrow> cerror + paxos_kernel_device" where
  "call_all [] dev = Inr dev"
| "call_all (c # cs) dev = bindR (call_device c dev) (call_all cs)"

text \<open>The works that run have been given a callback, as \<open>read_test_write\<close> does.\<close>

primrec call_typed :: "device_call \<Rightarrow> bool" where
  "call_typed Write_open = True"
| "call_typed (Write_read ctu buffer) = True"
| "call_typed Write_release = True"
| "call_typed (Write_add msg sz) = True"
| "call_typed Read_open = True"
| "call_typed (Read_read ctu buffer) = True"
| "call_typed (Read_write cfu buffer len) = True"
| "call_typed Read_release = True"
| "call_typed (Read_add msg sz) = True"
| "call_typed (Wait slept w st) = (\<exists>i. param w = Live i)"

lemma typed_map:
  "typed_as (\<lambda>(a, d). T d) m2 \<Longrightarrow> typed_as T (map_sum id snd m2)"
  "typed_as (\<lambda>(a, b, d). T d) m3 \<Longrightarrow> typed_as T (map_sum id (\<lambda>(a, b, d). d) m3)"
  "typed_as (\<lambda>(a, b, c, d). T d) m4 \<Longrightarrow> typed_as T (map_sum id (\<lambda>(a, b, c, d). d) m4)"
  "typed_as (\<lambda>_. True) m \<Longrightarrow> T x \<Longrightarrow> typed_as T (map_sum id (\<lambda>_. x) m)"
  by (cases m2; cases m3; cases m4; cases m; auto)+

lemma BUFFER_SIZE_pos [simp]: "0 < BUFFER_SIZE"
  by (simp add: BUFFER_SIZE_def)

lemma typed_sessions:
  assumes "device_typed dev"
  shows "device_typed (snd (write_persistence_open dev))" "device_typed (snd (write_persistence_release dev))"
    "device_typed (snd (read_persistence_open dev))" "device_typed (snd (read_persistence_release dev))"
  using assms by (simp_all add: write_persistence_open_def write_persistence_release_def read_persistence_open_def
      read_persistence_release_def)

lemma typed_call:
  assumes "device_typed dev" and "call_typed c"
  shows "typed_as device_typed (call_device c dev)"
  using assms typed_sessions [OF assms(1)]
  by (cases c) (auto intro!: typed_map typed_write_read typed_write_add typed_read_read typed_read_write typed_read_add
      typed_wait)

section \<open>Properties\<close>

lemma typed_calls:
  assumes "device_typed dev" and "\<forall>c \<in> set cs. call_typed c"
  shows "typed_as device_typed (call_all cs dev)"
  using assms
proof (induction cs arbitrary: dev)
  case (Cons c cs)
  then have "typed_as device_typed (call_device c dev)" by (simp add: typed_call)
  moreover have "typed_as device_typed (call_all cs d)" if "device_typed d" for d
    using Cons.IH [OF that] Cons.prems(2) by simp
  ultimately show ?case by (simp add: typed_bind)
qed simp

text \<open>C8. Type soundness: on a device that \<open>kdevchar_init\<close> has set up, any calls of the handlers of
  the persistence devices and of the workers, in any order, with any bytes, any lengths and
  any outcome of the user copies, keep every pointer live, every block at its size and every
  position in range, or stop at an access out of bounds; no call follows a pointer that is
  NULL, freed or unassigned.\<close>

theorem handlers_keep_types:
  assumes "kdevchar_init api j devid (Some name) (Some d) e = Inr (0, Some dev, e')" and "alloc_all e"
    and "name_ok name devid" and "\<forall>c \<in> set cs. call_typed c"
  shows "(\<exists>dev'. call_all cs dev = Inr dev' \<and> device_typed dev') \<or> call_all cs dev = Inl OutOfBounds"
proof -
  have "registered api name devid \<and> dev = ready_device api j devid name d"
    using kdevchar_init_result [OF assms(2,3), of api j d] assms(1) by (auto split: if_splits)
  then have "device_typed dev"
    using ready_device_buffers [of api j devid name d] by (simp add: device_typed_def ready_device_def Let_def)
  from typed_calls [OF this assms(4)] show ?thesis by (cases "call_all cs dev") simp_all
qed

theorem handlers_keep_types_witness:
  "\<exists>dev e'. kdevchar_init demo_api demo_junk 0 (Some ''write-test'') (Some zero_device) good_env = Inr (0, Some dev, e')
    \<and> ((\<exists>dev'. call_all [Write_open, Write_read plain_to_user [], Write_add [] 40] dev = Inr dev' \<and> device_typed dev')
       \<or> call_all [Write_open, Write_read plain_to_user [], Write_add [] 40] dev = Inl OutOfBounds)"
proof -
  have "registered demo_api ''write-test'' 0" by (simp add: registered_def demo_api_def IS_ERR_def Let_def)
  then obtain dev e' where
    i: "kdevchar_init demo_api demo_junk 0 (Some ''write-test'') (Some zero_device) good_env = Inr (0, Some dev, e')"
    using kdevchar_init_result [OF alloc_all_good demo_names_ok(1), of demo_api demo_junk zero_device] by auto
  from handlers_keep_types [OF i alloc_all_good demo_names_ok(1), of "[Write_open, Write_read plain_to_user [], Write_add [] 40]"] i
  show ?thesis by auto
qed

end
