(* ===== verification/Answer_Steps.thy ===== *)
theory Answer_Steps
  imports Device_Types
begin

text \<open>
  \<open>read_persistence_write\<close>, which stores an answer, and \<open>wait_response\<close>, which judges it, share
  the callback of a slot and take no lock, and the workers share the counter
  \<open>messagesFound\<close>. Here both are cut into the steps in which they access what is shared: a
  copy from the user, the clearing of a response, the condition of the work and each access
  to the counter are one step each. One answering process and any number of workers are
  interleaved step by step.
\<close>

section \<open>The answering process\<close>

datatype answer_stage = Fetch | Wipe | Header | Value | Pop | Wake

text \<open>
  The answers still to be written (the user's buffer and its length), where the process is
  with the first of them, the slot it answers and whether the value could not be copied, and
  what the writes returned.
\<close>

record answerer =
  a_todo :: "(umem \<times> int) list"
  a_at :: answer_stage
  a_slot :: nat
  a_failed :: nat
  a_got :: "int list"

definition new_answerer :: "(umem \<times> int) list \<Rightarrow> answerer" where
  "new_answerer bs = \<lparr>a_todo = bs, a_at = Fetch, a_slot = 0, a_failed = 0, a_got = []\<rparr>"

definition answer_returns :: "int \<Rightarrow> answerer \<Rightarrow> answerer" where
  "answer_returns r p = p\<lparr>a_todo := tl (a_todo p), a_at := Fetch, a_got := a_got p @ [r]\<rparr>"

text \<open>Through the pointer to the response that the handler keeps in a variable.\<close>

definition load_response :: "paxos_kernel_device \<Rightarrow> nat \<Rightarrow> cerror + accepted_obj" where
  "load_response dev i = bindR (load_callback dev i) (\<lambda>cb. deref (response cb))"

definition answer_fetch ::
  "from_user \<Rightarrow> umem \<Rightarrow> answerer \<Rightarrow> paxos_kernel_device \<Rightarrow> cerror + answerer \<times> paxos_kernel_device" where
  "answer_fetch cfu buffer p dev =
     (if working dev = 0 then Inr (answer_returns (- 1) p, dev)
      else let (id_bytes, error_count_buffer_id) = cfu buffer 0 4
      in if error_count_buffer_id \<noteq> 0 then Inr (answer_returns (- 1) p, dev)
      else let idx = sint (rd32 id_bytes)
      in bindR (if idx < 0 then Inl OutOfBounds else load_callback dev (nat idx)) (\<lambda>cb.
         Inr (p\<lparr>a_at := Wipe, a_slot := nat idx\<rparr>, dev)))"

definition answer_wipe :: "answerer \<Rightarrow> paxos_kernel_device \<Rightarrow> cerror + answerer \<times> paxos_kernel_device" where
  "answer_wipe p dev =
     bindR (load_response dev (a_slot p)) (\<lambda>r0. bindR (clearPaxosAccepted r0) (\<lambda>r1.
     bindR (set_response dev (a_slot p) r1) (\<lambda>dev1. Inr (p\<lparr>a_at := Header\<rparr>, dev1))))"

definition answer_header ::
  "from_user \<Rightarrow> umem \<Rightarrow> answerer \<Rightarrow> paxos_kernel_device \<Rightarrow> cerror + answerer \<times> paxos_kernel_device" where
  "answer_header cfu buffer p dev =
     bindR (load_response dev (a_slot p)) (\<lambda>r1.
       let paxos_val = paxos_value_val (acc_value (obj_acc r1));
           (img, error_count_accepted) = cfu buffer 4 sizeof_paxos_accepted;
           a0 = accepted_of_image img;
           a = a0\<lparr>acc_value := (acc_value a0)\<lparr>paxos_value_val := paxos_val\<rparr>\<rparr>
       in bindR (set_response dev (a_slot p) (r1\<lparr>obj_acc := a\<rparr>)) (\<lambda>dev1.
          if error_count_accepted \<noteq> 0 then Inr (answer_returns (- 1) p, dev1)
          else Inr (p\<lparr>a_at := Value\<rparr>, dev1)))"

definition answer_value ::
  "from_user \<Rightarrow> umem \<Rightarrow> answerer \<Rightarrow> paxos_kernel_device \<Rightarrow> cerror + answerer \<times> paxos_kernel_device" where
  "answer_value cfu buffer p dev =
     bindR (load_response dev (a_slot p)) (\<lambda>r2.
       let len = paxos_value_len (acc_value (obj_acc r2))
       in if 0 < sint len
          then let (v, error_count_value) = cfu buffer (4 + sizeof_paxos_accepted) (unat (int_to_size len))
               in bindR (deref (obj_val r2)) (\<lambda>blk. bindR (mem_put 0 v blk) (\<lambda>blk'.
                  bindR (set_response dev (a_slot p) (r2\<lparr>obj_val := Live blk'\<rparr>)) (\<lambda>dev1.
                  Inr (p\<lparr>a_at := Pop, a_failed := error_count_value\<rparr>, dev1))))
          else Inr (p\<lparr>a_at := Pop, a_failed := 0\<rparr>, dev))"

definition answer_wake ::
  "int \<Rightarrow> answerer \<Rightarrow> paxos_kernel_device \<Rightarrow> cerror + answerer \<times> paxos_kernel_device" where
  "answer_wake len p dev =
     (if a_failed p \<noteq> 0 then Inr (answer_returns (- 1) p, dev)
      else bindR (load_callback dev (a_slot p)) (\<lambda>cb.
           if is_done cb = 0
           then bindR (store_callback dev (a_slot p) (cb\<lparr>response_wait := response_wait cb + 1\<rparr>)) (\<lambda>dev1.
                Inr (answer_returns len p, dev1))
           else Inr (answer_returns len p, dev)))"

definition answer_step ::
  "from_user \<Rightarrow> answerer \<Rightarrow> paxos_kernel_device \<Rightarrow> cerror + answerer \<times> paxos_kernel_device" where
  "answer_step cfu p dev =
     (case a_todo p of
        [] \<Rightarrow> Inr (p, dev)
      | (buffer, len) # bs \<Rightarrow>
          (case a_at p of
             Fetch \<Rightarrow> answer_fetch cfu buffer p dev
           | Wipe \<Rightarrow> answer_wipe p dev
           | Header \<Rightarrow> answer_header cfu buffer p dev
           | Value \<Rightarrow> answer_value cfu buffer p dev
           | Pop \<Rightarrow> Inr (p\<lparr>a_at := Wake\<rparr>, dev\<lparr>first_buf := next_slot (first_buf dev), used_buf := used_buf dev - 1\<rparr>)
           | Wake \<Rightarrow> answer_wake len p dev))"

section \<open>The workers\<close>

datatype work_stage = Look | Load | Store | Finish

text \<open>
  A worker thread: its works, where it is with the first of them, and the value of the
  counter it has loaded. \<open>messagesFound++\<close> is a load and a store.
\<close>

record worker_thread =
  k_works :: "persistence_work list"
  k_at :: work_stage
  k_loaded :: u32

definition new_worker :: "persistence_work list \<Rightarrow> worker_thread" where
  "new_worker ws = \<lparr>k_works = ws, k_at = Look, k_loaded = 0\<rparr>"

text \<open>The condition under which a work counts its message.\<close>

definition work_look :: "persistence_work \<Rightarrow> nat \<Rightarrow> paxos_kernel_device \<Rightarrow> cerror + bool" where
  "work_look w i dev =
     bindR (load_callback dev i) (\<lambda>callback.
     bindR (nonnull (response callback)) (\<lambda>condition.
       if is_done callback = 0
       then bindR (deref (response callback)) (\<lambda>r.
            Inr (iid (obj_acc r) = work_iid w \<and> 0 < sint (paxos_value_len (acc_value (obj_acc r)))))
       else Inr False))"

text \<open>The first part of the result is the work that is judged to have found its message.\<close>

definition worker_step ::
  "worker_thread \<Rightarrow> read_test \<Rightarrow> paxos_kernel_device
   \<Rightarrow> cerror + persistence_work list \<times> worker_thread \<times> read_test \<times> paxos_kernel_device" where
  "worker_step k st dev =
     (case k_works k of
        [] \<Rightarrow> Inr ([], k, st, dev)
      | w # ws \<Rightarrow> bindR (deref (param w)) (\<lambda>i.
          (case k_at k of
             Look \<Rightarrow> bindR (work_look w i dev) (\<lambda>found.
                Inr (if found then [w] else [], k\<lparr>k_at := (if found then Load else Finish)\<rparr>, st, dev))
           | Load \<Rightarrow> Inr ([], k\<lparr>k_at := Store, k_loaded := messagesFound st\<rparr>, st, dev)
           | Store \<Rightarrow> Inr ([], k\<lparr>k_at := Finish\<rparr>, st\<lparr>messagesFound := k_loaded k + 1\<rparr>, dev)
           | Finish \<Rightarrow> bindR (load_callback dev i) (\<lambda>cb. bindR (store_callback dev i (cb\<lparr>is_done := 1\<rparr>)) (\<lambda>dev1.
                Inr ([], k\<lparr>k_works := ws, k_at := Look\<rparr>, st, dev1))))))"

section \<open>Interleaving\<close>

datatype duel_event = Answers | Works nat

text \<open>The result is the works that found their messages, and the state.\<close>

primrec duel ::
  "from_user \<Rightarrow> duel_event list \<Rightarrow> paxos_kernel_device \<Rightarrow> read_test \<Rightarrow> answerer \<Rightarrow> worker_thread list
   \<Rightarrow> cerror + persistence_work list \<times> paxos_kernel_device \<times> read_test \<times> answerer \<times> worker_thread list" where
  "duel cfu [] dev st p ks = Inr ([], dev, st, p, ks)"
| "duel cfu (x # xs) dev st p ks =
     (case x of
        Answers \<Rightarrow> bindR (answer_step cfu p dev) (\<lambda>(p1, dev1). duel cfu xs dev1 st p1 ks)
      | Works i \<Rightarrow>
          if i < length ks
          then bindR (worker_step (ks ! i) st dev) (\<lambda>(hit, k, st1, dev1).
               bindR (duel cfu xs dev1 st1 p (ks[i := k])) (\<lambda>(hits, rest). Inr (hit @ hits, rest)))
          else duel cfu xs dev st p ks)"

section \<open>The steps are the handlers\<close>

lemma load_response_eq: "load_callback dev i = Inr cb \<Longrightarrow> load_response dev i = deref (response cb)"
  by (simp add: load_response_def)

lemma load_callback_live:
  "load_callback dev i = Inr cb \<longleftrightarrow>
    (\<exists>cs. callback_buf dev = Live cs \<and> i < length cs \<and> cs ! i = Live cb)"
  by (auto simp: load_callback_def bindR_eq_Inr arr_get_def c_simps split: if_splits)

lemma set_response_live:
  assumes "load_callback dev i = Inr cb"
  obtains dev' where "set_response dev i r = Inr dev'" and "load_callback dev' i = Inr (cb\<lparr>response := Live r\<rparr>)"
    and "working dev' = working dev" and "\<And>s. set_response dev' i s = set_response dev i s"
proof -
  from assms obtain cs where cs: "callback_buf dev = Live cs" "i < length cs" "cs ! i = Live cb"
    by (auto simp: load_callback_live)
  let ?d = "dev\<lparr>callback_buf := Live (cs[i := Live (cb\<lparr>response := Live r\<rparr>)])\<rparr>"
  have "set_response dev i r = Inr ?d"
    using assms cs by (simp add: set_response_def store_callback_def arr_set_def)
  moreover have l: "load_callback ?d i = Inr (cb\<lparr>response := Live r\<rparr>)" using cs(2) by (simp add: load_callback_live)
  moreover have "set_response ?d i s = set_response dev i s" for s
    using assms cs l by (simp add: set_response_def store_callback_def arr_set_def)
  ultimately show ?thesis by (intro that [of ?d]) simp_all
qed


lemma duel_idle: "a_todo p = [] \<Longrightarrow> duel cfu (replicate n Answers) dev st p ks = Inr ([], dev, st, p, ks)"
  by (induction n) (simp_all add: answer_step_def)

text \<open>What one answering process does alone: the results of its writes and the device.\<close>

definition alone ::
  "from_user \<Rightarrow> read_test \<Rightarrow> worker_thread list \<Rightarrow> nat \<Rightarrow> answerer \<Rightarrow> paxos_kernel_device
   \<Rightarrow> cerror + int list \<times> paxos_kernel_device" where
  "alone cfu st ks n p dev = map_sum id (\<lambda>(hits, dev', st', p', ks'). (a_got p', dev'))
     (duel cfu (replicate n Answers) dev st p ks)"

lemma alone_Suc:
  "alone cfu st ks (Suc n) p dev = bindR (answer_step cfu p dev) (\<lambda>(p1, dev1). alone cfu st ks n p1 dev1)"
  by (cases "answer_step cfu p dev") (auto simp: alone_def)

lemma alone_returned [simp]:
  "a_todo p = [x] \<Longrightarrow> alone cfu st ks n (answer_returns r p) dev = Inr (a_got p @ [r], dev)"
  by (simp add: alone_def duel_idle answer_returns_def)

text \<open>From the end of the handler to its beginning.\<close>

lemma alone_finish:
  assumes "a_todo p = [(buffer, len)]" and "a_at p = Pop" and "a_got p = []"
  shows "alone cfu st ks (Suc (Suc n)) p dev =
    map_sum id (\<lambda>(r, dev'). ([r], dev')) (read_write_finish len (a_slot p) (a_failed p) dev)"
proof -
  let ?dev = "dev\<lparr>first_buf := next_slot (first_buf dev), used_buf := used_buf dev - 1\<rparr>"
  show ?thesis
  proof (cases "load_callback ?dev (a_slot p)")
    case (Inl e)
    with assms show ?thesis
      by (simp add: alone_Suc answer_step_def answer_wake_def read_write_finish_def Let_def)
  next
    case (Inr cb)
    show ?thesis
      using assms Inr
      by (cases "store_callback ?dev (a_slot p) (cb\<lparr>response_wait := response_wait cb + 1\<rparr>)")
        (simp_all add: alone_Suc answer_step_def answer_wake_def read_write_finish_def Let_def)
  qed
qed


text \<open>The part of the handler behind the copy of the header, and the handler with it.\<close>

definition value_part :: "from_user \<Rightarrow> umem \<Rightarrow> int \<Rightarrow> nat \<Rightarrow> accepted_obj \<Rightarrow> paxos_kernel_device \<Rightarrow> cerror + int \<times> paxos_kernel_device" where
  "value_part cfu buffer len i r2 dev1 =
     (if 0 < sint (paxos_value_len (acc_value (obj_acc r2)))
      then let (v, error_count_value) = cfu buffer (4 + sizeof_paxos_accepted)
                 (unat (int_to_size (paxos_value_len (acc_value (obj_acc r2)))))
           in bindR (deref (obj_val r2)) (\<lambda>blk. bindR (mem_put 0 v blk) (\<lambda>blk'.
              bindR (set_response dev1 i (r2\<lparr>obj_val := Live blk'\<rparr>)) (\<lambda>dev2.
              read_write_finish len i error_count_value dev2)))
      else read_write_finish len i 0 dev1)"

lemma alone_value:
  assumes "a_todo p = [(buffer, len)]" and "a_at p = Value" and "a_got p = []"
    and "load_callback dev (a_slot p) = Inr cb" and "response cb = Live r"
  shows "alone cfu st ks (Suc (Suc (Suc n))) p dev =
    map_sum id (\<lambda>(r, dev'). ([r], dev')) (value_part cfu buffer len (a_slot p) r dev)"
proof -
  let ?p = "\<lambda>f. p\<lparr>a_at := Pop, a_failed := f\<rparr>"
  note fin = alone_finish [of "?p f" buffer len cfu st ks n for f]
  have step: "answer_step cfu p dev = answer_value cfu buffer p dev"
    using assms(1,2) by (simp add: answer_step_def)
  obtain v f where c: "cfu buffer (4 + sizeof_paxos_accepted) (unat (int_to_size (paxos_value_len (acc_value (obj_acc r))))) = (v, f)"
    by fastforce
  show ?thesis
    using assms(1-3) fin c load_response_eq [OF assms(4)] assms(5)
    apply (simp only: alone_Suc [of cfu st ks "Suc (Suc n)"] step)
    apply (simp add: answer_value_def value_part_def Let_def)
    apply (cases "deref (obj_val r)"; simp)
    subgoal for b
      apply (cases "mem_put 0 v b"; simp)
      subgoal for b' by (cases "set_response dev (a_slot p) (r\<lparr>obj_val := Live b'\<rparr>)"; simp)
      done
    done
qed


definition header_part :: "from_user \<Rightarrow> umem \<Rightarrow> int \<Rightarrow> nat \<Rightarrow> accepted_obj \<Rightarrow> paxos_kernel_device \<Rightarrow> cerror + int \<times> paxos_kernel_device" where
  "header_part cfu buffer len i r1 dev =
     (let paxos_val = paxos_value_val (acc_value (obj_acc r1));
          (img, error_count_accepted) = cfu buffer 4 sizeof_paxos_accepted;
          a0 = accepted_of_image img;
          a = a0\<lparr>acc_value := (acc_value a0)\<lparr>paxos_value_val := paxos_val\<rparr>\<rparr>;
          r2 = r1\<lparr>obj_acc := a\<rparr>
      in bindR (set_response dev i r2) (\<lambda>dev1.
         if error_count_accepted \<noteq> 0 then Inr (- 1, dev1) else value_part cfu buffer len i r2 dev1))"

lemma alone_header:
  assumes "a_todo p = [(buffer, len)]" and "a_at p = Header" and "a_got p = []"
    and "load_callback dev (a_slot p) = Inr cb" and "response cb = Live r"
  shows "alone cfu st ks (Suc (Suc (Suc (Suc n)))) p dev =
    map_sum id (\<lambda>(r', dev'). ([r'], dev')) (header_part cfu buffer len (a_slot p) r dev)"
proof -
  obtain img f where c: "cfu buffer 4 sizeof_paxos_accepted = (img, f)" by fastforce
  let ?a = "(accepted_of_image img)\<lparr>acc_value := (acc_value (accepted_of_image img))
    \<lparr>paxos_value_val := paxos_value_val (acc_value (obj_acc r))\<rparr>\<rparr>"
  have step: "answer_step cfu p dev = answer_header cfu buffer p dev"
    using assms(1,2) by (simp add: answer_step_def)
  obtain dev1 where d1: "set_response dev (a_slot p) (r\<lparr>obj_acc := ?a\<rparr>) = Inr dev1"
    "load_callback dev1 (a_slot p) = Inr (cb\<lparr>response := Live (r\<lparr>obj_acc := ?a\<rparr>)\<rparr>)"
    using set_response_live [OF assms(4)] by metis
  have "alone cfu st ks (Suc (Suc (Suc n))) (p\<lparr>a_at := Value\<rparr>) dev1 =
      map_sum id (\<lambda>(r', dev'). ([r'], dev')) (value_part cfu buffer len (a_slot p) (r\<lparr>obj_acc := ?a\<rparr>) dev1)"
    using assms(1,3) d1(2) alone_value [of "p\<lparr>a_at := Value\<rparr>" buffer len dev1] by simp
  then show ?thesis
    using assms(1,3,5) c d1(1) load_response_eq [OF assms(4)]
    by (simp add: alone_Suc [of cfu st ks "Suc (Suc (Suc n))"] step answer_header_def header_part_def Let_def)
qed

text \<open>Two stores through the response pointer are the second one.\<close>

lemma header_part_restored:
  assumes "\<And>s. set_response dev' i s = set_response dev i s"
  shows "header_part cfu buffer len i r dev' = header_part cfu buffer len i r dev"
  by (simp add: header_part_def assms)

lemma read_write_parts:
  "read_persistence_write cfu buffer len dev =
     (if working dev = 0 then Inr (- 1, dev)
      else let (id_bytes, error_count_buffer_id) = cfu buffer 0 4
      in if error_count_buffer_id \<noteq> 0 then Inr (- 1, dev)
      else let idx = sint (rd32 id_bytes); i = nat idx
      in bindR (if idx < 0 then Inl OutOfBounds else load_callback dev i) (\<lambda>cb.
         bindR (deref (response cb)) (\<lambda>r0. bindR (clearPaxosAccepted r0) (\<lambda>r1.
         header_part cfu buffer len i r1 dev))))"
  by (simp add: read_persistence_write_def header_part_def value_part_def Let_def case_prod_beta cong: if_cong)

lemma alone_wipe:
  assumes "a_todo p = [(buffer, len)]" and "a_at p = Wipe" and "a_got p = []"
    and "load_callback dev (a_slot p) = Inr cb"
  shows "alone cfu st ks (Suc (Suc (Suc (Suc (Suc n))))) p dev =
    map_sum id (\<lambda>(r', dev'). ([r'], dev')) (bindR (deref (response cb)) (\<lambda>r0.
      bindR (clearPaxosAccepted r0) (\<lambda>r1. header_part cfu buffer len (a_slot p) r1 dev)))"
proof (cases "bindR (deref (response cb)) clearPaxosAccepted")
  case (Inl e)
  with assms load_response_eq [OF assms(4)] show ?thesis
    by (auto simp: alone_Suc answer_step_def answer_wipe_def bindR_eq_Inl)
next
  case (Inr r1)
  then obtain r0 where r0: "response cb = Live r0" "clearPaxosAccepted r0 = Inr r1"
    by (auto simp: bindR_eq_Inr deref_eq_Inr)
  obtain dev1 where d1: "set_response dev (a_slot p) r1 = Inr dev1"
    "load_callback dev1 (a_slot p) = Inr (cb\<lparr>response := Live r1\<rparr>)"
    "\<And>s. set_response dev1 (a_slot p) s = set_response dev (a_slot p) s"
    using set_response_live [OF assms(4)] by metis
  have step: "answer_step cfu p dev = Inr (p\<lparr>a_at := Header\<rparr>, dev1)"
    using assms(1,2) r0 d1(1) load_response_eq [OF assms(4)] by (simp add: answer_step_def answer_wipe_def)
  show ?thesis
    using assms(1,3) r0 d1(2) header_part_restored [OF d1(3)] alone_header [of "p\<lparr>a_at := Header\<rparr>" buffer len dev1]
    by (simp add: alone_Suc [of cfu st ks "Suc (Suc (Suc (Suc n)))"] step)
qed

lemma alone_write:
  "alone cfu st ks (Suc (Suc (Suc (Suc (Suc (Suc n)))))) (new_answerer [(buffer, len)]) dev =
    map_sum id (\<lambda>(r', dev'). ([r'], dev')) (read_persistence_write cfu buffer len dev)"
proof -
  let ?p = "new_answerer [(buffer, len)]"
  obtain ib f where c: "cfu buffer 0 4 = (ib, f)" by fastforce
  have p: "a_todo ?p = [(buffer, len)]" "a_at ?p = Fetch" "a_got ?p = []" by (simp_all add: new_answerer_def)
  have step: "answer_step cfu ?p dev = answer_fetch cfu buffer ?p dev"
    using p by (simp add: answer_step_def)
  have go: "alone cfu st ks (Suc (Suc (Suc (Suc (Suc n))))) (?p\<lparr>a_at := Wipe, a_slot := i\<rparr>) dev =
      map_sum id (\<lambda>(r', dev'). ([r'], dev')) (bindR (deref (response cb)) (\<lambda>r0.
        bindR (clearPaxosAccepted r0) (\<lambda>r1. header_part cfu buffer len i r1 dev)))"
    if "load_callback dev i = Inr cb" for i cb
    using p that alone_wipe [of "?p\<lparr>a_at := Wipe, a_slot := i\<rparr>" buffer len dev cb] by simp
  show ?thesis
    using p c go
    by (cases "load_callback dev (nat (sint (rd32 ib)))")
      (simp_all add: alone_Suc [of cfu st ks "Suc (Suc (Suc (Suc (Suc n))))"] step answer_fetch_def read_write_parts Let_def)
qed

text \<open>What one worker does alone: the counters and the device.\<close>

definition work_alone ::
  "from_user \<Rightarrow> answerer \<Rightarrow> nat \<Rightarrow> worker_thread \<Rightarrow> read_test \<Rightarrow> paxos_kernel_device
   \<Rightarrow> cerror + read_test \<times> paxos_kernel_device" where
  "work_alone cfu p n k st dev = map_sum id (\<lambda>(hits, dev', st', p', ks'). (st', dev'))
     (duel cfu (replicate n (Works 0)) dev st p [k])"

lemma work_alone_Suc:
  "work_alone cfu p (Suc n) k st dev =
     bindR (worker_step k st dev) (\<lambda>(hit, k1, st1, dev1). work_alone cfu p n k1 st1 dev1)"
proof (cases "worker_step k st dev")
  case (Inr r)
  obtain hit k1 st1 dev1 where r: "r = (hit, k1, st1, dev1)" by (cases r)
  with Inr show ?thesis
    by (cases "duel cfu (replicate n (Works 0)) dev1 st1 p [k1]") (auto simp: work_alone_def)
qed (simp add: work_alone_def)

lemma work_alone_idle: "k_works k = [] \<Longrightarrow> work_alone cfu p n k st dev = Inr (st, dev)"
proof (induction n)
  case 0
  show ?case by (simp add: work_alone_def)
qed (simp add: work_alone_Suc worker_step_def)

lemma work_alone_finish:
  assumes "k_works k = [w]" and "k_at k = Finish" and "param w = Live i" and "load_callback dev i = Inr cb"
  shows "work_alone cfu p (Suc n) k st dev = bindR (store_callback dev i (cb\<lparr>is_done := 1\<rparr>)) (\<lambda>dev1. Inr (st, dev1))"
  using assms by (cases "store_callback dev i (cb\<lparr>is_done := 1\<rparr>)")
    (simp_all add: work_alone_Suc worker_step_def work_alone_idle)

lemma work_alone_wait:
  "work_alone cfu p 4 (new_worker [w]) st dev =
     map_sum id (\<lambda>(n, w', st', dev'). (st', dev')) (wait_response slept (Live w) st dev)"
proof (cases "bindR (deref (param w)) (load_callback dev)")
  case (Inl e)
  then show ?thesis
    by (auto simp: numeral_eq_Suc work_alone_Suc worker_step_def work_look_def wait_response_def new_worker_def bindR_eq_Inl)
next
  case (Inr cb)
  then obtain i where i: "param w = Live i" "load_callback dev i = Inr cb" by (auto simp: bindR_eq_Inr deref_eq_Inr)
  have wait: "map_sum id (\<lambda>(n, w', st', dev'). (st', dev')) (wait_response slept (Live w) st dev) =
      bindR (work_look w i dev) (\<lambda>found. bindR (store_callback dev i (cb\<lparr>is_done := 1\<rparr>)) (\<lambda>dev1.
        Inr (if found then st\<lparr>messagesFound := messagesFound st + 1\<rparr> else st, dev1)))"
    using i by (cases "response cb") (simp_all add: wait_response_def work_look_def map_sum_bindR Let_def)
  show ?thesis
  proof (cases "work_look w i dev")
    case (Inl e)
    with i wait show ?thesis by (simp add: numeral_eq_Suc work_alone_Suc worker_step_def new_worker_def)
  next
    case (Inr found)
    let ?k = "new_worker [w]"
    have four: "4 = Suc (Suc (Suc (Suc 0)))" by simp
    have look: "worker_step ?k st dev =
        Inr (if found then [w] else [], ?k\<lparr>k_at := if found then Load else Finish\<rparr>, st, dev)"
      using i Inr by (simp add: worker_step_def new_worker_def)
    have k: "k_works (?k\<lparr>k_at := x, k_loaded := y\<rparr>) = [w]" for x y by (simp add: new_worker_def)
    show ?thesis
    proof (cases found)
      case False
      then have "work_alone cfu p 4 ?k st dev = work_alone cfu p (Suc 2) (?k\<lparr>k_at := Finish\<rparr>) st dev"
        using look by (simp add: four work_alone_Suc [of _ _ "Suc (Suc (Suc 0))"] numeral_2_eq_2)
      with False Inr wait show ?thesis
        using work_alone_finish [OF _ _ i, of "?k\<lparr>k_at := Finish\<rparr>" cfu p 2 st] by (simp add: new_worker_def)
    next
      case True
      let ?st = "st\<lparr>messagesFound := messagesFound st + 1\<rparr>"
      let ?f = "?k\<lparr>k_at := Finish, k_loaded := messagesFound st\<rparr>"
      have "work_alone cfu p 4 ?k st dev = work_alone cfu p (Suc 0) ?f ?st dev"
        using True look i k by (simp add: four work_alone_Suc [of _ _ "Suc (Suc (Suc 0))"]
            work_alone_Suc [of _ _ "Suc (Suc 0)"] work_alone_Suc [of _ _ "Suc 0"] worker_step_def new_worker_def)
      with True Inr wait show ?thesis
        using work_alone_finish [OF _ _ i, of ?f cfu p 0 ?st] by (simp add: new_worker_def)
    qed
  qed
qed

section \<open>Properties\<close>

text \<open>C34. The steps are the code: the six steps of an answer, taken by the answering process
  alone, return what \<open>read_persistence_write\<close> returns and leave the device it leaves, and the
  four steps of a work, taken by one worker alone, do what \<open>wait_response\<close> does to the counters
  and the device. This holds for any bytes, any user copies and any device, and so do the
  undefined behaviours they run into.\<close>

theorem answer_steps_are_handlers:
  "map_sum id (\<lambda>(hits, dev', st', p', ks'). (a_got p', dev'))
      (duel cfu (replicate 6 Answers) dev st (new_answerer [(buffer, len)]) ks)
    = map_sum id (\<lambda>(r, dev'). ([r], dev')) (read_persistence_write cfu buffer len dev)
   \<and> map_sum id (\<lambda>(hits, dev', st', p', ks'). (st', dev')) (duel cfu (replicate 4 (Works 0)) dev st p [new_worker [w]])
    = map_sum id (\<lambda>(n, w', st', dev'). (st', dev')) (wait_response slept (Live w) st dev)"
proof -
  have six: "6 = Suc (Suc (Suc (Suc (Suc (Suc 0)))))" by simp
  show ?thesis unfolding six
    by (rule conjI [OF alone_write [unfolded alone_def] work_alone_wait [unfolded work_alone_def]])
qed

end
