(* ===== verification/Answer_Races.thy ===== *)
theory Answer_Races
  imports Answer_Steps
begin

text \<open>
  What the interleaving of answers and workers of \<open>Answer_Steps\<close> can do: it keeps the memory
  well formed and invents no message, the counter of found messages stays within bounds, and
  two schedules show what the missing locks cost.
\<close>

section \<open>What a response shows\<close>

text \<open>The two fields of a response that the workers judge by.\<close>

definition seen :: "paxos_kernel_device \<Rightarrow> nat \<Rightarrow> u32 \<times> u32" where
  "seen dev i = (let a = obj_acc (response_of (callbacks_of dev ! i)) in (iid a, paxos_value_len (acc_value a)))"

text \<open>What the response of slot \<open>i\<close> can show while the answers \<open>rs\<close> are written: a cleared
  struct, what it showed at the start, or one of the answers for that slot.\<close>

definition carried :: "(nat \<times> paxos_accepted \<times> byte list) list \<Rightarrow> paxos_kernel_device \<Rightarrow> nat \<Rightarrow> (u32 \<times> u32) set" where
  "carried rs dev i = {(0, 0), seen dev i}
     \<union> (\<lambda>(j, a, v). (iid a, paxos_value_len (acc_value a))) ` {x \<in> set rs. fst x = i}"

definition reply_buffers :: "(nat \<times> paxos_accepted \<times> byte list) list \<Rightarrow> (umem \<times> int) list" where
  "reply_buffers rs = map (\<lambda>(i, a, v). (reply_bytes i a v, 44 + int (length v))) rs"

lemma load_response_ok:
  assumes "buffers_ok dev" and "i < BUFFER_SIZE"
  shows "load_response dev i = Inr (response_of (callbacks_of dev ! i))"
    and "response_ok (response_of (callbacks_of dev ! i))"
  using load_callback_ok [OF assms] by (auto simp: load_response_def callback_ok_def response_of_def)

lemma set_response_seen:
  assumes "buffers_ok dev" and "i < BUFFER_SIZE" and "response_ok r"
  shows "\<exists>dev'. set_response dev i r = Inr dev' \<and> buffers_ok dev' \<and> working dev' = working dev
    \<and> (\<forall>j. seen dev' j = (if j = i then (iid (obj_acc r), paxos_value_len (acc_value (obj_acc r))) else seen dev j))"
proof -
  let ?d = "with_callbacks ((callbacks_of dev)[i := (callbacks_of dev ! i)\<lparr>response := Live r\<rparr>]) dev"
  have "length (callbacks_of dev) = BUFFER_SIZE" using assms(1) by (rule buffers_okD)
  then have "seen ?d j = (if j = i then (iid (obj_acc r), paxos_value_len (acc_value (obj_acc r))) else seen dev j)" for j
    using assms(2) by (simp add: seen_def response_of_def nth_list_update Let_def)
  with set_response_ok [OF assms] show ?thesis by (intro exI [of _ ?d]) (simp add: with_callbacks_def)
qed

lemma store_callback_seen:
  assumes "buffers_ok dev" and "i < BUFFER_SIZE" and "response c = response (callbacks_of dev ! i)"
  shows "\<exists>dev'. store_callback dev i c = Inr dev' \<and> buffers_ok dev' \<and> working dev' = working dev
    \<and> (\<forall>j. seen dev' j = seen dev j)"
proof -
  let ?d = "with_callbacks ((callbacks_of dev)[i := c]) dev"
  have c: "callback_ok c" using load_callback_ok(2) [OF assms(1,2)] assms(3) by (simp add: callback_ok_def)
  have "seen ?d j = seen dev j" for j
    using assms(2,3) buffers_okD(5) [OF assms(1)] by (simp add: seen_def response_of_def nth_list_update)
  with store_callback_ok [OF assms(1,2)] with_callbacks_buffers [OF assms(1) c] show ?thesis
    by (intro exI [of _ ?d]) (simp add: with_callbacks_def)
qed

lemma reply_header_copies:
  assumes "copy_from_user_ok cfu" and "i < BUFFER_SIZE"
  shows "cfu (reply_bytes i a v) 0 4 = (le32 (of_nat i), 0)"
    and "cfu (reply_bytes i a v) 4 sizeof_paxos_accepted = (accepted_image a, 0)"
    and "nat (sint (rd32 (le32 (of_nat i)))) = i" and "\<not> sint (rd32 (le32 (of_nat i))) < 0"
proof -
  have "sint (of_nat i :: u32) = int i" using assms(2) by (intro sint_of_nat32) (simp add: BUFFER_SIZE_def)
  then show "nat (sint (rd32 (le32 (of_nat i)))) = i" and "\<not> sint (rd32 (le32 (of_nat i))) < 0" by simp_all
  show "cfu (reply_bytes i a v) 0 4 = (le32 (of_nat i), 0)"
    and "cfu (reply_bytes i a v) 4 sizeof_paxos_accepted = (accepted_image a, 0)"
    using assms(1) by (simp_all add: cfu_done reply_bytes_def size_defs)
qed

lemma reply_value_copy:
  assumes "copy_from_user_ok cfu" and "reply_ok a v"
  shows "cfu (reply_bytes i a v) (4 + sizeof_paxos_accepted) (unat (int_to_size (of_nat (length v)))) = (v, 0)"
proof -
  have "length v \<le> 200" using assms(2) by (simp add: reply_ok_def size_defs)
  then show ?thesis using assms(1) value_len_nat [of v] by (simp add: cfu_done reply_bytes_def size_defs)
qed

text \<open>
  The invariant of a duel: the memory stays well formed, a response shows what it can, and
  the answering process is at its first answer; before it copies a value, the response has
  the length of that value, as no worker changes it.
\<close>

definition duel_inv ::
  "(nat \<times> paxos_accepted \<times> byte list) list \<Rightarrow> paxos_kernel_device \<Rightarrow> answerer \<Rightarrow> paxos_kernel_device \<Rightarrow> bool" where
  "duel_inv rs dev0 p dev \<longleftrightarrow> buffers_ok dev \<and> working dev \<noteq> 0 \<and> (\<forall>i. seen dev i \<in> carried rs dev0 i)
     \<and> (\<exists>qs. a_todo p = reply_buffers qs \<and> set qs \<subseteq> set rs
         \<and> (\<forall>i a v qs'. qs = (i, a, v) # qs' \<longrightarrow> (a_at p \<noteq> Fetch \<longrightarrow> a_slot p = i)
              \<and> (a_at p = Value \<longrightarrow> snd (seen dev i) = of_nat (length v))))"

definition replies_ok :: "(nat \<times> paxos_accepted \<times> byte list) list \<Rightarrow> bool" where
  "replies_ok rs \<longleftrightarrow> (\<forall>(i, a, v) \<in> set rs. i < BUFFER_SIZE \<and> reply_ok a v)"

lemma duel_inv_same:
  assumes "duel_inv rs dev0 p dev" and "buffers_ok dev'" and "working dev' = working dev" and "\<And>i. seen dev' i = seen dev i"
  shows "duel_inv rs dev0 p dev'"
  using assms by (simp add: duel_inv_def)

lemma duel_inv_returns:
  assumes "duel_inv rs dev0 p dev" and "a_todo p \<noteq> []"
  shows "duel_inv rs dev0 (answer_returns r p) dev"
proof -
  from assms(1) obtain qs where qs: "a_todo p = reply_buffers qs" "set qs \<subseteq> set rs" by (auto simp: duel_inv_def)
  then have "tl (a_todo p) = reply_buffers (tl qs)" "set (tl qs) \<subseteq> set rs"
    by (simp_all add: reply_buffers_def map_tl) (cases qs; simp)
  with assms(1) show ?thesis by (auto simp: duel_inv_def answer_returns_def)
qed

lemma duel_inv_at:
  assumes "buffers_ok dev" and "working dev \<noteq> 0" and "\<And>i. seen dev i \<in> carried rs dev0 i"
    and "a_todo p = reply_buffers ((i, a, v) # qs)" and "set ((i, a, v) # qs) \<subseteq> set rs"
    and "a_slot p = i" and "a_at p = Value \<longrightarrow> snd (seen dev i) = of_nat (length v)"
  shows "duel_inv rs dev0 p dev"
  using assms by (auto simp: duel_inv_def intro!: exI [of _ "(i, a, v) # qs"])

lemma carried_reply: "(i, a, v) \<in> set rs \<Longrightarrow> (iid a, paxos_value_len (acc_value a)) \<in> carried rs dev i"
  by (force simp: carried_def)

text \<open>The steps of the process within its first answer \<open>(i, a, v)\<close>.\<close>

definition answering ::
  "(nat \<times> paxos_accepted \<times> byte list) list \<Rightarrow> paxos_kernel_device \<Rightarrow> answerer \<Rightarrow> paxos_kernel_device
   \<Rightarrow> nat \<Rightarrow> paxos_accepted \<Rightarrow> byte list \<Rightarrow> bool" where
  "answering rs dev0 p dev i a v \<longleftrightarrow> buffers_ok dev \<and> working dev \<noteq> 0 \<and> (\<forall>j. seen dev j \<in> carried rs dev0 j)
     \<and> (\<exists>qs. a_todo p = reply_buffers ((i, a, v) # qs) \<and> set ((i, a, v) # qs) \<subseteq> set rs) \<and> a_slot p = i
     \<and> (a_at p = Value \<longrightarrow> snd (seen dev i) = of_nat (length v))
     \<and> i < BUFFER_SIZE \<and> reply_ok a v \<and> (i, a, v) \<in> set rs"

lemma answering_inv: "answering rs dev0 p dev i a v \<Longrightarrow> duel_inv rs dev0 p dev"
  unfolding answering_def by (elim conjE exE) (rule duel_inv_at; blast)

lemma answering_next:
  assumes "answering rs dev0 p dev i a v" and "buffers_ok dev'" and "working dev' = working dev"
    and "\<And>j. seen dev' j \<in> carried rs dev0 j" and "x = Value \<longrightarrow> snd (seen dev' i) = of_nat (length v)"
  shows "answering rs dev0 (p\<lparr>a_at := x, a_failed := f\<rparr>) dev' i a v"
    and "answering rs dev0 (p\<lparr>a_at := x\<rparr>) dev' i a v"
  using assms unfolding answering_def by auto

lemma duel_wipe:
  assumes "answering rs dev0 p dev i a v"
  shows "\<exists>p' dev'. answer_wipe p dev = Inr (p', dev') \<and> duel_inv rs dev0 p' dev'"
proof -
  from assms have i: "i < BUFFER_SIZE" "a_slot p = i" and inv: "buffers_ok dev" "\<And>j. seen dev j \<in> carried rs dev0 j"
    by (simp_all add: answering_def)
  note r = load_response_ok [OF inv(1) i(1)]
  obtain r1 where r1: "clearPaxosAccepted (response_of (callbacks_of dev ! i)) = Inr r1" "response_ok r1"
    "iid (obj_acc r1) = 0" "paxos_value_len (acc_value (obj_acc r1)) = 0"
    using clear_ok [OF r(2)] by (simp add: response_ok_def)
  obtain dev' where d: "set_response dev i r1 = Inr dev'" "buffers_ok dev'" "working dev' = working dev"
    "\<And>j. seen dev' j = (if j = i then (0, 0) else seen dev j)"
    using set_response_seen [OF inv(1) i(1) r1(2)] r1(3,4) by auto
  have "answering rs dev0 (p\<lparr>a_at := Header\<rparr>) dev' i a v"
    using d(4) inv(2) by (intro answering_next(2) [OF assms d(2,3)]) (simp_all add: carried_def)
  from answering_inv [OF this] show ?thesis using r(1) r1(1) d(1) i(2) by (simp add: answer_wipe_def)
qed

lemma duel_header:
  assumes "answering rs dev0 p dev i a v" and "copy_from_user_ok cfu"
  shows "\<exists>p' dev'. answer_header cfu (reply_bytes i a v) p dev = Inr (p', dev') \<and> duel_inv rs dev0 p' dev'"
proof -
  from assms have i: "i < BUFFER_SIZE" "a_slot p = i" and inv: "buffers_ok dev" "\<And>j. seen dev j \<in> carried rs dev0 j"
    and ok: "reply_ok a v" and mem: "(i, a, v) \<in> set rs" by (simp_all add: answering_def)
  note r = load_response_ok [OF inv(1) i(1)] and c = reply_header_copies(2) [OF assms(2) i(1)]
  let ?r = "response_of (callbacks_of dev ! i)"
  let ?a = "a\<lparr>acc_value := (acc_value a)\<lparr>paxos_value_val := paxos_value_val (acc_value (obj_acc ?r))\<rparr>\<rparr>"
  obtain dev' where d: "set_response dev i (?r\<lparr>obj_acc := ?a\<rparr>) = Inr dev'" "buffers_ok dev'"
    "working dev' = working dev"
    "\<And>j. seen dev' j = (if j = i then (iid a, paxos_value_len (acc_value a)) else seen dev j)"
    using set_response_seen [OF inv(1) i(1), of "?r\<lparr>obj_acc := ?a\<rparr>"] r(2) by auto
  have len: "paxos_value_len (acc_value a) = of_nat (length v)" using ok by (simp add: reply_ok_def)
  have "answering rs dev0 (p\<lparr>a_at := Value\<rparr>) dev' i a v"
    using d(4) inv(2) carried_reply [OF mem] len by (intro answering_next(2) [OF assms(1) d(2,3)]) simp_all
  from answering_inv [OF this] show ?thesis using r(1) c d(1) i(2) by (simp add: answer_header_def)
qed

lemma duel_value:
  assumes "answering rs dev0 p dev i a v" and "copy_from_user_ok cfu" and "a_at p = Value"
  shows "\<exists>p' dev'. answer_value cfu (reply_bytes i a v) p dev = Inr (p', dev') \<and> duel_inv rs dev0 p' dev'"
proof -
  from assms have i: "i < BUFFER_SIZE" "a_slot p = i" and inv: "buffers_ok dev" "\<And>j. seen dev j \<in> carried rs dev0 j"
    and ok: "reply_ok a v" and l: "snd (seen dev i) = of_nat (length v)" by (simp_all add: answering_def)
  let ?r = "response_of (callbacks_of dev ! i)"
  note r = load_response_ok [OF inv(1) i(1)] and c = reply_value_copy [OF assms(2) ok]
  have len: "paxos_value_len (acc_value (obj_acc ?r)) = of_nat (length v)" using l by (simp add: seen_def Let_def)
  obtain b where b: "obj_val ?r = Live b" "length b = MAX_PAXOS_VALUE_SIZE" using r(2) by (auto simp: response_ok_def)
  have v: "length v \<le> MAX_PAXOS_VALUE_SIZE" using ok by (simp add: reply_ok_def)
  then obtain b' where b': "mem_put 0 v b = Inr b'" "length b' = MAX_PAXOS_VALUE_SIZE"
    using b(2) by (simp add: mem_put_ok)
  have same: "seen dev i = (iid (obj_acc ?r), paxos_value_len (acc_value (obj_acc ?r)))"
    by (simp add: seen_def Let_def)
  obtain dev' where d: "set_response dev i (?r\<lparr>obj_val := Live b'\<rparr>) = Inr dev'" "buffers_ok dev'"
    "working dev' = working dev" "\<And>j. seen dev' j = seen dev j"
    using set_response_seen [OF inv(1) i(1), of "?r\<lparr>obj_val := Live b'\<rparr>"] b'(2) same by auto
  have "duel_inv rs dev0 (p\<lparr>a_at := Pop, a_failed := 0\<rparr>) d"
    if "buffers_ok d" "working d = working dev" "\<And>j. seen d j = seen dev j" for d
    by (rule answering_inv [OF answering_next(1) [OF assms(1) that(1,2)]]) (use inv(2) that(3) in simp_all)
  with inv(1) d r(1) c b(1) b'(1) len i(2) show ?thesis
    by (cases "0 < sint (of_nat (length v) :: u32)") (simp_all add: answer_value_def)
qed

lemma duel_wake:
  assumes "answering rs dev0 p dev i a v"
  shows "\<exists>p' dev'. answer_wake len p dev = Inr (p', dev') \<and> duel_inv rs dev0 p' dev'"
proof -
  from assms have i: "i < BUFFER_SIZE" "a_slot p = i" and inv: "buffers_ok dev" and todo: "a_todo p \<noteq> []"
    by (auto simp: answering_def reply_buffers_def)
  let ?cb = "callbacks_of dev ! i"
  obtain dev' where d: "store_callback dev i (?cb\<lparr>response_wait := response_wait ?cb + 1\<rparr>) = Inr dev'"
    "buffers_ok dev'" "working dev' = working dev" "\<And>j. seen dev' j = seen dev j"
    using store_callback_seen [OF inv i(1), of "?cb\<lparr>response_wait := response_wait ?cb + 1\<rparr>"] by auto
  have "duel_inv rs dev0 (answer_returns x p) dev" "duel_inv rs dev0 (answer_returns x p) dev'" for x
    using duel_inv_returns [OF answering_inv [OF assms] todo] duel_inv_same [OF _ d(2-4)] by blast+
  with d(1) i load_callback_ok(1) [OF inv i(1)] show ?thesis by (simp add: answer_wake_def)
qed

lemma duel_answer:
  assumes "duel_inv rs dev0 p dev" and "copy_from_user_ok cfu" and "replies_ok rs"
  shows "\<exists>p' dev'. answer_step cfu p dev = Inr (p', dev') \<and> duel_inv rs dev0 p' dev'"
proof (cases "a_todo p")
  case Nil
  with assms(1) show ?thesis by (simp add: answer_step_def)
next
  case (Cons b bs)
  from assms(1) obtain qs where inv: "buffers_ok dev" "working dev \<noteq> 0" "\<And>i. seen dev i \<in> carried rs dev0 i"
    and qs: "a_todo p = reply_buffers qs" "set qs \<subseteq> set rs"
    and at: "\<And>i a v qs'. qs = (i, a, v) # qs' \<Longrightarrow> (a_at p \<noteq> Fetch \<longrightarrow> a_slot p = i)
        \<and> (a_at p = Value \<longrightarrow> snd (seen dev i) = of_nat (length v))"
    by (auto simp: duel_inv_def)
  from Cons qs(1) obtain i a v qs' where q: "qs = (i, a, v) # qs'" by (cases qs) (auto simp: reply_buffers_def)
  with qs(2) assms(3) have i: "i < BUFFER_SIZE" and ok: "reply_ok a v" and mem: "(i, a, v) \<in> set rs"
    by (auto simp: replies_ok_def)
  have todo: "a_todo p = (reply_bytes i a v, 44 + int (length v)) # reply_buffers qs'"
    using qs(1) q by (simp add: reply_buffers_def)
  have on: "answering rs dev0 p dev i a v" if "a_at p \<noteq> Fetch"
    using inv qs q at i ok mem that by (auto simp: answering_def)
  show ?thesis
  proof (cases "a_at p")
    case Fetch
    have "answering rs dev0 (p\<lparr>a_at := Wipe, a_slot := i\<rparr>) dev i a v"
      using inv qs q i ok mem by (auto simp: answering_def)
    with Fetch reply_header_copies [OF assms(2) i] inv(2) load_callback_ok(1) [OF inv(1) i] show ?thesis
      by (simp add: answer_step_def todo answer_fetch_def answering_inv)
  next
    case Pop
    let ?d = "dev\<lparr>first_buf := next_slot (first_buf dev), used_buf := used_buf dev - 1\<rparr>"
    have "seen ?d j = seen dev j" for j by (simp add: seen_def)
    then have "answering rs dev0 (p\<lparr>a_at := Wake\<rparr>) ?d i a v"
      using inv Pop by (intro answering_next(2) [OF on]) simp_all
    then have "duel_inv rs dev0 (p\<lparr>a_at := Wake\<rparr>) ?d" by (rule answering_inv)
    with Pop show ?thesis by (simp add: answer_step_def todo)
  qed (use on duel_wipe duel_header [OF _ assms(2)] duel_value [OF _ assms(2)] duel_wake in
      \<open>simp_all add: answer_step_def todo\<close>)
qed

text \<open>The steps of the workers.\<close>

definition works_ok :: "worker_thread list \<Rightarrow> bool" where
  "works_ok ks \<longleftrightarrow> (\<forall>k \<in> set ks. \<forall>w \<in> set (k_works k). \<exists>i < BUFFER_SIZE. param w = Live i)"

text \<open>A work that finds its message finds what the response can show.\<close>

definition hit_ok :: "(nat \<times> paxos_accepted \<times> byte list) list \<Rightarrow> paxos_kernel_device \<Rightarrow> persistence_work \<Rightarrow> bool" where
  "hit_ok rs dev0 w \<longleftrightarrow> (\<exists>i l. param w = Live i \<and> (work_iid w, l) \<in> carried rs dev0 i \<and> 0 < sint l)"

lemma work_look_ok:
  assumes "buffers_ok dev" and "i < BUFFER_SIZE"
  shows "work_look w i dev = Inr (is_done (callbacks_of dev ! i) = 0
    \<and> fst (seen dev i) = work_iid w \<and> 0 < sint (snd (seen dev i)))"
  using load_callback_ok [OF assms] by (auto simp: work_look_def callback_ok_def seen_def response_of_def Let_def)

lemma duel_work:
  assumes "duel_inv rs dev0 p dev" and "\<forall>w \<in> set (k_works k). \<exists>i < BUFFER_SIZE. param w = Live i"
  shows "\<exists>hit k' st' dev'. worker_step k st dev = Inr (hit, k', st', dev') \<and> duel_inv rs dev0 p dev'
    \<and> set (k_works k') \<subseteq> set (k_works k) \<and> (\<forall>w \<in> set hit. hit_ok rs dev0 w)"
proof (cases "k_works k")
  case (Cons w ws)
  with assms(2) obtain i where i: "i < BUFFER_SIZE" "param w = Live i" by auto
  have bo: "buffers_ok dev" and sn: "seen dev i \<in> carried rs dev0 i" using assms(1) by (simp_all add: duel_inv_def)
  show ?thesis
  proof (cases "k_at k")
    case Look
    from sn have "hit_ok rs dev0 w" if "fst (seen dev i) = work_iid w" "0 < sint (snd (seen dev i))"
      using i(2) that unfolding hit_ok_def by (metis prod.collapse)
    with Look Cons i(2) work_look_ok [OF bo i(1)] assms(1) show ?thesis by (simp add: worker_step_def)
  next
    case Finish
    obtain dev' where d: "store_callback dev i ((callbacks_of dev ! i)\<lparr>is_done := 1\<rparr>) = Inr dev'" "buffers_ok dev'"
      "working dev' = working dev" "\<And>j. seen dev' j = seen dev j"
      using store_callback_seen [OF bo i(1), of "(callbacks_of dev ! i)\<lparr>is_done := 1\<rparr>"] by auto
    with Finish Cons i(2) load_callback_ok(1) [OF bo i(1)] duel_inv_same [OF assms(1) d(2-4)] show ?thesis
      by (auto simp: worker_step_def)
  qed (use Cons i(2) assms(1) in \<open>simp_all add: worker_step_def\<close>)
qed (use assms(1) in \<open>simp add: worker_step_def\<close>)

lemma works_ok_update:
  assumes "works_ok ks" and "set (k_works k') \<subseteq> set (k_works (ks ! n))" and "n < length ks"
  shows "works_ok (ks[n := k'])"
proof -
  have "\<exists>i < BUFFER_SIZE. param w = Live i" if "k \<in> set (ks[n := k'])" "w \<in> set (k_works k)" for k w
  proof -
    from that(1) have "k \<in> insert k' (set ks)" by (rule set_update_subset_insert [THEN subsetD])
    with that(2) assms nth_mem [OF assms(3)] show ?thesis unfolding works_ok_def by blast
  qed
  then show ?thesis by (simp add: works_ok_def)
qed

lemma duel_runs:
  assumes "duel_inv rs dev0 p dev" and "copy_from_user_ok cfu" and "replies_ok rs" and "works_ok ks"
  shows "\<exists>hits rest. duel cfu xs dev st p ks = Inr (hits, rest) \<and> (\<forall>w \<in> set hits. hit_ok rs dev0 w)"
  using assms(1,4)
proof (induction xs arbitrary: dev st p ks)
  case (Cons x xs)
  show ?case
  proof (cases x)
    case Answers
    from duel_answer [OF Cons.prems(1) assms(2,3)] obtain p' dev' where
      "answer_step cfu p dev = Inr (p', dev')" "duel_inv rs dev0 p' dev'" by blast
    with Answers Cons.IH [OF _ Cons.prems(2)] show ?thesis by simp
  next
    case (Works n)
    show ?thesis
    proof (cases "n < length ks")
      case True
      then have "\<forall>w \<in> set (k_works (ks ! n)). \<exists>i < BUFFER_SIZE. param w = Live i"
        using Cons.prems(2) nth_mem by (auto simp: works_ok_def)
      from duel_work [OF Cons.prems(1) this, of st] obtain hit k' st' dev' where
        s: "worker_step (ks ! n) st dev = Inr (hit, k', st', dev')" "duel_inv rs dev0 p dev'"
        "set (k_works k') \<subseteq> set (k_works (ks ! n))" "\<forall>w \<in> set hit. hit_ok rs dev0 w" by blast
      from Cons.IH [OF s(2) works_ok_update [OF Cons.prems(2) s(3) True], of st'] obtain hits rest where
        "duel cfu xs dev' st' p (ks[n := k']) = Inr (hits, rest)" "\<forall>w \<in> set hits. hit_ok rs dev0 w" by blast
      with Works True s(1,4) show ?thesis by (cases rest) auto
    next
      case False
      with Works Cons.IH [OF Cons.prems] show ?thesis by simp
    qed
  qed
qed simp

section \<open>The counter\<close>

text \<open>A worker that has found its message and has not counted it yet.\<close>

definition counting :: "worker_thread \<Rightarrow> bool" where
  "counting k \<longleftrightarrow> k_works k \<noteq> [] \<and> (k_at k = Load \<or> k_at k = Store)"

lemma counting_update:
  "n < length ks \<Longrightarrow> length (filter counting (ks[n := k])) + of_bool (counting (ks ! n))
     = length (filter counting ks) + of_bool (counting k)"
proof (induction ks arbitrary: n)
  case (Cons a ks)
  then show ?case by (cases n) auto
qed simp

text \<open>
  \<open>h\<close> messages have been found and \<open>s\<close> stores done since the counter was \<open>n0\<close>. A store may
  overwrite others, but not all of them, and it never adds more than one.
\<close>

definition count_inv :: "nat \<Rightarrow> nat \<Rightarrow> nat \<Rightarrow> worker_thread list \<Rightarrow> read_test \<Rightarrow> bool" where
  "count_inv n0 h s ks st \<longleftrightarrow> h = s + length (filter counting ks)
     \<and> n0 \<le> unat (messagesFound st) \<and> unat (messagesFound st) \<le> n0 + s \<and> (0 < s \<longrightarrow> n0 < unat (messagesFound st))
     \<and> (\<forall>k \<in> set ks. counting k \<and> k_at k = Store \<longrightarrow> n0 \<le> unat (k_loaded k) \<and> unat (k_loaded k) \<le> n0 + s)"

lemma unat_Suc32: "unat (c :: u32) + 1 < 2 ^ 32 \<Longrightarrow> unat (c + 1) = unat c + 1"
  by (simp add: unat_word_ariths)

lemma count_inv_update:
  assumes "count_inv n0 h s ks st" and "s \<le> s'" and "h' = s' + length (filter counting (ks[n := k']))"
    and "n0 \<le> unat (messagesFound st')" and "unat (messagesFound st') \<le> n0 + s'"
    and "0 < s' \<Longrightarrow> n0 < unat (messagesFound st')"
    and "counting k' \<Longrightarrow> k_at k' = Store \<Longrightarrow> n0 \<le> unat (k_loaded k') \<and> unat (k_loaded k') \<le> n0 + s'"
  shows "count_inv n0 h' s' (ks[n := k']) st'"
proof -
  have "n0 \<le> unat (k_loaded k) \<and> unat (k_loaded k) \<le> n0 + s'"
    if "k \<in> set (ks[n := k'])" "counting k \<and> k_at k = Store" for k
  proof -
    from that(1) have "k = k' \<or> k \<in> set ks" using set_update_subset_insert [of ks n k'] by blast
    with assms(1,2,7) that(2) show ?thesis unfolding count_inv_def by (meson add_left_mono order.trans)
  qed
  with assms(3-6) show ?thesis by (simp add: count_inv_def)
qed

lemma count_step:
  assumes "count_inv n0 h s ks st" and "n < length ks" and "worker_step (ks ! n) st dev = Inr (hit, k', st', dev')"
    and "n0 + h < 2 ^ 32"
  shows "\<exists>s'. count_inv n0 (h + length hit) s' (ks[n := k']) st'"
proof -
  let ?k = "ks ! n"
  note upd = counting_update [OF assms(2), of k']
  from assms(1) have h: "h = s + length (filter counting ks)" and c: "n0 \<le> unat (messagesFound st)"
    "unat (messagesFound st) \<le> n0 + s" "0 < s \<Longrightarrow> n0 < unat (messagesFound st)" by (auto simp: count_inv_def)
  have same: ?thesis if "st' = st" "h + length hit = s + length (filter counting (ks[n := k']))"
    "counting k' \<Longrightarrow> k_at k' = Store \<Longrightarrow> n0 \<le> unat (k_loaded k') \<and> unat (k_loaded k') \<le> n0 + s"
    using count_inv_update [OF assms(1) order.refl that(2), of st'] c that by blast
  show ?thesis
  proof (cases "k_works ?k")
    case Nil
    then show ?thesis using assms(1,3) by (auto simp: worker_step_def)
  next
    case (Cons w ws)
    show ?thesis
    proof (cases "k_at ?k")
      case Look
      then obtain found where "hit = (if found then [w] else [])" "st' = st"
        "k' = ?k\<lparr>k_at := (if found then Load else Finish)\<rparr>"
        using assms(3) Cons by (auto simp: worker_step_def bindR_eq_Inr)
      then show ?thesis using Cons Look upd h by (intro same) (auto simp: counting_def split: if_splits)
    next
      case Load
      then have "hit = []" "st' = st" "k' = ?k\<lparr>k_at := Store, k_loaded := messagesFound st\<rparr>"
        using assms(3) Cons by (auto simp: worker_step_def bindR_eq_Inr)
      then show ?thesis using Cons Load upd h c by (intro same) (simp_all add: counting_def)
    next
      case Finish
      then have "hit = []" "st' = st" "k_at k' = Look"
        using assms(3) Cons by (auto simp: worker_step_def bindR_eq_Inr)
      then show ?thesis using Cons Finish upd h by (intro same) (simp_all add: counting_def)
    next
      case Store
      have k: "counting ?k" "?k \<in> set ks" using Cons Store assms(2) by (simp_all add: counting_def)
      then have l: "n0 \<le> unat (k_loaded ?k)" "unat (k_loaded ?k) \<le> n0 + s"
        using assms(1) Store by (simp_all add: count_inv_def)
      have "0 < length (filter counting ks)" using k by (auto simp: filter_empty_conv)
      with l(2) h assms(4) have w: "unat (k_loaded ?k + 1) = unat (k_loaded ?k) + 1" by (intro unat_Suc32) linarith
      have k': "hit = []" "k' = ?k\<lparr>k_at := Finish\<rparr>" "st' = st\<lparr>messagesFound := k_loaded ?k + 1\<rparr>"
        using assms(3) Cons Store by (auto simp: worker_step_def bindR_eq_Inr)
      have "count_inv n0 (h + length hit) (Suc s) (ks[n := k']) st'"
        using k' w l k(1) upd h by (intro count_inv_update [OF assms(1)]) (simp_all add: counting_def)
      then show ?thesis by blast
    qed
  qed
qed

lemma count_duel:
  assumes "duel cfu xs dev st p ks = Inr (hits, dev', st', p', ks')" and "count_inv n0 h s ks st"
    and "n0 + h + length hits < 2 ^ 32"
  shows "\<exists>s'. count_inv n0 (h + length hits) s' ks' st'"
  using assms
proof (induction xs arbitrary: dev st p ks hits h s)
  case (Cons x xs)
  show ?case
  proof (cases x)
    case Answers
    with Cons.prems(1) obtain p1 dev1 where "duel cfu xs dev1 st p1 ks = Inr (hits, dev', st', p', ks')"
      by (auto simp: bindR_eq_Inr)
    from Cons.IH [OF this Cons.prems(2,3)] show ?thesis .
  next
    case (Works n)
    show ?thesis
    proof (cases "n < length ks")
      case True
      with Works Cons.prems(1) obtain hit k st1 dev1 hits1 where
        s: "worker_step (ks ! n) st dev = Inr (hit, k, st1, dev1)" "hits = hit @ hits1"
        "duel cfu xs dev1 st1 p (ks[n := k]) = Inr (hits1, dev', st', p', ks')"
        by (auto simp: bindR_eq_Inr)
      obtain s1 where s1: "count_inv n0 (h + length hit) s1 (ks[n := k]) st1"
        using count_step [OF Cons.prems(2) True s(1)] Cons.prems(3) by auto
      have "n0 + (h + length hit) + length hits1 < 2 ^ 32" using Cons.prems(3) s(2) by simp
      from Cons.IH [OF s(3) s1 this] s(2) show ?thesis by (simp add: add.assoc)
    next
      case False
      with Works Cons.prems(1) have "duel cfu xs dev st p ks = Inr (hits, dev', st', p', ks')" by simp
      from Cons.IH [OF this Cons.prems(2,3)] show ?thesis .
    qed
  qed
qed auto

section \<open>Runs of a given slot\<close>

text \<open>The device with one callback replaced, under the operations of the steps.\<close>

definition at_slot :: "nat \<Rightarrow> paxos_kernel_device \<Rightarrow> kernel_device_callback \<Rightarrow> paxos_kernel_device" where
  "at_slot i dev c = with_callbacks ((callbacks_of dev)[i := c]) dev"

lemma at_slot_start:
  assumes "buffers_ok dev" shows "at_slot i dev (callbacks_of dev ! i) = dev"
  using buffers_okD(4) [OF assms] by (simp add: at_slot_def with_callbacks_def)

lemma at_slot_ops:
  assumes "buffers_ok dev" and "i < BUFFER_SIZE" and "callback_ok c"
  shows "load_callback (at_slot i dev c) i = Inr c" and "store_callback (at_slot i dev c) i d = Inr (at_slot i dev d)"
    and "load_response (at_slot i dev c) i = deref (response c)"
    and "set_response (at_slot i dev c) i r = Inr (at_slot i dev (c\<lparr>response := Live r\<rparr>))"
    and "working (at_slot i dev c) = working dev"
proof -
  have bo: "buffers_ok (at_slot i dev c)"
    using with_callbacks_buffers [OF assms(1,3)] by (simp add: at_slot_def)
  have l: "i < length (callbacks_of dev)" using assms(2) buffers_okD(5) [OF assms(1)] by simp
  then show load: "load_callback (at_slot i dev c) i = Inr c"
    using load_callback_ok(1) [OF bo assms(2)] by (simp add: at_slot_def)
  show store: "store_callback (at_slot i dev c) i d = Inr (at_slot i dev d)" for d
    using store_callback_ok [OF bo assms(2)] by (simp add: at_slot_def)
  show "set_response (at_slot i dev c) i r = Inr (at_slot i dev (c\<lparr>response := Live r\<rparr>))"
    by (simp add: set_response_def load store)
  show "load_response (at_slot i dev c) i = deref (response c)" by (simp add: load_response_def load)
  show "working (at_slot i dev c) = working dev" by (simp add: at_slot_def with_callbacks_def)
qed

text \<open>An answer whose value is shorter than it says; a work that finds its message, in one go.\<close>

lemma reply_short:
  assumes "copy_from_user_ok cfu" and "length v < n"
  shows "\<exists>vs m. cfu (reply_bytes i a v) (4 + sizeof_paxos_accepted) n = (vs, m) \<and> m \<noteq> 0 \<and> length vs = n"
proof -
  have "length (reply_bytes i a v) < 4 + sizeof_paxos_accepted + n"
    using assms(2) by (simp add: reply_bytes_def size_defs)
  from cfu_fault [OF assms(1) this] cfu_length [OF assms(1)] show ?thesis by (metis prod.collapse)
qed

lemma work_between:
  assumes "param w = Live i" and "work_look w i dev = Inr True" and "load_callback dev i = Inr cb"
    and "store_callback dev i (cb\<lparr>is_done := 1\<rparr>) = Inr dev1"
  shows "duel cfu (replicate 4 (Works 0) @ xs) dev st p [new_worker [w]] =
    bindR (duel cfu xs dev1 (st\<lparr>messagesFound := messagesFound st + 1\<rparr>) p [(new_worker [])\<lparr>k_loaded := messagesFound st\<rparr>])
      (\<lambda>(hits, rest). Inr (w # hits, rest))"
  using assms
  by (cases "duel cfu xs dev1 (st\<lparr>messagesFound := messagesFound st + 1\<rparr>) p [(new_worker [])\<lparr>k_loaded := messagesFound st\<rparr>]")
    (auto simp: numeral_eq_Suc worker_step_def new_worker_def)

text \<open>A device in which two answers wait in slots 0 and 1, for the witnesses.\<close>

definition demo_found :: "kernel_device_callback" where
  "demo_found = (fresh_callback demo_junk)\<lparr>is_done := 0,
     response := Live \<lparr>obj_acc = demo_answer, obj_val = Live (replicate 200 0)\<rparr>\<rparr>"

definition demo_two :: paxos_kernel_device where
  "demo_two = at_slot 1 (at_slot 0 demo_read_device demo_found) demo_found"

lemma demo_two_facts:
  "buffers_ok demo_two" "callbacks_of demo_two ! 0 = demo_found" "callbacks_of demo_two ! 1 = demo_found"
  "finds (work_on 0 7) demo_found" "finds (work_on 1 7) demo_found"
proof -
  have r: "buffers_ok demo_read_device" using ready_ring_ok by (simp add: demo_read_device_def ring_ok_def)
  then have l: "length (callbacks_of demo_read_device) = BUFFER_SIZE" by (rule buffers_okD)
  have c: "callback_ok demo_found" by (simp add: demo_found_def callback_ok_def response_ok_def size_defs)
  from with_callbacks_buffers [OF r c, of 0] have "buffers_ok (at_slot 0 demo_read_device demo_found)"
    by (simp add: at_slot_def)
  from with_callbacks_buffers [OF this c, of 1] show "buffers_ok demo_two" by (simp add: at_slot_def demo_two_def)
  show "callbacks_of demo_two ! 0 = demo_found" "callbacks_of demo_two ! 1 = demo_found"
    using l by (simp_all add: demo_two_def at_slot_def BUFFER_SIZE_def)
  show "finds (work_on 0 7) demo_found" "finds (work_on 1 7) demo_found"
    by (simp_all add: finds_def demo_found_def response_of_def demo_answer_def demo_acc_def work_on_def)
qed

section \<open>Properties\<close>



text \<open>C36. What the counter is worth under any interleaving: it grows by at most the number of works
  that found their messages, and once every work is finished it has grown if any did (while it
  does not wrap around).\<close>

theorem counts_bounded:
  assumes "duel cfu xs dev st p (map new_worker wss) = Inr (hits, dev', st', p', ks')"
    and "unat (messagesFound st) + length hits < 2 ^ 32"
  shows "unat (messagesFound st) \<le> unat (messagesFound st')
    \<and> unat (messagesFound st') \<le> unat (messagesFound st) + length hits
    \<and> (hits \<noteq> [] \<and> (\<forall>k \<in> set ks'. k_works k = []) \<longrightarrow> unat (messagesFound st) < unat (messagesFound st'))"
proof -
  have "filter counting (map new_worker wss) = []"
    by (simp add: filter_empty_conv counting_def new_worker_def)
  then have "count_inv (unat (messagesFound st)) 0 0 (map new_worker wss) st"
    by (auto simp: count_inv_def new_worker_def)
  from count_duel [OF assms(1) this] assms(2) obtain s where
    s: "count_inv (unat (messagesFound st)) (length hits) s ks' st'" by auto
  have "filter counting ks' = []" if "\<forall>k \<in> set ks'. k_works k = []"
    using that by (simp add: filter_empty_conv counting_def)
  with s show ?thesis by (auto simp: count_inv_def)
qed

theorem counts_bounded_witness:
  "\<exists>dev' st' ks'. duel plain_from_user (replicate 4 (Works 0) @ []) demo_two
      \<lparr>rt_dev = zero_device, messagesReceived = 2, messagesFound = 0\<rparr> (new_answerer []) (map new_worker [[work_on 0 7]]) =
        Inr ([work_on 0 7], dev', st', new_answerer [], ks')
    \<and> 0 < unat (messagesFound st') \<and> unat (messagesFound st') \<le> 1"
proof -
  let ?st = "\<lparr>rt_dev = zero_device, messagesReceived = 2, messagesFound = 0\<rparr>" and ?z = "(0 :: nat) < BUFFER_SIZE"
  have z: ?z by simp
  have p: "param (work_on 0 7) = Live 0" by (simp add: work_on_def)
  have l: "work_look (work_on 0 7) 0 demo_two = Inr True"
    using work_look_ok [OF demo_two_facts(1) z] demo_two_facts(2,4) by (simp add: finds_def seen_def Let_def)
  note r = work_between [OF p l load_callback_ok(1) [OF demo_two_facts(1) z] store_callback_ok [OF demo_two_facts(1) z],
      of plain_from_user "[]" ?st "new_answerer []"]
  then obtain dev' ks' where d: "duel plain_from_user (replicate 4 (Works 0) @ []) demo_two ?st (new_answerer [])
      (map new_worker [[work_on 0 7]]) = Inr ([work_on 0 7], dev', ?st\<lparr>messagesFound := 1\<rparr>, new_answerer [], ks')"
    and k: "\<forall>k \<in> set ks'. k_works k = []" by (simp add: new_worker_def)
  from counts_bounded [OF d] d k show ?thesis by (simp add: exI)
qed

text \<open>C40. The counter is not protected: when two workers have found their messages and both load
  \<open>messagesFound\<close> before one of them stores it, two messages are found and the counter grows
  by one; one worker after the other, it grows by two.\<close>

theorem count_lost:
  assumes "buffers_ok dev" and "param w1 = Live i" and "param w2 = Live j" and "i < BUFFER_SIZE" and "j < BUFFER_SIZE"
    and "i \<noteq> j" and "finds w1 (callbacks_of dev ! i)" and "finds w2 (callbacks_of dev ! j)"
  shows "(\<exists>dev' ks'. duel cfu (concat (replicate 4 [Works 0, Works 1])) dev st p [new_worker [w1], new_worker [w2]] =
        Inr ([w1, w2], dev', st\<lparr>messagesFound := messagesFound st + 1\<rparr>, p, ks'))
    \<and> (\<exists>dev' ks'. duel cfu (replicate 4 (Works 0) @ replicate 4 (Works 1)) dev st p [new_worker [w1], new_worker [w2]] =
        Inr ([w1, w2], dev', st\<lparr>messagesFound := messagesFound st + 2\<rparr>, p, ks'))"
proof -
  let ?d = "\<lambda>i. (callbacks_of dev ! i)\<lparr>is_done := 1\<rparr>"
  let ?dev = "at_slot i dev (?d i)"
  have ok: "callback_ok (?d i)" using load_callback_ok(2) [OF assms(1,4)] by simp
  have bo: "buffers_ok ?dev" using with_callbacks_buffers [OF assms(1) ok] by (simp add: at_slot_def)
  have cb: "callbacks_of ?dev ! j = callbacks_of dev ! j" using assms(6) by (simp add: at_slot_def)
  have look: "work_look w1 i dev = Inr True" "work_look w2 j dev = Inr True" "work_look w2 j ?dev = Inr True"
    using work_look_ok [OF assms(1,4)] work_look_ok [OF assms(1,5)] work_look_ok [OF bo assms(5)] assms(7,8) cb
    by (simp_all add: finds_def seen_def Let_def)
  have store: "store_callback dev i (?d i) = Inr ?dev" using store_callback_ok [OF assms(1,4)] by (simp add: at_slot_def)
  note mem = load_callback_ok(1) [OF assms(1,4)] load_callback_ok(1) [OF assms(1,5)] load_callback_ok(1) [OF bo assms(5)]
    store_callback_ok [OF bo assms(5)]
  show ?thesis
    using assms(2,3) look store mem
    by (intro conjI; simp add: numeral_eq_Suc worker_step_def new_worker_def)
qed

theorem count_lost_witness:
  "\<exists>dev' ks'. duel plain_from_user (concat (replicate 4 [Works 0, Works 1])) demo_two
      \<lparr>rt_dev = zero_device, messagesReceived = 2, messagesFound = 0\<rparr> (new_answerer [])
      [new_worker [work_on 0 7], new_worker [work_on 1 7]] =
    Inr ([work_on 0 7, work_on 1 7], dev', \<lparr>rt_dev = zero_device, messagesReceived = 2, messagesFound = 1\<rparr>, new_answerer [], ks')"
  using count_lost [OF demo_two_facts(1), of "work_on 0 7" 0 "work_on 1 7" 1 plain_from_user
      "\<lparr>rt_dev = zero_device, messagesReceived = 2, messagesFound = 0\<rparr>" "new_answerer []"] demo_two_facts
  by (simp add: work_on_def BUFFER_SIZE_def del: duel.simps concat.simps replicate.simps)

text \<open>A message can be counted that the kernel does not have: the struct of an answer is visible
  before its value is copied. A worker that runs in between counts the message although the
  copy then fails, so that the write returns \<open>-1\<close>.\<close>

lemma counted_without_value:
  assumes "buffers_ok dev" and "working dev \<noteq> 0" and "copy_from_user_ok cfu" and "i < BUFFER_SIZE"
    and "is_done (callbacks_of dev ! i) = 0" and "param w = Live i" and "work_iid w = iid a"
    and "paxos_value_len (acc_value a) = of_nat n" and "0 < n" and "n \<le> 200" and "length v < n"
  shows "\<exists>dev' p' ks'. duel cfu (replicate 3 Answers @ replicate 4 (Works 0) @ replicate 3 Answers) dev st
        (new_answerer [(reply_bytes i a v, len)]) [new_worker [w]] =
      Inr ([w], dev', st\<lparr>messagesFound := messagesFound st + 1\<rparr>, p', ks') \<and> a_got p' = [- 1]"
proof -
  let ?b = "reply_bytes i a v" and ?c0 = "callbacks_of dev ! i"
  note c = reply_header_copies [OF assms(3,4)]
  obtain vs m where f: "cfu ?b (4 + sizeof_paxos_accepted) n = (vs, m)" "m \<noteq> 0" "length vs = n"
    using reply_short [OF assms(3,11)] by blast
  have n: "sint (of_nat n :: u32) = int n" "unat (int_to_size (of_nat n)) = n"
    using value_len_nat [of "replicate n (0 :: byte)"] assms(10) by simp_all
  have ok: "callback_ok ?c0" using load_callback_ok(2) [OF assms(1,4)] .
  then obtain r0 where r0: "response ?c0 = Live r0" "response_ok r0" by (auto simp: callback_ok_def)
  obtain r1 where r1: "clearPaxosAccepted r0 = Inr r1" "response_ok r1" "obj_val r1 = Live (replicate 200 0)"
    using clear_ok [OF r0(2)] by (simp add: response_ok_def size_defs)
  let ?a = "a\<lparr>acc_value := (acc_value a)\<lparr>paxos_value_val := paxos_value_val (acc_value (obj_acc r1))\<rparr>\<rparr>"
  let ?r2 = "r1\<lparr>obj_acc := ?a\<rparr>"
  have put: "mem_put 0 vs (replicate 200 0) = Inr (vs @ replicate (200 - n) 0)"
    using f(3) assms(10) by (simp add: mem_put_ok)
  note ops = at_slot_ops [OF assms(1,4)]
  note start = ops [OF ok, unfolded at_slot_start [OF assms(1)]]
  let ?D = "at_slot i dev" and ?p = "(new_answerer [(?b, len)])\<lparr>a_slot := i\<rparr>"
  let ?c1 = "?c0\<lparr>response := Live r1\<rparr>" and ?c2 = "?c0\<lparr>response := Live ?r2\<rparr>"
  have ok2: "callback_ok ?c1" "callback_ok ?c2" using r1(2) by simp_all
  have s1: "answer_step cfu (new_answerer [(?b, len)]) dev = Inr (?p\<lparr>a_at := Wipe\<rparr>, dev)"
    using c assms(2) start(1) by (simp add: answer_step_def answer_fetch_def new_answerer_def)
  have s2: "answer_step cfu (?p\<lparr>a_at := Wipe\<rparr>) dev = Inr (?p\<lparr>a_at := Header\<rparr>, ?D ?c1)"
    using start(3,4) r0(1) r1(1) by (simp add: answer_step_def answer_wipe_def new_answerer_def)
  have s3: "answer_step cfu (?p\<lparr>a_at := Header\<rparr>) (?D ?c1) = Inr (?p\<lparr>a_at := Value\<rparr>, ?D ?c2)"
    using c(2) ops(3,4) [OF ok2(1)] by (simp add: answer_step_def answer_header_def new_answerer_def)
  have look: "work_look w i (?D ?c2) = Inr True"
    using ops(1) [OF ok2(2)] assms(5,7,8,9) n(1) by (simp add: work_look_def)
  let ?c3 = "?c2\<lparr>is_done := 1\<rparr>" and ?c4 = "?c0\<lparr>is_done := 1,
    response := Live (?r2\<lparr>obj_val := Live (vs @ replicate (200 - n) 0)\<rparr>)\<rparr>"
  have fin: "load_callback (?D ?c2) i = Inr ?c2" "store_callback (?D ?c2) i ?c3 = Inr (?D ?c3)"
    using ops(1,2) [OF ok2(2)] by blast+
  have ok3: "callback_ok ?c3" using ok2(2) by simp
  have s4: "answer_step cfu (?p\<lparr>a_at := Value\<rparr>) (?D ?c3) = Inr (?p\<lparr>a_at := Pop, a_failed := m\<rparr>, ?D ?c4)"
    using f(1) ops(3,4) [OF ok3] assms(8,9) n put r1(3) by (simp add: answer_step_def answer_value_def new_answerer_def)
  have s5: "answer_step cfu (?p\<lparr>a_at := Pop, a_failed := m\<rparr>) d = Inr (?p\<lparr>a_at := Wake, a_failed := m\<rparr>,
      d\<lparr>first_buf := next_slot (first_buf d), used_buf := used_buf d - 1\<rparr>)" for d
    by (simp add: answer_step_def new_answerer_def)
  have s6: "answer_step cfu (?p\<lparr>a_at := Wake, a_failed := m\<rparr>) d =
      Inr (answer_returns (- 1) (?p\<lparr>a_at := Wake, a_failed := m\<rparr>), d)" for d
    using f(2) by (simp add: answer_step_def answer_wake_def new_answerer_def)
  note k = work_between [OF assms(6) look fin]
  have "replicate 3 Answers = [Answers, Answers, Answers]" by (simp add: numeral_eq_Suc)
  with s1 s2 s3 s4 s5 s6 k show ?thesis by (simp add: answer_returns_def new_answerer_def)
qed

end
