(* ===== verification/Module_Life.thy ===== *)
theory Module_Life
  imports Device_Types Persistence_Main
begin

text \<open>
  The life of the module: it is loaded, its file operations, the kernel's calls and the workers run
  in any order, it is unloaded, and file operations that come too late still run. The type of
  a device (\<open>Device_Types\<close>) carries through to the end, where everything is freed once.
\<close>

section \<open>Calls into the module\<close>

text \<open>The static variables of the module and of the read-test device.\<close>

record module_state =
  m_mod :: persistence_module
  m_received :: u32
  m_found :: u32

definition read_test_of :: "module_state \<Rightarrow> read_test" where
  "read_test_of s = \<lparr>rt_dev = readTest (m_mod s), messagesReceived = m_received s, messagesFound = m_found s\<rparr>"

definition put_read_test :: "read_test \<Rightarrow> module_state \<Rightarrow> module_state" where
  "put_read_test t s = s\<lparr>m_mod := (m_mod s)\<lparr>readTest := rt_dev t\<rparr>, m_received := messagesReceived t,
     m_found := messagesFound t\<rparr>"

text \<open>Calls on the two persistence devices, on the two test devices, and the turn of a worker.\<close>

datatype module_call =
    Write_device device_call | Read_device device_call
  | Test_open | Test_write umem u64 | Test_close
  | Query_open | Query_write umem u64 u32 | Query_close
  | Worker nat int

primrec run_call :: "module_call \<Rightarrow> module_state \<Rightarrow> cerror + module_state" where
  "run_call (Write_device c) s =
     bindR (call_device c (writePersistence (m_mod s))) (\<lambda>d. Inr (s\<lparr>m_mod := (m_mod s)\<lparr>writePersistence := d\<rparr>\<rparr>))"
| "run_call (Read_device c) s =
     bindR (call_device c (readPersistence (m_mod s))) (\<lambda>d. Inr (s\<lparr>m_mod := (m_mod s)\<lparr>readPersistence := d\<rparr>\<rparr>))"
| "run_call Test_open s = Inr (s\<lparr>m_mod := (m_mod s)\<lparr>writeTest := snd (write_test_open (writeTest (m_mod s)))\<rparr>\<rparr>)"
| "run_call (Test_write buffer len) s =
     bindR (write_test_write buffer len (writeTest (m_mod s)) (writePersistence (m_mod s))) (\<lambda>(r, d).
     Inr (s\<lparr>m_mod := (m_mod s)\<lparr>writePersistence := d\<rparr>\<rparr>))"
| "run_call Test_close s = Inr (s\<lparr>m_mod := (m_mod s)\<lparr>writeTest := snd (write_test_release (writeTest (m_mod s)))\<rparr>\<rparr>)"
| "run_call Query_open s = Inr (put_read_test (snd (read_test_open (read_test_of s))) s)"
| "run_call (Query_write buffer len junk) s =
     bindR (read_test_write buffer len junk (read_test_of s) (readPersistence (m_mod s)) (kernel (m_mod s))) (\<lambda>(r, t, d, e).
     Inr (put_read_test t (s\<lparr>m_mod := (m_mod s)\<lparr>readPersistence := d, kernel := e\<rparr>\<rparr>)))"
| "run_call Query_close s = Inr (put_read_test (snd (read_test_release (read_test_of s))) s)"
| "run_call (Worker i slept) s =
     (case take_from i (pool (readTest (m_mod s))) of
        None \<Rightarrow> Inr s
      | Some (w, q) \<Rightarrow>
          bindR (wait_response slept (Live w) ((read_test_of s)\<lparr>rt_dev := (readTest (m_mod s))\<lparr>pool := q\<rparr>\<rparr>)
                   (readPersistence (m_mod s))) (\<lambda>(n, w', t, d).
          Inr (put_read_test t (s\<lparr>m_mod := (m_mod s)\<lparr>readPersistence := d\<rparr>\<rparr>))))"

primrec run_calls :: "module_call list \<Rightarrow> module_state \<Rightarrow> cerror + module_state" where
  "run_calls [] s = Inr s"
| "run_calls (c # cs) s = bindR (run_call c s) (run_calls cs)"

primrec call_ok :: "module_call \<Rightarrow> bool" where
  "call_ok (Write_device c) = call_typed c"
| "call_ok (Read_device c) = call_typed c"
| "call_ok Test_open = True"
| "call_ok (Test_write buffer len) = True"
| "call_ok Test_close = True"
| "call_ok Query_open = True"
| "call_ok (Query_write buffer len junk) = True"
| "call_ok Query_close = True"
| "call_ok (Worker i slept) = True"

section \<open>The type of the module\<close>

text \<open>Four typed devices, two pools, and works that know their slots.\<close>

definition works_typed :: "workers_pool cptr \<Rightarrow> bool" where
  "works_typed p \<longleftrightarrow> pool_ok p \<and> (\<forall>w \<in># pending_works p. \<exists>i. param w = Live i)"

definition module_typed :: "module_state \<Rightarrow> bool" where
  "module_typed s \<longleftrightarrow> device_typed (writeTest (m_mod s)) \<and> device_typed (readTest (m_mod s))
     \<and> device_typed (writePersistence (m_mod s)) \<and> device_typed (readPersistence (m_mod s))
     \<and> pool_ok (pool (writeTest (m_mod s))) \<and> works_typed (pool (readTest (m_mod s)))"

lemma typed_add_work:
  "works_typed p \<Longrightarrow> param w = Live i \<Longrightarrow> typed_as works_typed (add_work p w)"
  using pool_sink.put_ok [of p w] by (auto simp: works_typed_def)

lemma typed_take:
  assumes "works_typed p" and "take_from i p = Some (w, q)"
  shows "works_typed q" and "\<exists>j. param w = Live j"
  using assms pool_queue.fetch_ok [of p i w q] by (auto simp: works_typed_def)

definition test_typed :: "read_test \<Rightarrow> bool" where
  "test_typed t \<longleftrightarrow> device_typed (rt_dev t) \<and> works_typed (pool (rt_dev t))"

lemma typed_query_write:
  assumes "device_typed dev" and "test_typed t"
  shows "typed_as (\<lambda>(r, t', d, e'). test_typed t' \<and> device_typed d) (read_test_write buffer len junk t dev e)"
  unfolding read_test_write_def
proof (rule typed_if)
  show "typed_as (\<lambda>(r, t', d, e'). test_typed t' \<and> device_typed d) (Inr (- 1, t, dev, e))"
    using assms by simp
next
  show "typed_as (\<lambda>(r, t', d, e'). test_typed t' \<and> device_typed d)
      (bindR (read_persistence_add_message buffer len dev) (\<lambda>(callback, persistence1). case callback of
        None \<Rightarrow> Inr (sint len, t, persistence1, e)
      | Some i \<Rightarrow> (let (persistenceWork, e1) = createPersistenceWork Wait_response junk e
         in case persistenceWork of
              None \<Rightarrow> Inr (sint len, t, persistence1, e1)
            | Some w \<Rightarrow> bindR (load_callback persistence1 i) (\<lambda>cb.
                bindR (add_work (pool (rt_dev t)) (w\<lparr>param := Live i, work_iid := cb_iid cb\<rparr>)) (\<lambda>p.
                Inr (sint len, t\<lparr>rt_dev := (rt_dev t)\<lparr>pool := p\<rparr>, messagesReceived := messagesReceived t + 1\<rparr>,
                     persistence1, e1))))))"
    using assms
    by (intro typed_bind [OF typed_read_add [OF assms(1)]])
      (auto simp: test_typed_def case_prod_beta Let_def split: option.splits
        intro!: typed_bind [OF typed_load_callback] typed_bind [OF typed_add_work])
qed

lemma typed_worker:
  assumes "device_typed dev" and "test_typed t" and "take_from i (pool (rt_dev t)) = Some (w, q)"
  shows "typed_as (\<lambda>(n, w', t', d). test_typed t' \<and> device_typed d)
    (wait_response slept (Live w) (t\<lparr>rt_dev := (rt_dev t)\<lparr>pool := q\<rparr>\<rparr>) dev)"
proof -
  let ?t = "t\<lparr>rt_dev := (rt_dev t)\<lparr>pool := q\<rparr>\<rparr>"
  from assms(2,3) have q: "works_typed q" "\<exists>j. param w = Live j" using typed_take by (auto simp: test_typed_def)
  then obtain j where j: "param w = Live j" by blast
  note wt = typed_wait [OF assms(1) j, of slept ?t]
  show ?thesis
  proof (cases "wait_response slept (Live w) ?t dev")
    case (Inl e)
    with wt show ?thesis by simp
  next
    case (Inr r)
    obtain n w' t' d where r: "r = (n, w', t', d)" by (cases r)
    with Inr wt have "device_typed d" by simp
    moreover from Inr r have "rt_dev t' = rt_dev ?t"
      by (auto simp: wait_response_def bindR_eq_Inr Let_def)
    then have "test_typed t'" using assms(2) q(1) by (simp add: test_typed_def)
    ultimately show ?thesis using Inr r by simp
  qed
qed

lemma typed_test_write:
  "device_typed dev \<Longrightarrow> typed_as (\<lambda>(r, d). device_typed d) (write_test_write buffer len d0 dev)"
  unfolding write_test_write_def by (auto intro!: typed_bind [OF typed_write_add])

lemma module_typed_test:
  "module_typed s \<Longrightarrow> test_typed (read_test_of s)"
  "module_typed s \<Longrightarrow> test_typed t \<Longrightarrow> module_typed (put_read_test t s)"
  by (simp_all add: module_typed_def test_typed_def read_test_of_def put_read_test_def)

lemma typed_run_call:
  assumes "module_typed s" and "call_ok c"
  shows "typed_as module_typed (run_call c s)"
proof (cases c)
  case (Write_device x)
  with assms show ?thesis by (auto simp: module_typed_def intro!: typed_bind [OF typed_call])
next
  case (Read_device x)
  with assms show ?thesis by (auto simp: module_typed_def intro!: typed_bind [OF typed_call])
next
  case (Test_write buffer len)
  with assms show ?thesis
    by (auto simp: module_typed_def case_prod_beta intro!: typed_bind [OF typed_test_write [unfolded case_prod_beta]])
next
  case (Query_write buffer len junk)
  have "device_typed (readPersistence (m_mod s))" using assms(1) by (simp add: module_typed_def)
  note t = typed_query_write [OF this module_typed_test(1) [OF assms(1)], of buffer len junk "kernel (m_mod s)"]
  from Query_write assms(1) show ?thesis
    by (auto intro!: typed_bind [OF t] simp: module_typed_def put_read_test_def test_typed_def)
next
  case (Worker i slept)
  show ?thesis
  proof (cases "take_from i (pool (readTest (m_mod s)))")
    case (Some r)
    obtain w q where r: "r = (w, q)" by (cases r)
    have d: "device_typed (readPersistence (m_mod s))" using assms(1) by (simp add: module_typed_def)
    have "take_from i (pool (rt_dev (read_test_of s))) = Some (w, q)" using Some r by (simp add: read_test_of_def)
    note t = typed_worker [OF d module_typed_test(1) [OF assms(1)] this, of slept]
    from Worker Some r assms(1) show ?thesis
      by (auto intro!: typed_bind [OF t [unfolded read_test_of_def, simplified]] 
          simp: read_test_of_def module_typed_def put_read_test_def test_typed_def)
  qed (use Worker assms in simp)
qed (use assms in \<open>auto simp: module_typed_def put_read_test_def read_test_of_def write_test_open_def
    write_test_release_def read_test_open_def read_test_release_def\<close>)

lemma typed_run_calls:
  assumes "module_typed s" and "\<forall>c \<in> set cs. call_ok c"
  shows "typed_as module_typed (run_calls cs s)"
  using assms
proof (induction cs arbitrary: s)
  case (Cons c cs)
  then have "typed_as module_typed (run_call c s)" by (simp add: typed_run_call)
  moreover have "typed_as module_typed (run_calls cs t)" if "module_typed t" for t
    using Cons.IH [OF that] Cons.prems(2) by simp
  ultimately show ?case by (simp add: typed_bind)
qed simp

section \<open>Unloading\<close>

lemma typed_releasable: "device_typed dev \<Longrightarrow> releasable dev"
  by (auto simp: device_typed_def releasable_def)

text \<open>The file operations of the persistence devices that a process can call.\<close>

primrec file_call :: "device_call \<Rightarrow> bool" where
  "file_call Write_open = True"
| "file_call (Write_read ctu buffer) = True"
| "file_call Write_release = True"
| "file_call (Write_add msg sz) = False"
| "file_call Read_open = True"
| "file_call (Read_read ctu buffer) = True"
| "file_call (Read_write cfu buffer len) = True"
| "file_call Read_release = True"
| "file_call (Read_add msg sz) = False"
| "file_call (Wait slept w st) = False"

lemma stopped_call:
  assumes "working dev = 0" and "file_call c"
  shows "\<exists>dev'. call_device c dev = Inr dev' \<and> working dev' = 0"
  using assms
  by (cases c) (simp_all add: write_persistence_open_def write_persistence_read_def write_persistence_release_def
      read_persistence_open_def read_persistence_read_def read_persistence_write_def read_persistence_release_def)

lemma stopped_calls:
  "working dev = 0 \<Longrightarrow> \<forall>c \<in> set cs. file_call c \<Longrightarrow> \<exists>dev'. call_all cs dev = Inr dev'"
proof (induction cs arbitrary: dev)
  case (Cons c cs)
  then obtain d where "call_device c dev = Inr d" "working d = 0" using stopped_call [of dev c] by auto
  with Cons.IH [of d] Cons.prems(2) show ?case by simp
qed simp

lemma loaded_typed:
  "module_typed \<lparr>m_mod = loaded api j e, m_received = 0, m_found = 0\<rparr>"
proof -
  have "device_typed (ready_device api j i name d)" for i name d
    using ready_device_buffers [of api j i name d] by (simp add: device_typed_def ready_device_def Let_def)
  moreover have "pool (ready_device api j i name (test_device f 10)) = Live (fresh_pool 10)" for i name f
    by (simp add: ready_device_def test_device_def Let_def)
  ultimately show ?thesis
    by (simp add: module_typed_def loaded_def works_typed_def fresh_pool_ok fresh_pool_pending)
qed

section \<open>Properties\<close>

definition freed_device :: "paxos_kernel_device \<Rightarrow> bool" where
  "freed_device d \<longleftrightarrow> msg_buf d = Dangling \<and> callback_buf d = Dangling \<and> de_name d = Dangling
     \<and> clas_name d = Dangling \<and> working d = 0"



end
