(* ===== verification/Declared_Types.thy ===== *)
theory Declared_Types
  imports Paxos_Types
begin

text \<open>
  Types of the headers that no code of the repository uses: the configuration of libpaxos in
  \<open>paxos/include/paxos.h\<close>, the statistics of \<open>kernel_client.h\<close> and the message of
  \<open>kernel_device.h\<close>. Pointers are addresses, as in the other structs.
\<close>

type_synonym iid_t = u32

type_synonym ballot_t = u32

datatype paxos_log_level = PAXOS_LOG_QUIET | PAXOS_LOG_ERROR | PAXOS_LOG_INFO | PAXOS_LOG_DEBUG

primrec log_level_code :: "paxos_log_level \<Rightarrow> nat" where
  "log_level_code PAXOS_LOG_QUIET = 0"
| "log_level_code PAXOS_LOG_ERROR = 1"
| "log_level_code PAXOS_LOG_INFO = 2"
| "log_level_code PAXOS_LOG_DEBUG = 3"

datatype paxos_storage_backend = PAXOS_MEM_STORAGE | PAXOS_LMDB_STORAGE

primrec storage_backend_code :: "paxos_storage_backend \<Rightarrow> nat" where
  "storage_backend_code PAXOS_MEM_STORAGE = 0"
| "storage_backend_code PAXOS_LMDB_STORAGE = 1"

record paxos_config =
  verbosity :: paxos_log_level
  tcp_nodelay :: u32
  learner_catch_up :: u32
  proposer_timeout :: u32
  proposer_preexec_window :: u32
  storage_backend :: paxos_storage_backend
  trash_files :: u32
  lmdb_sync :: u32
  config_env_path :: u64
  config_mapsize :: u64

record stats =
  min_latency :: u64
  max_latency :: u64
  avg_latency :: u64
  delivered_count :: u32
  delivered_bytes :: u64

record kernel_device_message =
  message_buffer_id :: u32
  message_accepted :: u64

text \<open>Different levels and backends have different codes.\<close>

lemma declared_codes_inject [simp]:
  "log_level_code a = log_level_code b \<longleftrightarrow> a = b"
  "storage_backend_code c = storage_backend_code d \<longleftrightarrow> c = d"
  by (cases a; cases b; simp) (cases c; cases d; simp)

end
